(* ===== verification/Prelude.thy ===== *)
theory Prelude
  imports Main "HOL-Library.Word" "HOL-Library.AList"
begin

text \<open>
  Shared vocabulary of the development: Go's error results, byte strings, fixed-width
  big-endian integers, modular inverses and association-list maps, with the generic
  lemmas the component theories rewrite with.  The interface of a strict codec (what a
  decoder that accepts only canonical encodings promises) is stated here once as the
  locale \<open>codec\<close>; every encoder and decoder of the program interprets it.
\<close>

unbundle bit_operations_syntax

named_theorems result_simps \<open>rewriting error results\<close>
named_theorems bytes_simps \<open>lengths and round trips of byte encodings\<close>
named_theorems eval_simps \<open>kernel evaluation of the model at concrete inputs\<close>

section \<open>Results: a value or an error message\<close>

text \<open>
  A Go function returning \<open>(T, error)\<close> is a function into \<open>string + 'a\<close>: \<open>Inl\<close> carries
  the text of the error, \<open>Inr\<close> the value.  \<open>andThen\<close> is the early return
  \<open>if err != nil { return ..., err }\<close>.
\<close>

type_synonym 'a result = "string + 'a"

definition andThen :: "'a result \<Rightarrow> ('a \<Rightarrow> 'b result) \<Rightarrow> 'b result" where
  "andThen r f = (case r of Inl e \<Rightarrow> Inl e | Inr x \<Rightarrow> f x)"

text \<open>\<open>wrapErr p r\<close> is \<open>fmt.Errorf(p + "%w", err)\<close>: the message is prefixed.\<close>

definition wrapErr :: "string \<Rightarrow> 'a result \<Rightarrow> 'a result" where
  "wrapErr p r = (case r of Inl e \<Rightarrow> Inl (p @ e) | Inr x \<Rightarrow> Inr x)"

fun isOk :: "'a result \<Rightarrow> bool" where
  "isOk (Inl e) = False"
| "isOk (Inr x) = True"

text \<open>A loop that evaluates a fallible body on each element and stops at the first error.\<close>

fun mapR :: "('a \<Rightarrow> 'b result) \<Rightarrow> 'a list \<Rightarrow> 'b list result" where
  "mapR f [] = Inr []"
| "mapR f (x # xs) = andThen (f x) (\<lambda>y. andThen (mapR f xs) (\<lambda>ys. Inr (y # ys)))"

lemma andThen_simps [simp, result_simps]:
  "andThen (Inl e) f = Inl e"
  "andThen (Inr x) f = f x"
  by (simp_all add: andThen_def)

lemma andThen_eq_Inr [simp, result_simps]:
  "andThen r f = Inr y \<longleftrightarrow> (\<exists>x. r = Inr x \<and> f x = Inr y)"
  by (cases r) auto

lemma andThen_cong [fundef_cong]:
  "r = r' \<Longrightarrow> (\<And>x. r' = Inr x \<Longrightarrow> f x = g x) \<Longrightarrow> andThen r f = andThen r' g"
  by (cases r') auto

text \<open>For evaluation: the continuation is not simplified before its argument is known.\<close>

lemma andThen_weak_cong: "r = r' \<Longrightarrow> andThen r f = andThen r' f"
  by simp

lemma wrapErr_simps [simp, result_simps]:
  "wrapErr p (Inl e) = Inl (p @ e)"
  "wrapErr p (Inr x) = Inr x"
  by (simp_all add: wrapErr_def)

lemma wrapErr_eq_Inr [simp, result_simps]: "wrapErr p r = Inr y \<longleftrightarrow> r = Inr y"
  by (cases r) auto

lemma isOk_iff: "isOk r \<longleftrightarrow> (\<exists>x. r = Inr x)"
  by (cases r) auto

lemma mapR_eq_Inr: "mapR f xs = Inr ys \<longleftrightarrow> list_all2 (\<lambda>x y. f x = Inr y) xs ys"
proof (induction xs arbitrary: ys)
  case Nil
  then show ?case by auto
next
  case (Cons x xs)
  then show ?case by (cases ys) (auto simp: list_all2_Cons1)
qed

lemma mapR_length: "mapR f xs = Inr ys \<Longrightarrow> length ys = length xs"
  by (auto simp: mapR_eq_Inr dest: list_all2_lengthD)

lemma mapR_nth: "mapR f xs = Inr ys \<Longrightarrow> i < length xs \<Longrightarrow> f (xs ! i) = Inr (ys ! i)"
  by (auto simp: mapR_eq_Inr dest: list_all2_nthD)

lemma mapR_all: "(\<And>x. x \<in> set xs \<Longrightarrow> f x = Inr (g x)) \<Longrightarrow> mapR f xs = Inr (map g xs)"
  by (induction xs) auto

lemma if_Inl_eq_Inr [simp, result_simps]:
  "(if b then Inl e else r) = Inr y \<longleftrightarrow> \<not> b \<and> r = Inr y"
  by auto

section \<open>Bytes and strings\<close>

text \<open>
  \<open>[]byte\<close> is a list of 8-bit words; a Go \<open>string\<close> is a byte sequence too and is
  modelled by HOL's \<open>string\<close>, whose characters are exactly the 256 byte values.
\<close>

type_synonym byte = "8 word"
type_synonym bytes = "byte list"

definition str_bytes :: "string \<Rightarrow> bytes" where
  "str_bytes s = map of_char s"

definition bytes_str :: "bytes \<Rightarrow> string" where
  "bytes_str b = map (\<lambda>w. char_of (unat w)) b"

lemma unat_byte_less [simp]: "unat (w :: byte) < 256"
  using unsigned_less [of w] by simp

lemma unat_of_char [simp]: "unat (of_char c :: byte) = of_char c"
proof -
  have "unat (of_nat (of_char c) :: byte) = of_char c mod 256"
    by (simp only: unat_of_nat) simp
  then show ?thesis by (simp add: of_nat_of_char)
qed

lemma of_char_char_of_unat [simp]: "of_char (char_of (unat w)) = (w :: byte)"
proof -
  have "unat (of_char (char_of (unat w)) :: byte) = unat w" by simp
  then show ?thesis by (simp only: word_unat_eq_iff)
qed

lemma str_bytes_inverse [simp, bytes_simps]: "bytes_str (str_bytes s) = s"
  by (simp add: str_bytes_def bytes_str_def comp_def)

lemma bytes_str_inverse [simp, bytes_simps]: "str_bytes (bytes_str b) = b"
  by (simp add: str_bytes_def bytes_str_def comp_def)

lemma length_str_bytes [simp, bytes_simps]: "length (str_bytes s) = length s"
  by (simp add: str_bytes_def)

lemma length_bytes_str [simp, bytes_simps]: "length (bytes_str b) = length b"
  by (simp add: bytes_str_def)

lemma str_bytes_inject [simp]: "str_bytes s = str_bytes t \<longleftrightarrow> s = t"
  by (metis str_bytes_inverse)

lemma bytes_str_inject [simp]: "bytes_str s = bytes_str t \<longleftrightarrow> s = t"
  by (metis bytes_str_inverse)

lemma str_bytes_append [simp]: "str_bytes (s @ t) = str_bytes s @ str_bytes t"
  by (simp add: str_bytes_def)

section \<open>Big-endian integers of fixed width\<close>

text \<open>
  \<open>be_nat\<close> is \<open>new(big.Int).SetBytes\<close> and \<open>binary.BigEndian.Uint32\<close> etc.;
  \<open>be_bytes w n\<close> is \<open>FillBytes\<close> into a buffer of \<open>w\<close> bytes and \<open>PutUint32\<close> etc.
  (\<open>FillBytes\<close> panics when \<open>n\<close> does not fit; every call in the program is guarded by a
  range check, which the round-trip lemmas take as their premise.)
\<close>

definition be_nat :: "bytes \<Rightarrow> nat" where
  "be_nat bs = foldl (\<lambda>a b. a * 256 + unat b) 0 bs"

fun le_bytes :: "nat \<Rightarrow> nat \<Rightarrow> bytes" where
  "le_bytes 0 n = []"
| "le_bytes (Suc w) n = of_nat n # le_bytes w (n div 256)"

definition be_bytes :: "nat \<Rightarrow> nat \<Rightarrow> bytes" where
  "be_bytes w n = rev (le_bytes w n)"

lemma be_nat_Nil [simp]: "be_nat [] = 0"
  by (simp add: be_nat_def)

lemma be_nat_snoc [simp]: "be_nat (bs @ [b]) = be_nat bs * 256 + unat b"
  by (simp add: be_nat_def)

lemma le_bytes_numeral [eval_simps]:
  "le_bytes (numeral k) n = of_nat n # le_bytes (pred_numeral k) (n div 256)"
  by (simp only: numeral_eq_Suc [of k] le_bytes.simps)

lemma replicate_numeral [eval_simps]: "replicate (numeral k) x = x # replicate (pred_numeral k) x"
  by (simp only: numeral_eq_Suc [of k] replicate.simps)

lemma str_bytes_simps [eval_simps]:
  "str_bytes [] = []" "str_bytes (c # s) = of_char c # str_bytes s"
  by (simp_all add: str_bytes_def)

declare be_bytes_def [eval_simps] be_nat_def [eval_simps] Let_def [eval_simps]

lemma length_le_bytes [simp]: "length (le_bytes w n) = w"
  by (induction w arbitrary: n) auto

lemma length_be_bytes [simp, bytes_simps]: "length (be_bytes w n) = w"
  by (simp add: be_bytes_def)

lemma be_bytes_0 [simp]: "be_bytes 0 n = []"
  by (simp add: be_bytes_def)

lemma be_bytes_Suc: "be_bytes (Suc w) n = be_bytes w (n div 256) @ [of_nat n]"
  by (simp add: be_bytes_def)

lemma be_nat_less: "be_nat bs < 256 ^ length bs"
proof (induction bs rule: rev_induct)
  case Nil
  then show ?case by simp
next
  case (snoc b bs)
  have "be_nat bs * 256 + unat b < (be_nat bs + 1) * 256" by simp
  also have "\<dots> \<le> 256 ^ length bs * 256"
    using snoc by (intro mult_right_mono) auto
  finally show ?case by simp
qed

lemma be_nat_be_bytes: "be_nat (be_bytes w n) = n mod 256 ^ w"
proof (induction w arbitrary: n)
  case 0
  then show ?case by simp
next
  case (Suc w)
  have "be_nat (be_bytes (Suc w) n) = (n div 256) mod 256 ^ w * 256 + n mod 256"
    using Suc by (simp add: be_bytes_Suc unat_of_nat)
  also have "\<dots> = n mod 256 ^ Suc w"
    by (simp add: mod_mult2_eq [of n 256 "256 ^ w"])
  finally show ?case .
qed

lemma be_nat_be_bytes_id [simp, bytes_simps]: "n < 256 ^ w \<Longrightarrow> be_nat (be_bytes w n) = n"
  by (simp add: be_nat_be_bytes)

lemma be_bytes_be_nat [bytes_simps]: "length bs = w \<Longrightarrow> be_bytes w (be_nat bs) = bs"
proof (induction bs arbitrary: w rule: rev_induct)
  case Nil
  then show ?case by simp
next
  case (snoc b bs)
  then obtain v where w: "w = Suc v" and v: "length bs = v" by (cases w) auto
  have "(of_nat (be_nat bs * 256 + unat b) :: byte) = b"
    by (simp only: word_unat_eq_iff unat_of_nat) simp
  then show ?case using snoc.IH [OF v] by (simp add: w be_bytes_Suc)
qed

lemma be_bytes_inject: "m < 256 ^ w \<Longrightarrow> n < 256 ^ w \<Longrightarrow> be_bytes w m = be_bytes w n \<longleftrightarrow> m = n"
  by (metis be_nat_be_bytes_id)

abbreviation u32_bytes :: "32 word \<Rightarrow> bytes" where
  "u32_bytes k \<equiv> be_bytes 4 (unat k)"

abbreviation u64_bytes :: "64 word \<Rightarrow> bytes" where
  "u64_bytes k \<equiv> be_bytes 8 (unat k)"

lemma unat_u32_less: "unat (k :: 32 word) < 256 ^ 4"
  using unsigned_less [of k] by simp

lemma unat_u64_less: "unat (k :: 64 word) < 256 ^ 8"
  using unsigned_less [of k] by simp

lemma u32_roundtrip [simp, bytes_simps]: "of_nat (be_nat (u32_bytes k)) = k"
  using unat_u32_less [of k] by (simp del: power_Suc)

lemma u64_roundtrip [simp, bytes_simps]: "of_nat (be_nat (u64_bytes k)) = k"
  using unat_u64_less [of k] by (simp del: power_Suc)

lemma u32_bytes_of_nat: "length bs = 4 \<Longrightarrow> u32_bytes (of_nat (be_nat bs)) = bs"
  using be_nat_less [of bs] by (simp add: unat_of_nat be_bytes_be_nat)

lemma u64_bytes_of_nat: "length bs = 8 \<Longrightarrow> u64_bytes (of_nat (be_nat bs)) = bs"
  using be_nat_less [of bs] by (simp add: unat_of_nat be_bytes_be_nat)

section \<open>Decimal digits\<close>

text \<open>\<open>dec_nat\<close> prints a natural number in decimal, as \<open>%d\<close>, \<open>strconv\<close> and \<open>big.Int.String\<close> do.\<close>

fun dec_nat :: "nat \<Rightarrow> string" where
  "dec_nat n = (if n < 10 then [char_of (48 + n)]
                else dec_nat (n div 10) @ [char_of (48 + n mod 10)])"

declare dec_nat.simps [simp del]

definition dec_int :: "int \<Rightarrow> string" where
  "dec_int i = (if i < 0 then CHR ''-'' # dec_nat (nat (- i)) else dec_nat (nat i))"

text \<open>The value of a digit string, the inverse of printing.\<close>

definition dec_val :: "string \<Rightarrow> nat" where
  "dec_val s = foldl (\<lambda>a c. a * 10 + (of_char c - 48)) 0 s"

lemma dec_val_dec_nat [simp]: "dec_val (dec_nat n) = n"
proof (induction n rule: dec_nat.induct)
  case (1 n)
  then show ?case by (subst dec_nat.simps) (auto simp: dec_val_def)
qed

lemma dec_nat_inject [simp]: "dec_nat m = dec_nat n \<longleftrightarrow> m = n"
  by (metis dec_val_dec_nat)

lemma dec_nat_digits: "c \<in> set (dec_nat n) \<Longrightarrow> 48 \<le> (of_char c :: nat) \<and> (of_char c :: nat) \<le> 57"
proof (induction n rule: dec_nat.induct)
  case (1 n)
  then show ?case by (subst (asm) (2) dec_nat.simps) (auto split: if_splits)
qed

lemma dec_nat_not_Nil [simp]: "dec_nat n \<noteq> []"
  by (subst dec_nat.simps) simp

lemma dec_int_inject [simp]: "dec_int i = dec_int j \<longleftrightarrow> i = j"
proof -
  have "dec_nat m \<noteq> CHR ''-'' # s" for m s
    using dec_nat_digits [of "CHR ''-''" m] by auto
  then show ?thesis by (auto simp: dec_int_def) metis+
qed

section \<open>Prime moduli and modular inverses\<close>

text \<open>
  \<open>ModInverse g n\<close> is \<open>new(big.Int).ModInverse(g, n)\<close>: the inverse of \<open>g\<close> in
  \<open>[0, n)\<close>, or \<open>None\<close> (Go's nil) when \<open>g\<close> and \<open>n\<close> are not relatively prime.
\<close>

definition ModInverse :: "int \<Rightarrow> int \<Rightarrow> int option" where
  "ModInverse g n =
     (if coprime (g mod n) n then Some (fst (bezw (nat (g mod n)) (nat n)) mod n) else None)"

text \<open>A modulus whose nonzero residues are all units, that is, a prime.\<close>

definition prime_modulus :: "int \<Rightarrow> bool" where
  "prime_modulus q \<longleftrightarrow> 1 < q \<and> (\<forall>a. 0 < a \<and> a < q \<longrightarrow> coprime a q)"

lemma ModInverse_Some:
  assumes "ModInverse g n = Some i" and "1 < n"
  shows "0 \<le> i \<and> i < n \<and> (g * i) mod n = 1"
proof -
  let ?r = "g mod n" and ?b = "bezw (nat (g mod n)) (nat n)"
  from assms have cop: "coprime ?r n" and i: "i = fst ?b mod n"
    by (auto simp: ModInverse_def split: if_splits)
  have r: "0 \<le> ?r" using assms(2) by simp
  have "fst ?b * int (nat ?r) + snd ?b * int (nat n) = int (gcd (nat ?r) (nat n))"
    by (rule bezw_aux [symmetric])
  moreover have "int (gcd (nat ?r) (nat n)) = gcd ?r n"
    using r assms(2) by (simp add: gcd_int_def)
  ultimately have "fst ?b * ?r + snd ?b * n = 1"
    using r assms(2) cop by (simp only: coprime_iff_gcd_eq_1 int_nat_eq) simp
  then have "(fst ?b * ?r) mod n = 1 mod n"
    by (metis mod_mult_self1)
  then have "(g * (fst ?b mod n)) mod n = 1"
    using assms(2) by (simp add: mod_simps mult.commute)
  then show ?thesis using assms(2) by (simp add: i)
qed

lemma ModInverse_prime:
  assumes "prime_modulus q" and "g mod q \<noteq> 0"
  obtains i where "ModInverse g q = Some i" "0 < i" "i < q" "(g * i) mod q = 1"
proof -
  have q: "1 < q" using assms(1) by (simp add: prime_modulus_def)
  then have "0 < g mod q" and "g mod q < q"
    using assms(2) pos_mod_sign [of q g] pos_mod_bound [of q g] by linarith+
  then have "coprime (g mod q) q" using assms(1) by (simp add: prime_modulus_def)
  then obtain i where i: "ModInverse g q = Some i" by (simp add: ModInverse_def)
  from ModInverse_Some [OF this q] have *: "0 \<le> i" "i < q" "(g * i) mod q = 1" by auto
  then have "i \<noteq> 0" using q by (cases "i = 0") auto
  with * i that show thesis by simp
qed

lemma prime_modulus_dvd_mult:
  assumes "prime_modulus q" and "q dvd a * b"
  shows "q dvd a \<or> q dvd b"
proof (cases "a mod q = 0")
  case True
  then show ?thesis by (simp add: mod_eq_0_iff_dvd)
next
  case False
  have q: "1 < q" using assms(1) by (simp add: prime_modulus_def)
  then have "0 < a mod q" and "a mod q < q"
    using False pos_mod_sign [of q a] pos_mod_bound [of q a] by linarith+
  then have "coprime (a mod q) q" using assms(1) by (simp add: prime_modulus_def)
  then have "coprime a q" using q by (metis coprime_mod_left_iff less_irrefl not_one_less_zero)
  with assms(2) show ?thesis
    by (metis coprime_commute coprime_dvd_mult_right_iff)
qed

section \<open>Maps\<close>

text \<open>
  A Go map is an association list with distinct keys: \<open>AList.update\<close> is \<open>m[k] = v\<close>,
  \<open>AList.delete\<close> is \<open>delete(m, k)\<close>, \<open>mapGet\<close> is \<open>m[k]\<close> with the zero value for a missing key.
  The order of the list stands for the unspecified iteration order of the map.
\<close>

definition mapGet :: "'v \<Rightarrow> ('k \<times> 'v) list \<Rightarrow> 'k \<Rightarrow> 'v" where
  "mapGet z m k = (case map_of m k of None \<Rightarrow> z | Some v \<Rightarrow> v)"

definition wf_map :: "('k \<times> 'v) list \<Rightarrow> bool" where
  "wf_map m \<longleftrightarrow> distinct (map fst m)"

lemma mapGet_update [simp]:
  "mapGet z (AList.update k v m) k' = (if k' = k then v else mapGet z m k')"
  by (simp add: mapGet_def update_conv')

lemma mapGet_Nil [simp]: "mapGet z [] k = z"
  by (simp add: mapGet_def)

lemma wf_map_Nil [simp]: "wf_map []"
  by (simp add: wf_map_def)

lemma wf_map_update [simp]: "wf_map m \<Longrightarrow> wf_map (AList.update k v m)"
  by (simp add: wf_map_def distinct_update)

lemma wf_map_delete [simp]: "wf_map m \<Longrightarrow> wf_map (AList.delete k m)"
  by (simp add: wf_map_def distinct_delete)

section \<open>The interface of a strict codec\<close>

text \<open>
  \<open>enc\<close> may reject a value, \<open>dec\<close> may reject an encoding.  A strict codec decodes what it
  encoded, and accepts nothing but what the encoder produces.  The clients' facts follow:
  distinct values have distinct encodings, and no value has two accepted encodings.
\<close>

locale codec =
  fixes enc :: "'a \<Rightarrow> 'b result"
    and dec :: "'b \<Rightarrow> 'a result"
    and wf :: "'a \<Rightarrow> bool"
  assumes dec_enc: "wf x \<Longrightarrow> enc x = Inr y \<Longrightarrow> dec y = Inr x"
    and dec_strict: "dec y = Inr x \<Longrightarrow> wf x \<and> enc x = Inr y"
begin

lemma enc_injective: "wf x \<Longrightarrow> wf x' \<Longrightarrow> enc x = Inr y \<Longrightarrow> enc x' = Inr y \<Longrightarrow> x = x'"
  by (metis dec_enc sum.inject(2))

lemma unique_encoding: "dec y = Inr x \<Longrightarrow> dec y' = Inr x \<Longrightarrow> y = y'"
  by (metis dec_strict sum.inject(2))

lemma accepted_iff: "(\<exists>x. dec y = Inr x) \<longleftrightarrow> (\<exists>x. wf x \<and> enc x = Inr y)"
  using dec_enc dec_strict by blast

lemma dec_iff: "dec y = Inr x \<longleftrightarrow> wf x \<and> enc x = Inr y"
  using dec_enc dec_strict by blast

end

end
