(* ===== verification/Curve.thy ===== *)
theory Curve
  imports Prelude
begin

text \<open>
  The third-party arithmetic the profile is built on: gnark-crypto's \<open>bn254\<close> and
  \<open>secp256k1\<close> packages and SHA-256.  None of it is code of the repository, so it enters
  as the record \<open>env\<close>, an argument of every definition that uses it.  What the program
  relies on is stated as named predicates over that record: each group is the cyclic
  group of prime order generated by its documented generator (\<open>curve_laws\<close>), the pairing
  check decides the bilinear equation (\<open>pairing_law\<close>), a digest has 32 bytes
  (\<open>digest_law\<close>), affine coordinates are reduced field elements (\<open>coord_laws\<close>).
\<close>

section \<open>Points and group operations\<close>

record affine =
  pX :: nat
  pY :: nat

record affine2 =
  pXA0 :: nat
  pXA1 :: nat
  pYA0 :: nat
  pYA1 :: nat

text \<open>
  The operations of one group.  \<open>IsInfinity\<close> compares with the value \<open>SetInfinity\<close>
  stores, and \<open>Equal\<close> compares coordinates, so both are HOL equality.
\<close>

record 'p curve =
  cMul :: "'p \<Rightarrow> int \<Rightarrow> 'p"
  cAdd :: "'p \<Rightarrow> 'p \<Rightarrow> 'p"
  cSub :: "'p \<Rightarrow> 'p \<Rightarrow> 'p"
  cNeg :: "'p \<Rightarrow> 'p"
  cInf :: 'p
  cGen :: 'p
  cOnCurve :: "'p \<Rightarrow> bool"
  cInSub :: "'p \<Rightarrow> bool"
  cOrder :: int

record env =
  BN :: "affine curve"
  BN2 :: "affine2 curve"
  SECP :: "affine curve"
  bnFp :: nat
  secpFp :: nat
  bnHash :: "bytes \<Rightarrow> bytes \<Rightarrow> affine result"
  secpHash :: "bytes \<Rightarrow> bytes \<Rightarrow> affine result"
  PairingCheck :: "affine list \<Rightarrow> affine2 list \<Rightarrow> bool result"
  Sum256 :: "bytes \<Rightarrow> bytes"

definition in_group :: "'p curve \<Rightarrow> 'p \<Rightarrow> bool" where
  "in_group C p \<longleftrightarrow> cOnCurve C p \<and> cInSub C p"

section \<open>What the program relies on\<close>

text \<open>Scalar multiples of the generator are a copy of the integers modulo the prime order.\<close>

definition curve_laws :: "'p curve \<Rightarrow> bool" where
  "curve_laws C \<longleftrightarrow>
     prime_modulus (cOrder C) \<and>
     (\<forall>p. in_group C p \<longleftrightarrow> (\<exists>k. p = cMul C (cGen C) k)) \<and>
     (\<forall>j k. cMul C (cGen C) j = cMul C (cGen C) k \<longleftrightarrow> j mod cOrder C = k mod cOrder C) \<and>
     (\<forall>j k. cMul C (cMul C (cGen C) j) k = cMul C (cGen C) (j * k)) \<and>
     (\<forall>j k. cAdd C (cMul C (cGen C) j) (cMul C (cGen C) k) = cMul C (cGen C) (j + k)) \<and>
     (\<forall>j k. cSub C (cMul C (cGen C) j) (cMul C (cGen C) k) = cMul C (cGen C) (j - k)) \<and>
     (\<forall>k. cNeg C (cMul C (cGen C) k) = cMul C (cGen C) (- k)) \<and>
     cMul C (cGen C) 1 = cGen C \<and> cMul C (cGen C) 0 = cInf C"

definition group_laws :: "env \<Rightarrow> bool" where
  "group_laws E \<longleftrightarrow> curve_laws (BN E) \<and> curve_laws (BN2 E) \<and> curve_laws (SECP E) \<and>
     cOrder (BN2 E) = cOrder (BN E)"

text \<open>
  \<open>bn254.PairingCheck([P1, P2], [Q1, Q2])\<close> decides \<open>e(P1,Q1) * e(P2,Q2) = 1\<close>; bilinearity
  and non-degeneracy of \<open>e\<close> on the generators turn that into an equation of exponents.
\<close>

definition pairing_law :: "env \<Rightarrow> bool" where
  "pairing_law E \<longleftrightarrow> (\<forall>a b c d.
     PairingCheck E [cMul (BN E) (cGen (BN E)) a, cMul (BN E) (cGen (BN E)) b]
                    [cMul (BN2 E) (cGen (BN2 E)) c, cMul (BN2 E) (cGen (BN2 E)) d]
       = Inr ((a * c + b * d) mod cOrder (BN E) = 0))"

definition digest_law :: "env \<Rightarrow> bool" where
  "digest_law E \<longleftrightarrow> (\<forall>b. length (Sum256 E b) = 32)"

text \<open>Group elements have coordinates below the base field modulus, which fits 32 bytes
  (254 bits for BN254), the scalar orders fit 32 bytes, and the point at infinity is stored
  as zeros.\<close>

definition coord_laws :: "env \<Rightarrow> bool" where
  "coord_laws E \<longleftrightarrow>
     (\<forall>p. in_group (BN E) p \<longrightarrow> pX p < bnFp E \<and> pY p < bnFp E) \<and>
     (\<forall>p. in_group (SECP E) p \<longrightarrow> pX p < secpFp E \<and> pY p < secpFp E) \<and>
     bnFp E \<le> 2 ^ 254 \<and> secpFp E \<le> 256 ^ 32 \<and>
     cOrder (BN E) \<le> 256 ^ 32 \<and> cOrder (SECP E) \<le> 256 ^ 32 \<and>
     cInf (BN E) = \<lparr>pX = 0, pY = 0\<rparr> \<and> cInf (SECP E) = \<lparr>pX = 0, pY = 0\<rparr> \<and>
     cInf (BN2 E) = \<lparr>pXA0 = 0, pXA1 = 0, pYA0 = 0, pYA1 = 0\<rparr>"

lemmas env_defs = group_laws_def pairing_law_def digest_law_def coord_laws_def

section \<open>Consequences: arithmetic in the exponent\<close>

text \<open>The discrete logarithm, used in proofs only.\<close>

definition dlog :: "'p curve \<Rightarrow> 'p \<Rightarrow> int" where
  "dlog C p = (SOME k. p = cMul C (cGen C) k)"

lemma curve_prime: "curve_laws C \<Longrightarrow> prime_modulus (cOrder C)"
  by (simp add: curve_laws_def)

lemma curve_order_gt1: "curve_laws C \<Longrightarrow> 1 < cOrder C"
  by (simp add: curve_laws_def prime_modulus_def)

lemma in_group_iff: "curve_laws C \<Longrightarrow> in_group C p \<longleftrightarrow> (\<exists>k. p = cMul C (cGen C) k)"
  by (simp add: curve_laws_def)

lemma dlog: "curve_laws C \<Longrightarrow> in_group C p \<Longrightarrow> cMul C (cGen C) (dlog C p) = p"
  unfolding dlog_def in_group_iff by (drule someI_ex) simp

lemma curve_exp:
  assumes "curve_laws C"
  shows "cMul C (cMul C (cGen C) j) k = cMul C (cGen C) (j * k)"
    and "cAdd C (cMul C (cGen C) j) (cMul C (cGen C) k) = cMul C (cGen C) (j + k)"
    and "cSub C (cMul C (cGen C) j) (cMul C (cGen C) k) = cMul C (cGen C) (j - k)"
    and "cNeg C (cMul C (cGen C) k) = cMul C (cGen C) (- k)"
  using assms by (simp_all add: curve_laws_def)

lemma inf_exp: "curve_laws C \<Longrightarrow> cMul C (cGen C) 0 = cInf C"
  by (simp add: curve_laws_def)

lemma gen_exp: "curve_laws C \<Longrightarrow> cMul C (cGen C) 1 = cGen C"
  by (simp add: curve_laws_def)

lemma cMul_gen_eq_iff:
  "curve_laws C \<Longrightarrow> cMul C (cGen C) j = cMul C (cGen C) k \<longleftrightarrow> j mod cOrder C = k mod cOrder C"
  by (simp add: curve_laws_def)

lemma cMul_gen_eqI:
  "curve_laws C \<Longrightarrow> j mod cOrder C = k mod cOrder C \<Longrightarrow> cMul C (cGen C) j = cMul C (cGen C) k"
  by (simp add: cMul_gen_eq_iff)

lemma cMul_gen_inf_iff:
  "curve_laws C \<Longrightarrow> cMul C (cGen C) k = cInf C \<longleftrightarrow> k mod cOrder C = 0"
  using cMul_gen_eq_iff [of C k 0] by (simp add: inf_exp)

lemma gen_not_inf: "curve_laws C \<Longrightarrow> cGen C \<noteq> cInf C"
  using cMul_gen_inf_iff [of C 1] curve_order_gt1 [of C] by (simp add: gen_exp)

lemma cMul_gen_in_group [simp]: "curve_laws C \<Longrightarrow> in_group C (cMul C (cGen C) k)"
  by (auto simp: in_group_iff)

lemma gen_in_group: "curve_laws C \<Longrightarrow> in_group C (cGen C)"
  using cMul_gen_in_group [of C 1] by (simp add: gen_exp)

lemma inf_in_group [simp]: "curve_laws C \<Longrightarrow> in_group C (cInf C)"
  using cMul_gen_in_group [of C 0] by (simp add: inf_exp)

text \<open>Every element is a multiple of the generator: proofs about points start here.\<close>

lemma in_group_exp:
  assumes "curve_laws C" and "in_group C p"
  obtains k where "p = cMul C (cGen C) k" and "0 \<le> k" and "k < cOrder C"
proof -
  let ?k = "dlog C p mod cOrder C"
  have "p = cMul C (cGen C) ?k"
    using dlog [OF assms] cMul_gen_eqI [OF assms(1), of "dlog C p" ?k] by simp
  moreover have "0 \<le> ?k" "?k < cOrder C" using curve_order_gt1 [OF assms(1)] by simp_all
  ultimately show thesis by (rule that)
qed

lemma cMul_in_group [simp]: "curve_laws C \<Longrightarrow> in_group C p \<Longrightarrow> in_group C (cMul C p k)"
  by (auto simp: in_group_iff curve_exp)

lemma cAdd_in_group [simp]:
  "curve_laws C \<Longrightarrow> in_group C p \<Longrightarrow> in_group C q \<Longrightarrow> in_group C (cAdd C p q)"
  by (auto simp: in_group_iff curve_exp)

lemma cNeg_in_group [simp]: "curve_laws C \<Longrightarrow> in_group C p \<Longrightarrow> in_group C (cNeg C p)"
  by (auto simp: in_group_iff curve_exp)

lemma cMul_mul: "curve_laws C \<Longrightarrow> in_group C p \<Longrightarrow> cMul C (cMul C p j) k = cMul C p (j * k)"
  by (auto simp: in_group_iff curve_exp mult.assoc)

lemma cMul_eq_modI:
  assumes "curve_laws C" and "in_group C p" and "j mod cOrder C = k mod cOrder C"
  shows "cMul C p j = cMul C p k"
proof -
  obtain a where a: "p = cMul C (cGen C) a" using assms(1,2) by (auto simp: in_group_iff)
  have "(a * j) mod cOrder C = (a * k) mod cOrder C"
    using assms(3) by (metis mod_mult_right_eq)
  then show ?thesis using assms(1) by (simp add: a curve_exp cMul_gen_eq_iff)
qed

lemma cMul_mod: "curve_laws C \<Longrightarrow> in_group C p \<Longrightarrow> cMul C p (k mod cOrder C) = cMul C p k"
  by (rule cMul_eq_modI) simp_all

lemma cMul_one: "curve_laws C \<Longrightarrow> in_group C p \<Longrightarrow> cMul C p 1 = p"
  by (auto simp: in_group_iff curve_exp)

text \<open>In a group of prime order a multiple of a nonzero point vanishes only with its scalar.\<close>

lemma cMul_inf_iff:
  assumes "curve_laws C" and "in_group C p" and "p \<noteq> cInf C"
  shows "cMul C p k = cInf C \<longleftrightarrow> k mod cOrder C = 0"
proof -
  obtain a where a: "p = cMul C (cGen C) a" by (rule in_group_exp [OF assms(1,2)])
  with assms have "a mod cOrder C \<noteq> 0" by (simp add: cMul_gen_inf_iff)
  then have "\<not> cOrder C dvd a" by (simp add: mod_eq_0_iff_dvd)
  then have "cOrder C dvd a * k \<longleftrightarrow> cOrder C dvd k"
    using prime_modulus_dvd_mult [OF curve_prime [OF assms(1)], of a k] by (blast intro: dvd_mult)
  then show ?thesis
    by (simp add: a curve_exp [OF assms(1)] cMul_gen_inf_iff [OF assms(1)] mod_eq_0_iff_dvd)
qed

lemma cMul_inverse:
  assumes "curve_laws C" and "in_group C p" and "ModInverse d (cOrder C) = Some i"
  shows "cMul C (cMul C p d) i = p" and "cMul C (cMul C p i) d = p"
proof -
  have "(d * i) mod cOrder C = 1 mod cOrder C"
    using ModInverse_Some [OF assms(3)] curve_order_gt1 [OF assms(1)] by simp
  then have "cMul C p (d * i) = cMul C p 1"
    by (rule cMul_eq_modI [OF assms(1,2)])
  then have "cMul C p (d * i) = cMul C p 1" and "cMul C p (i * d) = cMul C p 1"
    by (simp_all add: mult.commute [of i d])
  then show "cMul C (cMul C p d) i = p" and "cMul C (cMul C p i) d = p"
    by (simp_all add: cMul_mul cMul_one assms(1,2))
qed

end
