(* ===== verification/Profile.thy ===== *)
theory Profile
  imports Curve "HOL-Library.Multiset"
begin

text \<open>
  \<open>src/nativeproof/profile.go\<close>: the host side of the scheme.  The q-SDH parameters and
  their validation, accounts and member handles, the accumulator polynomial, membership
  witnesses, the public statement with its serial \<open>S\<close> and tag \<open>T\<close>, and immutable ring
  snapshots.  Every operation is a function into a result whose \<open>Inl\<close> is the Go error.
  The lemmas show that the setup produces accepted parameters, that accepted parameters
  are powers of one trapdoor, that the polynomial arithmetic accumulates exactly the
  members, and that every membership witness verifies.
\<close>

section \<open>Constants and data\<close>

definition MemberDomain :: string where "MemberDomain = ''lktrs/member/v1''"
definition ChallengeDomain :: string where "ChallengeDomain = ''lktrs/challenge/v1''"
definition RingDomain :: string where "RingDomain = ''lktrs/ring/v1''"
definition NymDST :: string where "NymDST = ''LKTRS-BN254-NYM-V1''"
definition IssueDST :: string where "IssueDST = ''LKTRS-SECP256K1-ISSUE-V1''"

record Params =
  parG :: affine
  parH :: affine2
  parHTau :: affine2
  parPowers :: "affine list"

text \<open>\<open>D\<close> is a nullable \<open>*big.Int\<close>, hence an option.\<close>

record Account =
  accU :: affine
  accY :: affine
  accD :: "int option"

record Statement =
  stV :: affine
  stNym :: affine
  stS :: affine
  stT :: affine
  stIssue :: bytes
  stRingDigest :: bytes
  stMessageDigest :: bytes
  stTimestamp :: "64 word"
  stK :: "32 word"
  stR :: "int option"

record SecretWitness =
  wX :: "int option"
  wD :: "int option"
  wAccount :: Account
  wW :: affine
  wCounter :: "32 word"

definition zero32 :: bytes where "zero32 = replicate 32 0"

section \<open>Scalars, points, setup\<close>

fun canonicalNonzero :: "int option \<Rightarrow> int \<Rightarrow> bool" where
  "canonicalNonzero None modulus = False"
| "canonicalNonzero (Some n) modulus = (0 < n \<and> n < modulus)"

text \<open>\<open>rnd upper\<close> is what \<open>rand.Int(rand.Reader, upper)\<close> returns at this call.\<close>

definition randomNonzero :: "int \<Rightarrow> (int \<Rightarrow> int result) \<Rightarrow> int result" where
  "randomNonzero modulus rnd = andThen (rnd (modulus - 1)) (\<lambda>n. Inr (n + 1))"

fun setupPowers :: "env \<Rightarrow> int \<Rightarrow> int \<Rightarrow> nat \<Rightarrow> affine list" where
  "setupPowers E tau pw 0 = []"
| "setupPowers E tau pw (Suc n) =
     cMul (BN E) (cGen (BN E)) pw # setupPowers E tau ((pw * tau) mod cOrder (BN E)) n"

definition Setup :: "env \<Rightarrow> int \<Rightarrow> (int \<Rightarrow> int result) \<Rightarrow> Params result" where
  "Setup E capacity rnd =
     (if capacity < 1 \<or> capacity > 65536 then Inl ''setup capacity must be in [1,65536]''
      else andThen (wrapErr ''setup randomness: '' (randomNonzero (cOrder (BN E)) rnd)) (\<lambda>tau.
        Inr \<lparr>parG = cGen (BN E), parH = cGen (BN2 E),
             parHTau = cMul (BN2 E) (cGen (BN2 E)) tau,
             parPowers = setupPowers E tau 1 (nat (capacity + 1))\<rparr>))"

record Profile =
  pfParameters :: Params

definition NewProfile :: "env \<Rightarrow> int \<Rightarrow> (int \<Rightarrow> int result) \<Rightarrow> Profile result" where
  "NewProfile E capacity rnd = andThen (Setup E capacity rnd) (\<lambda>p. Inr \<lparr>pfParameters = p\<rparr>)"

definition goodBN :: "env \<Rightarrow> affine \<Rightarrow> bool" where
  "goodBN E p \<longleftrightarrow> p \<noteq> cInf (BN E) \<and> cOnCurve (BN E) p \<and> cInSub (BN E) p"

definition goodBN2 :: "env \<Rightarrow> affine2 \<Rightarrow> bool" where
  "goodBN2 E p \<longleftrightarrow> p \<noteq> cInf (BN2 E) \<and> cOnCurve (BN2 E) p \<and> cInSub (BN2 E) p"

definition goodSecp :: "env \<Rightarrow> affine \<Rightarrow> bool" where
  "goodSecp E p \<longleftrightarrow> p \<noteq> cInf (SECP E) \<and> cOnCurve (SECP E) p \<and> cInSub (SECP E) p"

definition validatePower :: "env \<Rightarrow> Params \<Rightarrow> nat \<Rightarrow> unit result" where
  "validatePower E p i =
     (if \<not> goodBN E (parPowers p ! i) then Inl (''invalid powers point '' @ dec_nat i)
      else if i = 0 then Inr ()
      else case PairingCheck E [parPowers p ! i, cNeg (BN E) (parPowers p ! (i - 1))]
                               [parH p, parHTau p] of
             Inl e \<Rightarrow> Inl (''inconsistent powers at '' @ dec_nat i)
           | Inr ok \<Rightarrow> if ok then Inr () else Inl (''inconsistent powers at '' @ dec_nat i))"

definition ValidateParams :: "env \<Rightarrow> Params \<Rightarrow> unit result" where
  "ValidateParams E p =
     (if length (parPowers p) < 2 \<or> length (parPowers p) > 65537 then Inl ''invalid powers length''
      else if \<not> goodBN E (parG p) \<or> \<not> goodBN2 E (parH p) \<or> \<not> goodBN2 E (parHTau p)
      then Inl ''invalid setup point''
      else if parG p \<noteq> cGen (BN E) \<or> parH p \<noteq> cGen (BN2 E) \<or> parPowers p ! 0 \<noteq> parG p
      then Inl ''unexpected setup generators''
      else andThen (mapR (validatePower E p) [0..<length (parPowers p)]) (\<lambda>_. Inr ()))"

section \<open>Hashing and encodings\<close>

definition HashScalar :: "env \<Rightarrow> bytes \<Rightarrow> int \<Rightarrow> int result" where
  "HashScalar E data modulus =
     (if modulus < 2 then Inl ''invalid scalar modulus''
      else let n = int (be_nat (Sum256 E data)) mod modulus in
        if n = 0 then Inl ''hash reduced to zero'' else Inr n)"

definition EncodeBNPoint :: "affine \<Rightarrow> bytes" where
  "EncodeBNPoint p = be_bytes 32 (pX p) @ be_bytes 32 (pY p)"

definition EncodeSecpPoint :: "affine \<Rightarrow> bytes" where
  "EncodeSecpPoint p = be_bytes 32 (pX p) @ be_bytes 32 (pY p)"

definition Seeds :: "env \<Rightarrow> int option \<Rightarrow> bytes \<Rightarrow> (int \<times> int) result" where
  "Seeds E x issue =
     (if \<not> canonicalNonzero x (cOrder (SECP E))
      then Inl ''x is not a canonical nonzero secp scalar''
      else let data = be_bytes 32 (nat (the x)) @ issue in
        andThen (HashScalar E (data @ [0]) (cOrder (SECP E))) (\<lambda>s.
        andThen (HashScalar E (data @ [1]) (cOrder (SECP E))) (\<lambda>t.
        Inr (s, t))))"

definition Bases :: "env \<Rightarrow> affine list result" where
  "Bases E =
     mapR (\<lambda>label. andThen (bnHash E (str_bytes label) (str_bytes NymDST)) (\<lambda>p.
             if \<not> goodBN E p then Inl ''hash-derived nym base is invalid'' else Inr p))
       [''g0'', ''g1'', ''g2'']"

definition IssueBase :: "env \<Rightarrow> bytes \<Rightarrow> affine result" where
  "IssueBase E issue =
     andThen (secpHash E issue (str_bytes IssueDST)) (\<lambda>p.
       if \<not> goodSecp E p then Inl ''invalid issue base'' else Inr p)"

definition TraceKey :: "env \<Rightarrow> int option \<Rightarrow> affine result" where
  "TraceKey E x =
     (if \<not> canonicalNonzero x (cOrder (SECP E)) then Inl ''invalid user secret''
      else Inr (cMul (SECP E) (cGen (SECP E)) (the x)))"

section \<open>Accounts and members\<close>

definition validateAccount :: "env \<Rightarrow> Account \<Rightarrow> unit result" where
  "validateAccount E a =
     (if \<not> goodSecp E (accU a) \<or> \<not> goodSecp E (accY a)
      then Inl ''account contains invalid or identity point''
      else case accD a of
        None \<Rightarrow> Inr ()
      | Some d \<Rightarrow>
          if \<not> canonicalNonzero (Some d) (cOrder (SECP E)) then Inl ''invalid public account d''
          else if cMul (SECP E) (cGen (SECP E)) d \<noteq> accU a
          then Inl ''account U does not match d''
          else Inr ())"

definition NewAccount :: "env \<Rightarrow> int option \<Rightarrow> int option \<Rightarrow> Account result" where
  "NewAccount E x d =
     (if \<not> canonicalNonzero x (cOrder (SECP E)) \<or> \<not> canonicalNonzero d (cOrder (SECP E))
      then Inl ''account scalars must be canonical nonzero secp scalars''
      else let u = cMul (SECP E) (cGen (SECP E)) (the d);
               a = \<lparr>accU = u, accY = cMul (SECP E) u (the x), accD = d\<rparr>
           in andThen (validateAccount E a) (\<lambda>_. Inr a))"

text \<open>\<open>rx\<close> and \<open>rd\<close> are the two draws from \<open>rand.Reader\<close>, in the order the code makes them.\<close>

definition KeyGen ::
  "env \<Rightarrow> int option \<Rightarrow> (int \<Rightarrow> int result) \<Rightarrow> (int \<Rightarrow> int result) \<Rightarrow> (Account \<times> int) result" where
  "KeyGen E existingX rx rd =
     andThen (case existingX of
                None \<Rightarrow> randomNonzero (cOrder (SECP E)) rx
              | Some x \<Rightarrow> if \<not> canonicalNonzero (Some x) (cOrder (SECP E))
                          then Inl ''invalid existing user secret'' else Inr x) (\<lambda>x.
     andThen (randomNonzero (cOrder (SECP E)) rd) (\<lambda>d.
     andThen (NewAccount E (Some x) (Some d)) (\<lambda>a.
     Inr (a, x))))"

definition Member :: "env \<Rightarrow> Account \<Rightarrow> int result" where
  "Member E a =
     andThen (validateAccount E a) (\<lambda>_.
       HashScalar E (str_bytes MemberDomain @ EncodeSecpPoint (accU a) @ EncodeSecpPoint (accY a))
         (cOrder (BN E)))"

fun membersLoop :: "env \<Rightarrow> nat \<Rightarrow> int list \<Rightarrow> Account list \<Rightarrow> int list result" where
  "membersLoop E i seen [] = Inr []"
| "membersLoop E i seen (a # as) =
     andThen (wrapErr (''account '' @ dec_nat i @ '': '') (Member E a)) (\<lambda>m.
       if m \<in> set seen then Inl ''duplicate member handle''
       else andThen (membersLoop E (i + 1) (m # seen) as) (\<lambda>ms. Inr (m # ms)))"

definition membersOf :: "env \<Rightarrow> Account list \<Rightarrow> int list result" where
  "membersOf E accounts =
     (if length accounts = 0 \<or> length accounts > 2 ^ 32 - 1
      then Inl ''ring must be nonempty and fit uint32 count''
      else membersLoop E 0 [] accounts)"

fun encodeAccounts :: "Account list \<Rightarrow> bytes" where
  "encodeAccounts [] = []"
| "encodeAccounts (a # as) = EncodeSecpPoint (accU a) @ EncodeSecpPoint (accY a) @ encodeAccounts as"

definition encodeRing :: "Account list \<Rightarrow> bytes" where
  "encodeRing accounts =
     str_bytes RingDomain @ be_bytes 4 (length accounts) @ encodeAccounts accounts"

definition RingDigest :: "env \<Rightarrow> Account list \<Rightarrow> bytes result" where
  "RingDigest E accounts =
     andThen (membersOf E accounts) (\<lambda>_. Inr (Sum256 E (encodeRing accounts)))"

definition challengeInput :: "Statement \<Rightarrow> bytes" where
  "challengeInput st =
     str_bytes ChallengeDomain @ stIssue st @ stRingDigest st @ stMessageDigest st @
     EncodeBNPoint (stNym st) @ u64_bytes (stTimestamp st) @ u32_bytes (stK st)"

definition Challenge :: "env \<Rightarrow> Statement \<Rightarrow> int result" where
  "Challenge E st =
     (if stK st = 0 \<or> \<not> goodBN E (stNym st) then Inl ''invalid challenge k or nym''
      else HashScalar E (challengeInput st) (cOrder (SECP E)))"

section \<open>The accumulator\<close>

text \<open>
  The inner loop of \<open>memberPolynomial\<close>: the coefficients, ascending, are read one by one
  and two cells of the zero-initialised \<open>next\<close> are updated for each.
\<close>

fun polyInner :: "int \<Rightarrow> int \<Rightarrow> nat \<Rightarrow> int list \<Rightarrow> int list \<Rightarrow> int list" where
  "polyInner r m i [] nxt = nxt"
| "polyInner r m i (c # cs) nxt =
     (let nxt1 = nxt[i := (nxt ! i + c * m) mod r];
          nxt2 = nxt1[i + 1 := (nxt1 ! (i + 1) + c) mod r]
      in polyInner r m (i + 1) cs nxt2)"

fun polyOuter :: "int \<Rightarrow> int list \<Rightarrow> int list \<Rightarrow> int list" where
  "polyOuter r cs [] = cs"
| "polyOuter r cs (m # ms) = polyOuter r (polyInner r m 0 cs (replicate (length cs + 1) 0)) ms"

definition memberPolynomial :: "env \<Rightarrow> int list \<Rightarrow> int list" where
  "memberPolynomial E members = polyOuter (cOrder (BN E)) [1] members"

fun combineSum :: "env \<Rightarrow> Params \<Rightarrow> nat \<Rightarrow> int list \<Rightarrow> affine \<Rightarrow> affine" where
  "combineSum E p i [] acc = acc"
| "combineSum E p i (c # cs) acc =
     combineSum E p (i + 1) cs (cAdd (BN E) acc (cMul (BN E) (parPowers p ! i) c))"

definition combinePowers :: "env \<Rightarrow> Params \<Rightarrow> int list \<Rightarrow> affine result" where
  "combinePowers E p members =
     (if length members \<ge> length (parPowers p) then Inl ''ring exceeds public powers capacity''
      else let acc = combineSum E p 0 (memberPolynomial E members) (cInf (BN E)) in
        if \<not> goodBN E acc then Inl ''accumulator polynomial has an identity result'' else Inr acc)"

definition Accumulate :: "env \<Rightarrow> Params \<Rightarrow> Account list \<Rightarrow> affine result" where
  "Accumulate E p accounts =
     andThen (ValidateParams E p) (\<lambda>_.
       if length accounts = 0 then Inr (parG p)
       else andThen (membersOf E accounts) (\<lambda>members. combinePowers E p members))"

definition MembershipWitness :: "env \<Rightarrow> Params \<Rightarrow> Account list \<Rightarrow> int \<Rightarrow> affine result" where
  "MembershipWitness E p accounts selectedIdx =
     andThen (ValidateParams E p) (\<lambda>_.
       if selectedIdx < 0 \<or> selectedIdx \<ge> int (length accounts) then Inl ''selected index out of range''
       else andThen (membersOf E accounts) (\<lambda>members.
         if length members \<ge> length (parPowers p) then Inl ''ring exceeds capacity''
         else combinePowers E p (take (nat selectedIdx) members @ drop (nat selectedIdx + 1) members)))"

definition VerifyMembership :: "env \<Rightarrow> Params \<Rightarrow> affine \<Rightarrow> affine \<Rightarrow> int option \<Rightarrow> bool" where
  "VerifyMembership E p v w member =
     (if \<not> canonicalNonzero member (cOrder (BN E)) \<or> \<not> goodBN E v \<or> \<not> goodBN E w
         \<or> \<not> isOk (ValidateParams E p) then False
      else let hat = cAdd (BN2 E) (cMul (BN2 E) (parH p) (the member)) (parHTau p) in
        if \<not> goodBN2 E hat then False
        else case PairingCheck E [w, cNeg (BN E) v] [hat, parH p] of
               Inl e \<Rightarrow> False | Inr ok \<Rightarrow> ok)"

section \<open>Statements\<close>

text \<open>The nym loop: \<open>[s mod r]g0 + [t mod r]g1 + [x mod r]g2\<close>.\<close>

fun nymSum :: "env \<Rightarrow> affine list \<Rightarrow> int list \<Rightarrow> affine \<Rightarrow> affine" where
  "nymSum E (b # bs) (seed # seeds) nym =
     nymSum E bs seeds (cAdd (BN E) nym (cMul (BN E) b (seed mod cOrder (BN E))))"
| "nymSum E bs seeds nym = nym"

text \<open>The serial and the tag, from the seeds, the counter and the challenge.\<close>

definition statementTags ::
  "env \<Rightarrow> int \<Rightarrow> int \<Rightarrow> int \<Rightarrow> int \<Rightarrow> 32 word \<Rightarrow> affine \<Rightarrow> (affine \<times> affine) result" where
  "statementTags E x s t r counter ut =
     (let q = cOrder (SECP E);
          offset = int (unat counter) + 1;
          ds = (s + offset) mod q;
          dt = (t + offset) mod q
      in if ds = 0 \<or> dt = 0 then Inl ''zero seed/counter denominator''
         else case (ModInverse ds q, ModInverse dt q) of
           (Some is, Some it) \<Rightarrow>
             let S = cMul (SECP E) ut is;
                 ux = cMul (SECP E) (cGen (SECP E)) x;
                 T = cAdd (SECP E) ux (cMul (SECP E) ut ((r * it) mod q))
             in if \<not> goodSecp E S \<or> \<not> goodSecp E T then Inl ''identity S or T'' else Inr (S, T)
         | _ \<Rightarrow> Inl ''panic: nil scalar'')"

definition cloneAccount :: "Account \<Rightarrow> Account" where
  "cloneAccount a = (case accD a of None \<Rightarrow> a | Some d \<Rightarrow> a\<lparr>accD := Some d\<rparr>)"

definition MakeStatement ::
  "env \<Rightarrow> Params \<Rightarrow> Account list \<Rightarrow> int \<Rightarrow> int option \<Rightarrow> int option \<Rightarrow> bytes \<Rightarrow> bytes \<Rightarrow> 64 word
     \<Rightarrow> 32 word \<Rightarrow> 32 word \<Rightarrow> (Statement \<times> SecretWitness) result" where
  "MakeStatement E p accounts selectedIdx x d issue messageDigest timestamp k counter =
     (if k = 0 \<or> counter \<ge> k then Inl ''counter must be in [0,k)''
      else if selectedIdx < 0 \<or> selectedIdx \<ge> int (length accounts)
      then Inl ''selected index out of range''
      else andThen (NewAccount E x d) (\<lambda>selected.
        let acc = accounts ! nat selectedIdx in
        if accU selected \<noteq> accU acc \<or> accY selected \<noteq> accY acc
        then Inl ''secret does not match selected account''
        else if accD acc \<noteq> None \<and> accD acc \<noteq> d then Inl ''d differs from selected metadata''
        else andThen (Accumulate E p accounts) (\<lambda>v.
        andThen (MembershipWitness E p accounts selectedIdx) (\<lambda>w.
        andThen (RingDigest E accounts) (\<lambda>ring.
        andThen (Seeds E x issue) (\<lambda>(s, t).
        andThen (Bases E) (\<lambda>bases.
        let nym = nymSum E bases [s, t, the x] (cInf (BN E)) in
        if \<not> goodBN E nym then Inl ''identity nym''
        else
        let st = \<lparr>stV = v, stNym = nym, stS = cInf (SECP E), stT = cInf (SECP E), stIssue = issue,
                  stRingDigest = ring, stMessageDigest = messageDigest, stTimestamp = timestamp,
                  stK = k, stR = None\<rparr> in
        andThen (Challenge E st) (\<lambda>r.
        andThen (IssueBase E issue) (\<lambda>ut.
        andThen (statementTags E (the x) s t r counter ut) (\<lambda>(S, T).
        Inr (st\<lparr>stR := Some r, stS := S, stT := T\<rparr>,
             \<lparr>wX = x, wD = d, wAccount = cloneAccount selected, wW = w, wCounter = counter\<rparr>)))))))))))"

section \<open>Snapshots\<close>

definition cloneAccounts :: "Account list \<Rightarrow> Account list" where
  "cloneAccounts ins = map cloneAccount ins"

definition cloneParams :: "Params \<Rightarrow> Params" where
  "cloneParams p = p\<lparr>parPowers := [] @ parPowers p\<rparr>"

record Snapshot =
  snParams :: Params
  snAccounts :: "Account list"
  snValue :: affine

definition NewSnapshot :: "env \<Rightarrow> Params \<Rightarrow> Account list \<Rightarrow> Snapshot result" where
  "NewSnapshot E p accounts =
     (let ownedP = cloneParams p; ownedAccounts = cloneAccounts accounts in
      andThen (Accumulate E ownedP ownedAccounts) (\<lambda>v.
        Inr \<lparr>snParams = ownedP, snAccounts = ownedAccounts, snValue = v\<rparr>))"

definition SnapshotOf :: "env \<Rightarrow> Profile \<Rightarrow> Account list \<Rightarrow> Snapshot result" where
  "SnapshotOf E p accounts = NewSnapshot E (pfParameters p) accounts"

definition Join :: "env \<Rightarrow> Snapshot \<Rightarrow> Account \<Rightarrow> Snapshot result" where
  "Join E s a = NewSnapshot E (snParams s) (cloneAccounts (snAccounts s) @ [cloneAccount a])"

fun exitLoop :: "env \<Rightarrow> int \<Rightarrow> Account list \<Rightarrow> bool \<Rightarrow> Account list \<Rightarrow> (bool \<times> Account list) result" where
  "exitLoop E member [] found keep = Inr (found, keep)"
| "exitLoop E member (a # as) found keep =
     andThen (Member E a) (\<lambda>m.
       if m = member then exitLoop E member as True keep
       else exitLoop E member as found (keep @ [cloneAccount a]))"

definition Exit :: "env \<Rightarrow> Snapshot \<Rightarrow> int option \<Rightarrow> Snapshot result" where
  "Exit E s member =
     (if \<not> canonicalNonzero member (cOrder (BN E)) then Inl ''invalid exit member''
      else andThen (exitLoop E (the member) (snAccounts s) False []) (\<lambda>(found, keep).
        if \<not> found then Inl ''exit member not found''
        else NewSnapshot E (snParams s) keep))"

section \<open>Points and scalars: basic facts\<close>

lemma goodBN_iff: "goodBN E p \<longleftrightarrow> p \<noteq> cInf (BN E) \<and> in_group (BN E) p"
  by (auto simp: goodBN_def in_group_def)

lemma goodBN2_iff: "goodBN2 E p \<longleftrightarrow> p \<noteq> cInf (BN2 E) \<and> in_group (BN2 E) p"
  by (auto simp: goodBN2_def in_group_def)

lemma goodSecp_iff: "goodSecp E p \<longleftrightarrow> p \<noteq> cInf (SECP E) \<and> in_group (SECP E) p"
  by (auto simp: goodSecp_def in_group_def)

lemmas good_iffs = goodBN_iff goodBN2_iff goodSecp_iff

lemma group_lawsD:
  assumes "group_laws E"
  shows "curve_laws (BN E)" and "curve_laws (BN2 E)" and "curve_laws (SECP E)"
    and "cOrder (BN2 E) = cOrder (BN E)"
  using assms by (simp_all add: group_laws_def)

lemma canonicalNonzero_iff: "canonicalNonzero x q \<longleftrightarrow> (\<exists>n. x = Some n \<and> 0 < n \<and> n < q)"
  by (cases x) auto

lemma cloneAccount_id [simp]: "cloneAccount a = a"
  by (auto simp: cloneAccount_def split: option.splits)

lemma cloneAccounts_id [simp]: "cloneAccounts as = as"
  by (simp add: cloneAccounts_def map_idI)

lemma cloneParams_id [simp]: "cloneParams p = p"
  by (simp add: cloneParams_def)

lemma HashScalar_range: "HashScalar E data q = Inr n \<Longrightarrow> 0 < n \<and> n < q"
  by (auto simp: HashScalar_def Let_def split: if_splits)
     (metis less_le_trans linorder_not_less order_less_le pos_mod_sign zero_less_numeral)

section \<open>The member polynomial\<close>

text \<open>Evaluation of ascending coefficients at a point.\<close>

fun peval :: "int list \<Rightarrow> int \<Rightarrow> int" where
  "peval [] t = 0"
| "peval (c # cs) t = c + t * peval cs t"

lemma peval_replicate_zero [simp]: "peval (replicate n 0) t = 0"
  by (induction n) auto

lemma peval_update:
  "i < length xs \<Longrightarrow> peval (xs[i := v]) t = peval xs t + t ^ i * (v - xs ! i)"
proof (induction xs arbitrary: i)
  case Nil
  then show ?case by simp
next
  case (Cons x xs)
  show ?case
  proof (cases i)
    case 0
    then show ?thesis by simp
  next
    case (Suc j)
    with Cons have "peval (xs[j := v]) t = peval xs t + t ^ j * (v - xs ! j)" by simp
    then have "peval ((x # xs)[i := v]) t = x + t * (peval xs t + t ^ j * (v - xs ! j))"
      by (simp add: Suc)
    then show ?thesis by (simp add: Suc algebra_simps)
  qed
qed

lemma length_polyInner [simp]: "length (polyInner r m i cs nxt) = length nxt"
  by (induction r m i cs nxt rule: polyInner.induct) (auto simp: Let_def)

lemma mod_add_right_mult:
  "(a + b * (c mod r - d)) mod r = (a + b * (c - d)) mod (r :: int)"
  by (metis (no_types, opaque_lifting) mod_add_right_eq mod_diff_left_eq mod_mult_right_eq)

text \<open>One pass of the inner loop multiplies the polynomial by \<open>t + m\<close>.\<close>

lemma peval_polyInner:
  assumes "i + length cs < length nxt"
  shows "peval (polyInner r m i cs nxt) t mod r
           = (peval nxt t + t ^ i * (t + m) * peval cs t) mod r"
  using assms
proof (induction r m i cs nxt rule: polyInner.induct)
  case (1 r m i nxt)
  then show ?case by simp
next
  case (2 r m i c cs nxt)
  let ?n1 = "nxt[i := (nxt ! i + c * m) mod r]"
  let ?n2 = "?n1[i + 1 := (?n1 ! (i + 1) + c) mod r]"
  have i: "i < length nxt" "i + 1 < length nxt" using "2.prems" by simp_all
  have e1: "peval ?n1 t mod r = (peval nxt t + t ^ i * (c * m)) mod r"
    using i by (simp add: peval_update mod_add_right_mult)
  have "peval ?n2 t mod r = (peval ?n1 t + t ^ (i + 1) * c) mod r"
    using i by (simp only: peval_update length_list_update mod_add_right_mult) simp
  also have "\<dots> = (peval nxt t + t ^ i * (c * m) + t ^ (i + 1) * c) mod r"
    using e1 by (metis mod_add_left_eq)
  finally have e2: "peval ?n2 t mod r = (peval nxt t + t ^ i * (t + m) * c) mod r"
    by (simp add: algebra_simps)
  have "peval (polyInner r m i (c # cs) nxt) t mod r
          = (peval ?n2 t + t ^ (i + 1) * (t + m) * peval cs t) mod r"
    using "2.IH" [OF refl refl] "2.prems" by (simp add: Let_def)
  also have "\<dots> = (peval nxt t + t ^ i * (t + m) * c + t ^ (i + 1) * (t + m) * peval cs t) mod r"
    using e2 by (metis mod_add_left_eq)
  finally show ?case by (simp add: algebra_simps)
qed

lemma length_polyOuter [simp]: "length (polyOuter r cs ms) = length cs + length ms"
  by (induction r cs ms rule: polyOuter.induct) auto

definition member_product :: "int \<Rightarrow> int list \<Rightarrow> int" where
  "member_product t ms = prod_list (map (\<lambda>m. t + m) ms)"

lemma member_product_simps [simp]:
  "member_product t [] = 1"
  "member_product t (m # ms) = (t + m) * member_product t ms"
  "member_product t (xs @ ys) = member_product t xs * member_product t ys"
  by (simp_all add: member_product_def)

lemma peval_polyOuter:
  "peval (polyOuter r cs ms) t mod r = (peval cs t * member_product t ms) mod r"
proof (induction r cs ms rule: polyOuter.induct)
  case (1 r cs)
  then show ?case by simp
next
  case (2 r cs m ms)
  let ?cs = "polyInner r m 0 cs (replicate (length cs + 1) 0)"
  have "peval ?cs t mod r = ((t + m) * peval cs t) mod r"
    by (subst peval_polyInner) (simp_all del: replicate_Suc)
  then have "(peval ?cs t * member_product t ms) mod r
               = ((t + m) * peval cs t * member_product t ms) mod r"
    by (metis mod_mult_left_eq)
  with 2 show ?case by (simp add: algebra_simps del: replicate_Suc)
qed

lemma peval_memberPolynomial:
  "peval (memberPolynomial E ms) t mod cOrder (BN E) = member_product t ms mod cOrder (BN E)"
  by (simp add: memberPolynomial_def peval_polyOuter)

lemma length_memberPolynomial [simp]: "length (memberPolynomial E ms) = length ms + 1"
  by (simp add: memberPolynomial_def)

section \<open>Accepted parameters are the powers of one trapdoor\<close>

text \<open>The specification of a structured reference string for the trapdoor \<open>tau\<close>.\<close>

definition srs_of :: "env \<Rightarrow> int \<Rightarrow> Params \<Rightarrow> bool" where
  "srs_of E tau p \<longleftrightarrow>
     parG p = cGen (BN E) \<and> parH p = cGen (BN2 E) \<and>
     parHTau p = cMul (BN2 E) (cGen (BN2 E)) tau \<and> tau mod cOrder (BN E) \<noteq> 0 \<and>
     2 \<le> length (parPowers p) \<and> length (parPowers p) \<le> 65537 \<and>
     (\<forall>i < length (parPowers p). parPowers p ! i = cMul (BN E) (cGen (BN E)) (tau ^ i))"

lemma prime_power_nonzero: "prime_modulus q \<Longrightarrow> t mod q \<noteq> 0 \<Longrightarrow> t ^ i mod q \<noteq> (0 :: int)"
proof (induction i)
  case 0
  then show ?case by (simp add: prime_modulus_def)
next
  case (Suc i)
  then show ?case
    using prime_modulus_dvd_mult [of q t "t ^ i"] by (auto simp: mod_eq_0_iff_dvd)
qed

lemma gen_mul_mod: "curve_laws C \<Longrightarrow> cMul C (cGen C) (k mod cOrder C) = cMul C (cGen C) k"
  by (simp add: cMul_gen_eq_iff)

lemma pairing_step:
  assumes "group_laws E" and "pairing_law E"
  shows "PairingCheck E [cMul (BN E) (cGen (BN E)) a, cNeg (BN E) (cMul (BN E) (cGen (BN E)) b)]
           [cGen (BN2 E), cMul (BN2 E) (cGen (BN2 E)) tau]
           = Inr ((a - b * tau) mod cOrder (BN E) = 0)"
proof -
  note laws = group_lawsD [OF assms(1)]
  have "PairingCheck E [cMul (BN E) (cGen (BN E)) a, cMul (BN E) (cGen (BN E)) (- b)]
          [cMul (BN2 E) (cGen (BN2 E)) 1, cMul (BN2 E) (cGen (BN2 E)) tau]
          = Inr ((a * 1 + (- b) * tau) mod cOrder (BN E) = 0)"
    using assms(2) unfolding pairing_law_def by blast
  then show ?thesis by (simp add: curve_exp(4) gen_exp laws)
qed

lemma validatePower_srs:
  assumes "group_laws E" and "pairing_law E" and "srs_of E tau p" and "i < length (parPowers p)"
  shows "validatePower E p i = Inr ()"
proof -
  note laws = group_lawsD [OF assms(1)]
  have pw: "parPowers p ! j = cMul (BN E) (cGen (BN E)) (tau ^ j)" if "j \<le> i" for j
    using assms(3,4) that by (simp add: srs_of_def)
  have h: "parH p = cGen (BN2 E)" "parHTau p = cMul (BN2 E) (cGen (BN2 E)) tau"
    using assms(3) by (simp_all add: srs_of_def)
  have good: "goodBN E (parPowers p ! i)"
    using assms(3) prime_power_nonzero [OF curve_prime [OF laws(1)]]
    by (simp add: pw goodBN_iff laws cMul_gen_inf_iff srs_of_def)
  show ?thesis
  proof (cases i)
    case 0
    with good show ?thesis by (simp add: validatePower_def)
  next
    case (Suc j)
    then have "tau ^ i - tau ^ j * tau = 0" by simp
    with Suc good show ?thesis
      by (simp add: validatePower_def pw h pairing_step [OF assms(1,2)] del: power_Suc)
  qed
qed

lemma validatePower_step:
  assumes "group_laws E" and "pairing_law E"
    and "parH p = cGen (BN2 E)" and "parHTau p = cMul (BN2 E) (cGen (BN2 E)) tau"
    and "parPowers p ! i = cMul (BN E) (cGen (BN E)) (tau ^ i)"
    and "validatePower E p (Suc i) = Inr ()"
  shows "parPowers p ! Suc i = cMul (BN E) (cGen (BN E)) (tau ^ Suc i)"
proof -
  note laws = group_lawsD [OF assms(1)]
  from assms(6) have "in_group (BN E) (parPowers p ! Suc i)"
    by (auto simp: validatePower_def goodBN_iff)
  then obtain a where a: "parPowers p ! Suc i = cMul (BN E) (cGen (BN E)) a"
    by (rule in_group_exp [OF laws(1)])
  from assms(6) have "(a - tau ^ i * tau) mod cOrder (BN E) = 0"
    by (simp add: validatePower_def assms(3-5) a pairing_step [OF assms(1,2)] split: if_splits)
  then have "a mod cOrder (BN E) = tau ^ Suc i mod cOrder (BN E)"
    by (simp add: mod_eq_0_iff_dvd mod_eq_dvd_iff mult.commute)
  then show ?thesis by (simp only: a cMul_gen_eq_iff [OF laws(1)])
qed

lemma ValidateParams_ok_iff:
  "ValidateParams E p = Inr () \<longleftrightarrow>
     2 \<le> length (parPowers p) \<and> length (parPowers p) \<le> 65537 \<and>
     goodBN E (parG p) \<and> goodBN2 E (parH p) \<and> goodBN2 E (parHTau p) \<and>
     parG p = cGen (BN E) \<and> parH p = cGen (BN2 E) \<and> parPowers p ! 0 = parG p \<and>
     (\<forall>i < length (parPowers p). validatePower E p i = Inr ())"
  (is "?L \<longleftrightarrow> ?R")
proof
  assume ?L
  then show ?R
    by (auto simp: ValidateParams_def dest: mapR_nth)
next
  assume ?R
  then have "mapR (validatePower E p) [0..<length (parPowers p)]
               = Inr (map (\<lambda>_. ()) [0..<length (parPowers p)])"
    by (intro mapR_all) simp
  with \<open>?R\<close> show ?L by (auto simp: ValidateParams_def)
qed

lemma srs_of_validates:
  assumes "group_laws E" and "pairing_law E" and "srs_of E tau p"
  shows "ValidateParams E p = Inr ()"
proof -
  note laws = group_lawsD [OF assms(1)]
  have "parPowers p ! 0 = cMul (BN E) (cGen (BN E)) (tau ^ 0)"
    using assms(3) unfolding srs_of_def by fastforce
  then have "parPowers p ! 0 = parG p"
    using assms(3) by (simp add: srs_of_def gen_exp laws)
  then show ?thesis
    using assms validatePower_srs [OF assms]
    by (auto simp: ValidateParams_ok_iff srs_of_def good_iffs laws gen_not_inf gen_in_group
        cMul_gen_inf_iff)
qed

lemma validated_srs:
  assumes "group_laws E" and "pairing_law E" and "ValidateParams E p = Inr ()"
  obtains tau where "srs_of E tau p"
proof -
  note laws = group_lawsD [OF assms(1)] and ok = assms(3) [unfolded ValidateParams_ok_iff]
  from ok have "in_group (BN2 E) (parHTau p)" by (simp add: goodBN2_iff)
  then obtain tau where tau: "parHTau p = cMul (BN2 E) (cGen (BN2 E)) tau"
    by (rule in_group_exp [OF laws(2)])
  have pw: "i < length (parPowers p) \<Longrightarrow> parPowers p ! i = cMul (BN E) (cGen (BN E)) (tau ^ i)" for i
  proof (induction i)
    case 0
    then show ?case using ok by (simp add: gen_exp laws)
  next
    case (Suc i)
    then show ?case using ok tau by (intro validatePower_step [OF assms(1,2)]) simp_all
  qed
  have "tau mod cOrder (BN E) \<noteq> 0"
    using ok tau laws by (simp add: goodBN2_iff cMul_gen_inf_iff)
  with ok tau pw have "srs_of E tau p" by (simp add: srs_of_def)
  then show thesis by (rule that)
qed

text \<open>The setup loop computes the powers of the sampled trapdoor.\<close>

lemma length_setupPowers [simp]: "length (setupPowers E tau pw n) = n"
  by (induction n arbitrary: pw) auto

lemma setupPowers_nth:
  assumes "curve_laws (BN E)" and "i < n"
  shows "setupPowers E tau pw n ! i = cMul (BN E) (cGen (BN E)) (pw * tau ^ i)"
  using assms(2)
proof (induction n arbitrary: pw i)
  case 0
  then show ?case by simp
next
  case (Suc n)
  show ?case
  proof (cases i)
    case 0
    then show ?thesis by simp
  next
    case (Suc j)
    with Suc.prems have "setupPowers E tau pw (Suc n) ! i
        = cMul (BN E) (cGen (BN E)) ((pw * tau) mod cOrder (BN E) * tau ^ j)"
      using Suc.IH by simp
    also have "\<dots> = cMul (BN E) (cGen (BN E)) (pw * tau * tau ^ j)"
      by (simp only: cMul_gen_eq_iff [OF assms(1)] mod_mult_left_eq)
    finally show ?thesis by (simp add: Suc mult.assoc)
  qed
qed

text \<open>\<open>rand.Int\<close> documents a value in \<open>[0, max)\<close>.\<close>

definition rand_law :: "(int \<Rightarrow> int result) \<Rightarrow> bool" where
  "rand_law rnd \<longleftrightarrow> (\<forall>u n. rnd u = Inr n \<longrightarrow> 0 \<le> n \<and> n < u)"

lemma randomNonzero_range:
  "rand_law rnd \<Longrightarrow> randomNonzero q rnd = Inr n \<Longrightarrow> 0 < n \<and> n < q"
  by (auto simp: randomNonzero_def rand_law_def) fastforce+

lemma Setup_srs:
  assumes "group_laws E" and "rand_law rnd" and "Setup E capacity rnd = Inr p"
  obtains tau where "srs_of E tau p" and "length (parPowers p) = nat (capacity + 1)"
proof -
  note laws = group_lawsD [OF assms(1)]
  from assms(3) obtain tau where cap: "1 \<le> capacity" "capacity \<le> 65536"
    and tau: "randomNonzero (cOrder (BN E)) rnd = Inr tau"
    and p: "p = \<lparr>parG = cGen (BN E), parH = cGen (BN2 E),
             parHTau = cMul (BN2 E) (cGen (BN2 E)) tau,
             parPowers = setupPowers E tau 1 (nat (capacity + 1))\<rparr>"
    by (auto simp: Setup_def)
  have "tau mod cOrder (BN E) \<noteq> 0"
    using randomNonzero_range [OF assms(2) tau] by simp
  moreover have "2 \<le> nat (capacity + 1)" "nat (capacity + 1) \<le> 65537" using cap by simp_all
  ultimately have "srs_of E tau p"
    by (simp add: srs_of_def p setupPowers_nth laws)
  then show thesis by (rule that) (simp add: p)
qed

section \<open>The accumulator holds exactly the members\<close>

lemma combineSum_exp:
  assumes "curve_laws (BN E)" and "srs_of E tau p" and "i + length cs \<le> length (parPowers p)"
  shows "combineSum E p i cs (cMul (BN E) (cGen (BN E)) a)
           = cMul (BN E) (cGen (BN E)) (a + tau ^ i * peval cs tau)"
  using assms(3)
proof (induction cs arbitrary: i a)
  case Nil
  then show ?case by simp
next
  case (Cons c cs)
  then have "parPowers p ! i = cMul (BN E) (cGen (BN E)) (tau ^ i)"
    using assms(2) by (simp add: srs_of_def)
  then have "combineSum E p i (c # cs) (cMul (BN E) (cGen (BN E)) a)
      = combineSum E p (i + 1) cs (cMul (BN E) (cGen (BN E)) (a + tau ^ i * c))"
    by (simp add: curve_exp [OF assms(1)])
  also have "\<dots> = cMul (BN E) (cGen (BN E)) (a + tau ^ i * c + tau ^ (i + 1) * peval cs tau)"
    using Cons by simp
  finally show ?case by (simp add: algebra_simps)
qed

lemma combinePowers_exp:
  assumes "curve_laws (BN E)" and "srs_of E tau p"
  shows "combinePowers E p ms = Inr v \<longleftrightarrow>
     length ms < length (parPowers p) \<and> member_product tau ms mod cOrder (BN E) \<noteq> 0 \<and>
     v = cMul (BN E) (cGen (BN E)) (member_product tau ms)"
proof (cases "length ms < length (parPowers p)")
  case True
  have "combineSum E p 0 (memberPolynomial E ms) (cMul (BN E) (cGen (BN E)) 0)
      = cMul (BN E) (cGen (BN E)) (peval (memberPolynomial E ms) tau)"
    using combineSum_exp [OF assms, of 0 "memberPolynomial E ms" 0] True by simp
  also have "\<dots> = cMul (BN E) (cGen (BN E)) (member_product tau ms)"
    by (simp only: cMul_gen_eq_iff [OF assms(1)] peval_memberPolynomial)
  finally have "combineSum E p 0 (memberPolynomial E ms) (cInf (BN E))
      = cMul (BN E) (cGen (BN E)) (member_product tau ms)"
    by (simp add: inf_exp [OF assms(1)])
  with True show ?thesis
    by (auto simp: combinePowers_def Let_def goodBN_iff assms(1) cMul_gen_inf_iff)
next
  case False
  then show ?thesis by (simp add: combinePowers_def)
qed

lemma membersLoop_iff:
  "membersLoop E i seen as = Inr ms \<longleftrightarrow>
     list_all2 (\<lambda>a m. Member E a = Inr m) as ms \<and> distinct ms \<and> set ms \<inter> set seen = {}"
proof (induction as arbitrary: i seen ms)
  case Nil
  then show ?case by auto
next
  case (Cons a as)
  then show ?case by (cases ms) (auto simp: list_all2_Cons1 split: if_splits)
qed

lemma membersOf_iff:
  "membersOf E as = Inr ms \<longleftrightarrow>
     0 < length as \<and> length as < 2 ^ 32 \<and>
     list_all2 (\<lambda>a m. Member E a = Inr m) as ms \<and> distinct ms"
  by (auto simp: membersOf_def membersLoop_iff)

lemma membersOf_length: "membersOf E as = Inr ms \<Longrightarrow> length ms = length as"
  by (auto simp: membersOf_iff dest: list_all2_lengthD)

lemma membersOf_nth: "membersOf E as = Inr ms \<Longrightarrow> i < length as \<Longrightarrow> Member E (as ! i) = Inr (ms ! i)"
  by (auto simp: membersOf_iff dest: list_all2_nthD)

lemma Member_range: "Member E a = Inr m \<Longrightarrow> 0 < m \<and> m < cOrder (BN E)"
  by (auto simp: Member_def dest: HashScalar_range)

lemma Accumulate_exp:
  assumes "group_laws E" and "srs_of E tau p" and "ValidateParams E p = Inr ()"
    and "membersOf E as = Inr ms"
  shows "Accumulate E p as = Inr v \<longleftrightarrow>
     length as < length (parPowers p) \<and> member_product tau ms mod cOrder (BN E) \<noteq> 0 \<and>
     v = cMul (BN E) (cGen (BN E)) (member_product tau ms)"
proof -
  have "as \<noteq> []" using assms(4) by (auto simp: membersOf_iff)
  then show ?thesis
    using assms combinePowers_exp [OF group_lawsD(1) [OF assms(1)] assms(2)]
    by (simp add: Accumulate_def membersOf_length)
qed

lemma member_product_remove:
  assumes "i < length ms"
  shows "member_product t ms = (t + ms ! i) * member_product t (take i ms @ drop (i + 1) ms)"
proof -
  have "member_product t ms = member_product t (take i ms @ ms ! i # drop (i + 1) ms)"
    using assms by (simp add: Cons_nth_drop_Suc)
  then show ?thesis by (simp add: algebra_simps)
qed

text \<open>The pairing equation of \<open>VerifyMembership\<close> in the exponent.\<close>

lemma VerifyMembership_exp:
  assumes "group_laws E" and "pairing_law E" and "srs_of E tau p"
    and "v = cMul (BN E) (cGen (BN E)) a" and "w = cMul (BN E) (cGen (BN E)) b"
  shows "VerifyMembership E p v w (Some m) \<longleftrightarrow>
     0 < m \<and> m < cOrder (BN E) \<and> a mod cOrder (BN E) \<noteq> 0 \<and> b mod cOrder (BN E) \<noteq> 0 \<and>
     (m + tau) mod cOrder (BN E) \<noteq> 0 \<and> a mod cOrder (BN E) = (b * (m + tau)) mod cOrder (BN E)"
proof -
  note laws = group_lawsD [OF assms(1)]
  let ?g = "cGen (BN E)" and ?h = "cGen (BN2 E)"
  have h: "parH p = ?h" "parHTau p = cMul (BN2 E) ?h tau"
    using assms(3) by (simp_all add: srs_of_def)
  have hat: "cAdd (BN2 E) (cMul (BN2 E) ?h m) (cMul (BN2 E) ?h tau) = cMul (BN2 E) ?h (m + tau)"
    by (simp add: curve_exp laws)
  have "PairingCheck E [cMul (BN E) ?g b, cMul (BN E) ?g (- a)]
          [cMul (BN2 E) ?h (m + tau), cMul (BN2 E) ?h 1]
        = Inr ((b * (m + tau) + (- a) * 1) mod cOrder (BN E) = 0)"
    using assms(2) unfolding pairing_law_def by blast
  then have pc: "PairingCheck E [w, cNeg (BN E) v] [cMul (BN2 E) ?h (m + tau), ?h]
        = Inr ((b * (m + tau) - a) mod cOrder (BN E) = 0)"
    by (simp add: assms(4,5) curve_exp(4) gen_exp laws)
  have ok: "ValidateParams E p = Inr ()" by (rule srs_of_validates [OF assms(1-3)])
  have eq: "(b * (m + tau) - a) mod cOrder (BN E) = 0 \<longleftrightarrow>
            a mod cOrder (BN E) = (b * (m + tau)) mod cOrder (BN E)"
    by (metis mod_eq_0_iff_dvd mod_eq_dvd_iff)
  show ?thesis
    unfolding VerifyMembership_def h option.sel hat ok Let_def pc eq [symmetric] good_iffs
    by (auto simp: assms(4,5) laws cMul_gen_inf_iff)
qed

lemma MembershipWitness_exp:
  assumes "group_laws E" and "srs_of E tau p" and "membersOf E as = Inr ms"
    and "MembershipWitness E p as idx = Inr w"
  shows "0 \<le> idx \<and> idx < int (length as) \<and>
     w = cMul (BN E) (cGen (BN E)) (member_product tau (take (nat idx) ms @ drop (nat idx + 1) ms)) \<and>
     member_product tau (take (nat idx) ms @ drop (nat idx + 1) ms) mod cOrder (BN E) \<noteq> 0"
  using assms(3,4)
  by (auto simp: MembershipWitness_def combinePowers_exp [OF group_lawsD(1) [OF assms(1)] assms(2)])

lemma witness_verifies:
  assumes "group_laws E" and "pairing_law E"
    and "Accumulate E p as = Inr v" and "MembershipWitness E p as idx = Inr w"
    and "Member E (as ! nat idx) = Inr m"
  shows "VerifyMembership E p v w (Some m)"
proof -
  from assms(3) have val: "ValidateParams E p = Inr ()" by (simp add: Accumulate_def)
  obtain tau where srs: "srs_of E tau p" by (rule validated_srs [OF assms(1,2) val])
  from assms(4) obtain ms where ms: "membersOf E as = Inr ms"
    by (auto simp: MembershipWitness_def)
  let ?rest = "take (nat idx) ms @ drop (nat idx + 1) ms" and ?q = "cOrder (BN E)"
  have w: "0 \<le> idx" "idx < int (length as)"
    "w = cMul (BN E) (cGen (BN E)) (member_product tau ?rest)" "member_product tau ?rest mod ?q \<noteq> 0"
    using MembershipWitness_exp [OF assms(1) srs ms assms(4)] by simp_all
  have v: "v = cMul (BN E) (cGen (BN E)) (member_product tau ms)" "member_product tau ms mod ?q \<noteq> 0"
    using assms(3) Accumulate_exp [OF assms(1) srs val ms] by simp_all
  have i: "nat idx < length ms" using w membersOf_length [OF ms] by simp
  then have m: "ms ! nat idx = m"
    using membersOf_nth [OF ms, of "nat idx"] assms(5) membersOf_length [OF ms] by simp
  have split: "member_product tau ms = (tau + m) * member_product tau ?rest"
    using member_product_remove [OF i, of tau] m by simp
  then have "(m + tau) mod ?q \<noteq> 0"
    using v(2) by (metis add.commute mod_mult_left_eq mult_zero_left mod_0)
  then show ?thesis
    using v(2) w(4) Member_range [OF assms(5)] split
    by (simp add: VerifyMembership_exp [OF assms(1,2) srs v(1) w(3)] algebra_simps)
qed

section \<open>Order independence\<close>

lemma list_all2_fun_mset:
  assumes "list_all2 (\<lambda>a m. f a = Inr m) as ms" and "mset as' = mset as"
  obtains ms' where "list_all2 (\<lambda>a m. f a = Inr m) as' ms'" and "mset ms' = mset ms"
proof -
  let ?g = "\<lambda>a. projr (f a)"
  have ms: "ms = map ?g as" and ok: "\<forall>a \<in> set as. f a = Inr (?g a)"
    using assms(1) by (induction rule: list_all2_induct) auto
  have "set as' = set as" using assms(2) by (metis set_mset_mset)
  with ok have "list_all2 (\<lambda>a m. f a = Inr m) as' (map ?g as')"
    by (simp add: list_all2_map2 list_all2_same)
  moreover have "mset (map ?g as') = mset ms" using assms(2) ms by simp
  ultimately show thesis by (rule that)
qed

lemma member_product_mset: "mset ms' = mset ms \<Longrightarrow> member_product t ms' = member_product t ms"
  by (simp add: member_product_def flip: prod_mset_prod_list)

lemma Accumulate_perm:
  assumes "group_laws E" and "pairing_law E" and "mset as' = mset as"
    and "Accumulate E p as = Inr v"
  shows "Accumulate E p as' = Inr v"
proof (cases "as = []")
  case True
  with assms(3,4) show ?thesis by simp
next
  case False
  then obtain ms where ms: "membersOf E as = Inr ms" using assms(4) by (auto simp: Accumulate_def)
  have val: "ValidateParams E p = Inr ()" using assms(4) by (simp add: Accumulate_def)
  obtain tau where srs: "srs_of E tau p" by (rule validated_srs [OF assms(1,2) val])
  have ms2: "list_all2 (\<lambda>a m. Member E a = Inr m) as ms" using ms by (simp add: membersOf_iff)
  obtain ms' where ms': "list_all2 (\<lambda>a m. Member E a = Inr m) as' ms'" "mset ms' = mset ms"
    by (rule list_all2_fun_mset [OF ms2 assms(3)])
  have len: "length as' = length as" using assms(3) by (metis size_mset)
  have "distinct ms'" using ms mset_eq_imp_distinct_iff [OF ms'(2)] by (simp add: membersOf_iff)
  then have "membersOf E as' = Inr ms'" using ms ms' len by (simp add: membersOf_iff)
  then show ?thesis
    using assms(4) Accumulate_exp [OF assms(1) srs val] ms member_product_mset [OF ms'(2)] len
    by simp
qed

section \<open>Snapshots are recomputed values\<close>

definition valid_snapshot :: "env \<Rightarrow> Snapshot \<Rightarrow> bool" where
  "valid_snapshot E s \<longleftrightarrow> Accumulate E (snParams s) (snAccounts s) = Inr (snValue s)"

lemma NewSnapshot_iff:
  "NewSnapshot E p as = Inr s \<longleftrightarrow> snParams s = p \<and> snAccounts s = as \<and> valid_snapshot E s"
  by (auto simp: NewSnapshot_def valid_snapshot_def)

lemma Join_iff:
  "Join E s a = Inr s' \<longleftrightarrow>
     snParams s' = snParams s \<and> snAccounts s' = snAccounts s @ [a] \<and> valid_snapshot E s'"
  by (simp add: Join_def NewSnapshot_iff)

lemma exitLoop_iff:
  "exitLoop E m as found keep = Inr r \<longleftrightarrow>
     (\<forall>a \<in> set as. isOk (Member E a)) \<and>
     r = (found \<or> (\<exists>a \<in> set as. Member E a = Inr m), keep @ filter (\<lambda>a. Member E a \<noteq> Inr m) as)"
proof (induction as arbitrary: found keep)
  case Nil
  then show ?case by auto
next
  case (Cons a as)
  show ?case
  proof (cases "Member E a")
    case (Inl e)
    then show ?thesis by simp
  next
    case (Inr n)
    with Cons show ?thesis by auto
  qed
qed

lemma Exit_iff:
  "Exit E s (Some m) = Inr s' \<longleftrightarrow>
     0 < m \<and> m < cOrder (BN E) \<and> (\<forall>a \<in> set (snAccounts s). isOk (Member E a)) \<and>
     (\<exists>a \<in> set (snAccounts s). Member E a = Inr m) \<and> snParams s' = snParams s \<and>
     snAccounts s' = filter (\<lambda>a. Member E a \<noteq> Inr m) (snAccounts s) \<and> valid_snapshot E s'"
  by (auto simp: Exit_def exitLoop_iff NewSnapshot_iff)

lemma valid_snapshot_members:
  assumes "valid_snapshot E s" and "snAccounts s \<noteq> []"
  obtains ms where "membersOf E (snAccounts s) = Inr ms"
  using assms by (auto simp: valid_snapshot_def Accumulate_def)

lemma membersOf_isOk: "membersOf E as = Inr ms \<Longrightarrow> a \<in> set as \<Longrightarrow> isOk (Member E a)"
  by (auto simp: membersOf_iff isOk_iff in_set_conv_nth dest: list_all2_nthD)

lemma membersOf_snoc_fresh:
  assumes "membersOf E (as @ [a]) = Inr ms" and "Member E a = Inr m" and "b \<in> set as"
  shows "Member E b \<noteq> Inr m"
proof
  assume "Member E b = Inr m"
  from assms(1) have ms: "list_all2 (\<lambda>a m. Member E a = Inr m) (as @ [a]) ms" "distinct ms"
    by (simp_all add: membersOf_iff)
  from assms(3) obtain i where i: "i < length as" "as ! i = b" by (auto simp: in_set_conv_nth)
  have len: "length ms = Suc (length as)" using list_all2_lengthD [OF ms(1)] by simp
  have "ms ! i = m"
    using list_all2_nthD [OF ms(1), of i] i \<open>Member E b = Inr m\<close> by (simp add: nth_append)
  moreover have "ms ! length as = m"
    using list_all2_nthD [OF ms(1), of "length as"] assms(2) by simp
  ultimately show False
    using nth_eq_iff_index_eq [OF ms(2), of i "length as"] i len by simp
qed

lemma Join_Exit:
  assumes "valid_snapshot E s" and "Join E s a = Inr s'" and "Member E a = Inr m"
  shows "Exit E s' (Some m) = Inr s"
proof -
  have s': "snParams s' = snParams s" "snAccounts s' = snAccounts s @ [a]" "valid_snapshot E s'"
    using assms(2) by (simp_all add: Join_iff)
  then obtain ms where ms: "membersOf E (snAccounts s @ [a]) = Inr ms"
    using valid_snapshot_members [of E s'] by auto
  have "filter (\<lambda>b. Member E b \<noteq> Inr m) (snAccounts s @ [a]) = snAccounts s"
    using membersOf_snoc_fresh [OF ms assms(3)] assms(3) by (simp add: filter_id_conv)
  then show ?thesis
    using s' assms(1,3) membersOf_isOk [OF ms] Member_range [OF assms(3)]
    by (auto simp: Exit_iff)
qed

end
