(* ===== verification/Sample.thy ===== *)
theory Sample
  imports Curve
begin

text \<open>
  A concrete instance of the third-party parameters, on which the hypotheses of the
  development's theorems are discharged.  Each group is the additive group of integers
  modulo a prime (the point with exponent \<open>n\<close> has every coordinate \<open>n\<close>), the pairing
  multiplies exponents, and the digest is a 32-byte checksum.  The laws of \<open>Curve\<close> are
  proved for it here.
\<close>

section \<open>Groups\<close>

definition sample_ops :: "(nat \<Rightarrow> 'p) \<Rightarrow> ('p \<Rightarrow> nat) \<Rightarrow> int \<Rightarrow> 'p curve" where
  "sample_ops mk rd q =
     \<lparr>cMul = (\<lambda>p k. mk (nat ((int (rd p) * k) mod q))),
      cAdd = (\<lambda>a b. mk (nat ((int (rd a) + int (rd b)) mod q))),
      cSub = (\<lambda>a b. mk (nat ((int (rd a) - int (rd b)) mod q))),
      cNeg = (\<lambda>a. mk (nat ((- int (rd a)) mod q))),
      cInf = mk 0, cGen = mk 1,
      cOnCurve = (\<lambda>p. p = mk (rd p) \<and> int (rd p) < q), cInSub = (\<lambda>p. True),
      cOrder = q\<rparr>"

lemma nat_mod_eq_iff: "1 < q \<Longrightarrow> nat (j mod q) = nat (k mod q) \<longleftrightarrow> j mod q = k mod (q :: int)"
  by (simp add: eq_nat_nat_iff)

lemma sample_ops_laws:
  fixes mk :: "nat \<Rightarrow> 'p"
  assumes q: "prime_modulus q" and rd: "\<And>n. rd (mk n) = n"
  shows "curve_laws (sample_ops mk rd q)"
proof -
  let ?C = "sample_ops mk rd q"
  have q1: "1 < q" using q by (simp add: prime_modulus_def)
  have mul: "cMul ?C (cGen ?C) k = mk (nat (k mod q))" for k
    by (simp add: sample_ops_def rd)
  have inj: "mk m = mk n \<longleftrightarrow> m = n" for m n using rd by metis
  have int_nat: "int (nat (k mod q)) = k mod q" for k using q1 by simp
  have "in_group ?C p \<longleftrightarrow> (\<exists>k. p = cMul ?C (cGen ?C) k)" for p
  proof
    assume "in_group ?C p"
    then have "p = mk (rd p)" "int (rd p) < q" by (simp_all add: in_group_def sample_ops_def)
    then have "p = mk (nat (int (rd p) mod q))" by simp
    then show "\<exists>k. p = cMul ?C (cGen ?C) k" unfolding mul by blast
  next
    assume "\<exists>k. p = cMul ?C (cGen ?C) k"
    then show "in_group ?C p"
      using q1 by (auto simp: mul in_group_def) (simp_all add: sample_ops_def rd)
  qed
  then show ?thesis
    unfolding curve_laws_def mul inj
    using q q1 by (simp add: nat_mod_eq_iff)
      (simp add: sample_ops_def rd mod_simps inj nat_mod_eq_iff)
qed

lemma sample_in_group:
  "in_group (sample_ops mk rd q) p \<longleftrightarrow> p = mk (rd p) \<and> int (rd p) < q"
  by (simp add: in_group_def sample_ops_def)

section \<open>The instance\<close>

definition pt :: "nat \<Rightarrow> affine" where "pt n = \<lparr>pX = n, pY = n\<rparr>"

definition pt2 :: "nat \<Rightarrow> affine2" where "pt2 n = \<lparr>pXA0 = n, pXA1 = n, pYA0 = n, pYA1 = n\<rparr>"

definition checksum :: "bytes \<Rightarrow> nat" where
  "checksum b = (7 + sum_list (map unat b)) mod 251"

definition sample_env :: env where
  "sample_env =
     \<lparr>BN = sample_ops pt pX 101, BN2 = sample_ops pt2 pXA0 101, SECP = sample_ops pt pX 103,
      bnFp = 211, secpFp = 211,
      bnHash = (\<lambda>m dst. Inr (pt (1 + checksum m mod 100))),
      secpHash = (\<lambda>m dst. Inr (pt (1 + checksum m mod 102))),
      PairingCheck = (\<lambda>ps qs. Inr (sum_list (map (\<lambda>(p, q). int (pX p) * int (pXA0 q)) (zip ps qs)) mod 101 = 0)),
      Sum256 = (\<lambda>b. replicate 31 0 @ [of_nat (checksum b)])\<rparr>"

lemma sample_sel [simp]:
  "BN sample_env = sample_ops pt pX 101"
  "BN2 sample_env = sample_ops pt2 pXA0 101"
  "SECP sample_env = sample_ops pt pX 103"
  "bnFp sample_env = 211"
  "secpFp sample_env = 211"
  by (simp_all add: sample_env_def)

lemma pt_sel [simp]:
  "pX (pt n) = n" "pY (pt n) = n" "pXA0 (pt2 n) = n"
  "pt m = pt n \<longleftrightarrow> m = n" "pt2 m = pt2 n \<longleftrightarrow> m = n"
  by (simp_all add: pt_def pt2_def)

lemma sample_ops_sel [eval_simps]:
  "cMul (sample_ops mk rd q) p k = mk (nat ((int (rd p) * k) mod q))"
  "cAdd (sample_ops mk rd q) a b = mk (nat ((int (rd a) + int (rd b)) mod q))"
  "cSub (sample_ops mk rd q) a b = mk (nat ((int (rd a) - int (rd b)) mod q))"
  "cNeg (sample_ops mk rd q) a = mk (nat ((- int (rd a)) mod q))"
  "cInf (sample_ops mk rd q) = mk 0"
  "cGen (sample_ops mk rd q) = mk 1"
  "cOnCurve (sample_ops mk rd q) p = (p = mk (rd p) \<and> int (rd p) < q)"
  "cInSub (sample_ops mk rd q) p = True"
  "cOrder (sample_ops mk rd q) = q"
  by (simp_all add: sample_ops_def)

lemma sample_fun_sel [eval_simps]:
  "bnHash sample_env m dst = Inr (pt (1 + checksum m mod 100))"
  "secpHash sample_env m dst = Inr (pt (1 + checksum m mod 102))"
  "PairingCheck sample_env ps qs =
     Inr (sum_list (map (\<lambda>(p, q). int (pX p) * int (pXA0 q)) (zip ps qs)) mod 101 = 0)"
  "Sum256 sample_env b = replicate 31 0 @ [of_nat (checksum b)]"
  by (simp_all add: sample_env_def)

declare checksum_def [eval_simps]

lemma prime_modulus_check:
  assumes "1 < n" and "list_all (\<lambda>a. gcd a n = 1) [1..<n]"
  shows "prime_modulus (int n)"
proof -
  have "coprime a (int n)" if "0 < a" "a < int n" for a
  proof -
    have "nat a \<in> set [1..<n]" using that by auto
    with assms(2) have "gcd (nat a) n = 1" unfolding list_all_iff by blast
    then have "coprime (nat a) n" by (simp add: coprime_iff_gcd_eq_1)
    then have "coprime (int (nat a)) (int n)" by (simp only: coprime_int_iff)
    with that show ?thesis by simp
  qed
  with assms(1) show ?thesis by (simp add: prime_modulus_def)
qed

lemma prime_101: "prime_modulus 101"
proof -
  have "list_all (\<lambda>a. gcd a 101 = 1) [1..<101 :: nat]" by code_simp
  from prime_modulus_check [OF _ this] show ?thesis by simp
qed

lemma prime_103: "prime_modulus 103"
proof -
  have "list_all (\<lambda>a. gcd a 103 = 1) [1..<103 :: nat]" by code_simp
  from prime_modulus_check [OF _ this] show ?thesis by simp
qed

lemma sample_group_laws: "group_laws sample_env"
  by (simp add: group_laws_def sample_ops_laws prime_101 prime_103) (simp add: sample_ops_def)

lemma sample_pairing_law: "pairing_law sample_env"
proof -
  have "cOrder (sample_ops pt pX 101) = 101" by (simp add: sample_ops_def)
  moreover have "cMul (sample_ops pt pX 101) (cGen (sample_ops pt pX 101)) k = pt (nat (k mod 101))"
    "cMul (sample_ops pt2 pXA0 101) (cGen (sample_ops pt2 pXA0 101)) k = pt2 (nat (k mod 101))" for k
    by (simp_all add: sample_ops_def)
  moreover have "(a mod 101 * (c mod 101) + b mod 101 * (d mod 101)) mod 101 = (a * c + b * d) mod 101"
    for a b c d :: int
    by (metis mod_add_eq mod_mult_eq)
  ultimately show ?thesis
    by (simp add: pairing_law_def sample_env_def)
qed

lemma sample_digest_law: "digest_law sample_env"
  by (simp add: digest_law_def sample_env_def)

lemma sample_coord_laws: "coord_laws sample_env"
proof -
  have "pX p < 211 \<and> pY p < 211" if "p = pt (pX p)" "int (pX p) < 103" for p
  proof -
    have "pY p = pX p" using that(1) by (metis pt_sel(2))
    with that(2) show ?thesis by simp
  qed
  then show ?thesis
    by (auto simp: coord_laws_def sample_in_group)
      (simp_all add: sample_ops_def pt_def pt2_def)
qed

lemmas sample_laws = sample_group_laws sample_pairing_law sample_digest_law sample_coord_laws

end
