(* ===== verification/RingProps.thy ===== *)
theory RingProps
  imports Profile Sample
begin

text \<open>
  The promises of \<open>profile.go\<close> as properties, and the sample ring on which their
  hypotheses are discharged: parameters of capacity three with trapdoor 5, and three
  accounts, the first two of one user.
\<close>

section \<open>A sample ring\<close>

lemmas [eval_simps] =
  MemberDomain_def ChallengeDomain_def RingDomain_def NymDST_def IssueDST_def
  goodBN_def goodBN2_def goodSecp_def HashScalar_def EncodeSecpPoint_def EncodeBNPoint_def
  validateAccount_def NewAccount_def Member_def membersOf_def validatePower_def ValidateParams_def
  memberPolynomial_def combinePowers_def Accumulate_def MembershipWitness_def
  encodeRing_def RingDigest_def challengeInput_def Challenge_def Seeds_def Bases_def IssueBase_def
  statementTags_def randomNonzero_def Setup_def

lemma setupPowers_numeral [eval_simps]:
  "setupPowers E tau pw (numeral k) =
     cMul (BN E) (cGen (BN E)) pw # setupPowers E tau ((pw * tau) mod cOrder (BN E)) (pred_numeral k)"
  by (simp only: numeral_eq_Suc [of k] setupPowers.simps)

definition sample_params :: Params where
  "sample_params = \<lparr>parG = pt 1, parH = pt2 1, parHTau = pt2 5, parPowers = [pt 1, pt 5, pt 25, pt 24]\<rparr>"

definition sample_account :: "int \<Rightarrow> int \<Rightarrow> Account" where
  "sample_account x d =
     \<lparr>accU = pt (nat (d mod 103)), accY = pt (nat (d * x mod 103)), accD = Some d\<rparr>"

definition sample_ring :: "Account list" where
  "sample_ring = [sample_account 5 7, sample_account 5 9, sample_account 6 11]"

declare sample_account_def [eval_simps]

lemma sample_rand: "rand_law (\<lambda>u. if 4 < u then Inr 4 else Inl ''empty range'')"
  by (auto simp: rand_law_def)

lemma sample_setup:
  "Setup sample_env 3 (\<lambda>u. if 4 < u then Inr 4 else Inl ''empty range'') = Inr sample_params"
  by (simp add: eval_simps sample_params_def cong: andThen_weak_cong)

lemma sample_params_valid: "ValidateParams sample_env sample_params = Inr ()"
  by (simp add: eval_simps sample_params_def upt_conv_Cons cong: andThen_weak_cong)

lemma sample_new_account:
  "NewAccount sample_env (Some 5) (Some 7) = Inr (sample_account 5 7)"
  "NewAccount sample_env (Some 5) (Some 9) = Inr (sample_account 5 9)"
  "NewAccount sample_env (Some 6) (Some 11) = Inr (sample_account 6 11)"
  by (simp_all add: eval_simps cong: andThen_weak_cong)

lemma sample_member:
  "Member sample_env (sample_account 5 7) = Inr 38"
  "Member sample_env (sample_account 5 9) = Inr 62"
  "Member sample_env (sample_account 6 11) = Inr 7"
  by (simp_all add: eval_simps cong: andThen_weak_cong)

lemma sample_members:
  "membersOf sample_env sample_ring = Inr [38, 62, 7]"
  "membersOf sample_env [sample_account 5 7, sample_account 5 9] = Inr [38, 62]"
  "membersOf sample_env [sample_account 5 9, sample_account 5 7] = Inr [62, 38]"
  "membersOf sample_env [sample_account 6 11, sample_account 5 7, sample_account 5 9] = Inr [7, 38, 62]"
  by (simp_all add: membersOf_def sample_ring_def sample_member cong: andThen_weak_cong)

lemma sample_combine:
  "combinePowers sample_env sample_params [38, 62, 7] = Inr (pt 30)"
  "combinePowers sample_env sample_params [38, 62] = Inr (pt 53)"
  "combinePowers sample_env sample_params [38, 7] = Inr (pt 11)"
  by (simp_all add: eval_simps sample_params_def cong: andThen_weak_cong)

lemma sample_accumulate:
  "Accumulate sample_env sample_params sample_ring = Inr (pt 30)"
  "Accumulate sample_env sample_params [sample_account 5 7, sample_account 5 9] = Inr (pt 53)"
  by (simp_all add: Accumulate_def sample_params_valid sample_members sample_combine)
    (simp add: sample_ring_def)

lemma sample_witness: "MembershipWitness sample_env sample_params sample_ring 1 = Inr (pt 11)"
  by (simp add: MembershipWitness_def sample_params_valid sample_members sample_combine)
    (simp add: sample_ring_def sample_params_def)

definition sample_snapshot :: Snapshot where
  "sample_snapshot =
     \<lparr>snParams = sample_params, snAccounts = [sample_account 5 7, sample_account 5 9], snValue = pt 53\<rparr>"

definition sample_snapshot3 :: Snapshot where
  "sample_snapshot3 = \<lparr>snParams = sample_params, snAccounts = sample_ring, snValue = pt 30\<rparr>"

lemma sample_snapshot_valid:
  "valid_snapshot sample_env sample_snapshot" "valid_snapshot sample_env sample_snapshot3"
  by (simp_all add: valid_snapshot_def sample_snapshot_def sample_snapshot3_def sample_accumulate)

lemma sample_join: "Join sample_env sample_snapshot (sample_account 6 11) = Inr sample_snapshot3"
  using sample_snapshot_valid(2)
  by (simp add: Join_iff) (simp add: sample_snapshot_def sample_snapshot3_def sample_ring_def)

section \<open>Parameters\<close>

text \<open>
  C16: parameters produced by \<open>Setup\<close> are always accepted by \<open>ValidateParams\<close> and have
  exactly \<open>capacity + 1\<close> powers.
\<close>

theorem Setup_validates:
  assumes "group_laws E" and "pairing_law E" and "rand_law rnd" and "Setup E capacity rnd = Inr p"
  shows "ValidateParams E p = Inr () \<and> length (parPowers p) = nat (capacity + 1)"
  using Setup_srs [OF assms(1,3,4)] srs_of_validates [OF assms(1,2)] by metis

theorem Setup_validates_witness:
  "ValidateParams sample_env sample_params = Inr () \<and> length (parPowers sample_params) = 4"
  using Setup_validates [OF sample_group_laws sample_pairing_law sample_rand sample_setup] by simp

text \<open>
  C9: \<open>ValidateParams\<close> accepts exactly the structured reference strings: the generators are
  the standard ones and the points are the consecutive powers \<open>g^(tau^i)\<close> of one nonzero
  trapdoor \<open>tau\<close>, which also underlies \<open>h^tau\<close>.  The chain of pairing checks is therefore
  sound and complete.
\<close>

theorem ValidateParams_iff_srs:
  assumes "group_laws E" and "pairing_law E"
  shows "ValidateParams E p = Inr () \<longleftrightarrow> (\<exists>tau. srs_of E tau p)"
  using validated_srs [OF assms] srs_of_validates [OF assms] by blast

theorem ValidateParams_iff_srs_witness:
  "\<exists>tau. srs_of sample_env tau sample_params"
  using ValidateParams_iff_srs [OF sample_group_laws sample_pairing_law] sample_params_valid by blast

section \<open>The accumulator\<close>

text \<open>
  C10: for a ring whose accounts have the distinct member handles \<open>ms\<close>, \<open>Accumulate\<close>
  returns \<open>g^((tau + m1) ... (tau + mn))\<close>: the coefficient loops of \<open>memberPolynomial\<close> and
  the multi-exponentiation of \<open>combinePowers\<close> evaluate the product polynomial at the
  trapdoor.  It fails exactly when the ring exceeds the capacity or that product vanishes.
\<close>

theorem Accumulate_product:
  assumes "group_laws E" and "pairing_law E" and "srs_of E tau p" and "membersOf E accounts = Inr ms"
  shows "Accumulate E p accounts = Inr v \<longleftrightarrow>
     length accounts < length (parPowers p) \<and>
     prod_list (map (\<lambda>m. tau + m) ms) mod cOrder (BN E) \<noteq> 0 \<and>
     v = cMul (BN E) (cGen (BN E)) (prod_list (map (\<lambda>m. tau + m) ms))"
  using Accumulate_exp [OF assms(1,3) srs_of_validates [OF assms(1-3)] assms(4)]
  by (simp add: member_product_def)

lemma sample_srs: "srs_of sample_env 5 sample_params"
  by (simp add: srs_of_def sample_params_def eval_simps All_less_Suc2 nth_Cons')

theorem Accumulate_product_witness:
  "Accumulate sample_env sample_params sample_ring = Inr (pt 30)
   \<longleftrightarrow> length sample_ring < length (parPowers sample_params) \<and>
       prod_list (map (\<lambda>m. 5 + m) [38, 62, 7]) mod (101 :: int) \<noteq> 0 \<and>
       pt 30 = pt (nat (prod_list (map (\<lambda>m. 5 + m) [38, 62, 7]) mod 101))"
  using Accumulate_product [OF sample_group_laws sample_pairing_law sample_srs sample_members(1), of "pt 30"]
  by (simp add: eval_simps)

text \<open>
  C5: every membership witness the code computes verifies.  Whenever \<open>Accumulate\<close> returns
  \<open>v\<close> and \<open>MembershipWitness\<close> returns \<open>w\<close> for position \<open>idx\<close> of the same ring, the pairing
  check of \<open>VerifyMembership\<close> accepts \<open>(v, w)\<close> for the member handle of that account.
\<close>

theorem MembershipWitness_verifies:
  assumes "group_laws E" and "pairing_law E"
    and "Accumulate E p accounts = Inr v" and "MembershipWitness E p accounts idx = Inr w"
    and "Member E (accounts ! nat idx) = Inr m"
  shows "VerifyMembership E p v w (Some m)"
  using assms by (rule witness_verifies)

theorem MembershipWitness_verifies_witness:
  "VerifyMembership sample_env sample_params (pt 30) (pt 11) (Some 62)"
proof (rule MembershipWitness_verifies [OF sample_group_laws sample_pairing_law
        sample_accumulate(1) sample_witness])
  show "Member sample_env (sample_ring ! nat 1) = Inr 62"
    by (simp add: sample_ring_def sample_member)
qed

text \<open>
  C17: the accumulator value does not depend on the order of the ring.
\<close>

theorem Accumulate_order_independent:
  assumes "group_laws E" and "pairing_law E" and "mset accounts' = mset accounts"
    and "Accumulate E p accounts = Inr v"
  shows "Accumulate E p accounts' = Inr v"
  using assms by (rule Accumulate_perm)

theorem Accumulate_order_independent_witness:
  "Accumulate sample_env sample_params [sample_account 6 11, sample_account 5 7, sample_account 5 9]
     = Inr (pt 30)"
  by (rule Accumulate_order_independent [OF sample_group_laws sample_pairing_law _ sample_accumulate(1)])
    (simp add: sample_ring_def)

section \<open>Snapshots\<close>

text \<open>
  C18: leaving the ring undoes joining it.  If \<open>Join\<close> adds an account to a valid snapshot,
  \<open>Exit\<close> with that account's handle gives back the original snapshot, value included.
\<close>

theorem Exit_undoes_Join:
  assumes "valid_snapshot E s" and "Join E s a = Inr s'" and "Member E a = Inr m"
  shows "Exit E s' (Some m) = Inr s"
  using assms by (rule Join_Exit)

theorem Exit_undoes_Join_witness:
  "Exit sample_env sample_snapshot3 (Some 7) = Inr sample_snapshot"
  using Exit_undoes_Join [OF sample_snapshot_valid(1) sample_join sample_member(3)] .

end
