(* ===== verification/Circuit.thy ===== *)
theory Circuit
  imports Profile
begin

text \<open>
  \<open>src/nativeproof/circuit.go\<close> and \<open>witness.go\<close>: the proved relation.  An assignment is the
  record \<open>Circuit\<close> of concrete values and \<open>Define\<close> is the predicate that every constraint
  the Go method emits is satisfied.  The gadgets of gnark compute on values what their
  documentation says: emulated fields are integers modulo the field order, emulated curve
  arithmetic is the group arithmetic of \<open>env\<close>, the \<open>sha2\<close> gadget is \<open>Sum256\<close>, \<open>ToBinary\<close>
  constrains its argument to the given number of bits.  The bit- and byte-level helpers of
  the file are written out and proved equal to the host encodings; the main lemma is that
  every statement of \<open>MakeStatement\<close> satisfies the circuit.
\<close>

section \<open>Bits\<close>

fun toBits :: "nat \<Rightarrow> nat \<Rightarrow> bool list" where
  "toBits 0 v = []"
| "toBits (Suc k) v = odd v # toBits k (v div 2)"

fun fromBits :: "bool list \<Rightarrow> nat" where
  "fromBits [] = 0"
| "fromBits (b # bs) = of_bool b + 2 * fromBits bs"

text \<open>The loop runs from the last byte to the first.\<close>

fun bytesBits :: "bytes \<Rightarrow> bool list" where
  "bytesBits [] = []"
| "bytesBits (b # bs) = bytesBits bs @ toBits 8 (unat b)"

text \<open>Eight bits per byte, from the least significant end; the output is filled backwards.\<close>

fun packBits :: "nat \<Rightarrow> bool list \<Rightarrow> bytes" where
  "packBits 0 bs = []"
| "packBits (Suc w) bs = packBits w (drop 8 bs) @ [of_nat (fromBits (take 8 bs))]"

definition integerBytes :: "bool list \<Rightarrow> nat \<Rightarrow> bytes" where
  "integerBytes bs width = packBits width (bs @ replicate (8 * width - length bs) False)"

text \<open>
  The canonical bits of a value the caller constrains to be reduced (\<open>AssertIsInRange\<close>):
  \<open>inField\<close> is that constraint on both coordinates of a point.
\<close>

definition fieldBytes :: "nat \<Rightarrow> nat \<Rightarrow> bytes" where
  "fieldBytes nbits v = integerBytes (toBits nbits v) 32"

definition inField :: "nat \<Rightarrow> affine \<Rightarrow> bool" where
  "inField modulus p \<longleftrightarrow> pX p < modulus \<and> pY p < modulus"

fun nativeValueLoop :: "int \<Rightarrow> int \<Rightarrow> bytes \<Rightarrow> int" where
  "nativeValueLoop r out [] = out"
| "nativeValueLoop r out (b # bs) = nativeValueLoop r ((out * 256 + int (unat b)) mod r) bs"

definition nativeValue :: "int \<Rightarrow> bytes \<Rightarrow> int" where
  "nativeValue r data = nativeValueLoop r 0 data"

definition secpValue :: "int \<Rightarrow> bytes \<Rightarrow> int" where
  "secpValue q data = int (fromBits (bytesBits data)) mod q"

definition secpEncoding :: "affine \<Rightarrow> bytes" where
  "secpEncoding p = fieldBytes 256 (pX p) @ fieldBytes 256 (pY p)"

definition nonzeroPoint :: "affine \<Rightarrow> bool" where
  "nonzeroPoint p \<longleftrightarrow> \<not> (pX p = 0 \<and> pY p = 0)"

definition nonzeroPoint2 :: "affine2 \<Rightarrow> bool" where
  "nonzeroPoint2 p \<longleftrightarrow> \<not> (pXA0 p = 0 \<and> pXA1 p = 0 \<and> pYA0 p = 0 \<and> pYA1 p = 0)"

section \<open>The circuit\<close>

record Circuit =
  cV :: affine
  cNym :: affine
  cH :: affine2
  cHTau :: affine2
  cUt :: affine
  cSPoint :: affine
  cTPoint :: affine
  cIssue :: bytes
  cRingDigest :: bytes
  cMessageDigest :: bytes
  cTimestamp :: int
  cK :: int
  cR :: int
  cX :: int
  cD :: int
  cAccountU :: affine
  cAccountY :: affine
  cW :: affine
  cCounter :: int

text \<open>The group of constraints on the types of the inputs: points, scalars and counters.\<close>

definition DefineInputs :: "env \<Rightarrow> Circuit \<Rightarrow> bool" where
  "DefineInputs E c \<longleftrightarrow>
     (\<forall>p \<in> set [cUt c, cSPoint c, cTPoint c, cAccountU c, cAccountY c].
        cOnCurve (SECP E) p \<and> nonzeroPoint p) \<and>
     (\<forall>p \<in> set [cV c, cW c, cNym c]. in_group (BN E) p \<and> nonzeroPoint p) \<and>
     (\<forall>p \<in> set [cH c, cHTau c]. in_group (BN2 E) p \<and> nonzeroPoint2 p) \<and>
     (\<forall>v \<in> set [cX c, cD c, cR c]. 0 \<le> v \<and> v < cOrder (SECP E) \<and> v \<noteq> 0) \<and>
     0 \<le> cCounter c \<and> cCounter c < 2 ^ 32 \<and> 0 \<le> cK c \<and> cK c < 2 ^ 32 \<and> cK c \<noteq> 0 \<and>
     (cK c - cCounter c - 1) mod cOrder (BN E) < 2 ^ 32"

text \<open>The seeds \<open>s\<close> and \<open>t\<close> and the pseudonym.\<close>

definition circuitSeed :: "env \<Rightarrow> Circuit \<Rightarrow> byte \<Rightarrow> int" where
  "circuitSeed E c tag =
     secpValue (cOrder (SECP E)) (Sum256 E ((fieldBytes 256 (nat (cX c)) @ cIssue c) @ [tag]))"

definition circuitNym :: "env \<Rightarrow> Circuit \<Rightarrow> affine list \<Rightarrow> affine" where
  "circuitNym E c g =
     (let r = cOrder (BN E);
          xbn = nativeValue r (fieldBytes 256 (nat (cX c)));
          sbn = nativeValue r (fieldBytes 256 (nat (circuitSeed E c 0)));
          tbn = nativeValue r (fieldBytes 256 (nat (circuitSeed E c 1)));
          nym = cAdd (BN E) (cMul (BN E) (g ! 0) sbn) (cMul (BN E) (g ! 1) tbn)
      in cAdd (BN E) nym (cMul (BN E) (g ! 2) xbn))"

definition DefineNym :: "env \<Rightarrow> Circuit \<Rightarrow> bool" where
  "DefineNym E c \<longleftrightarrow>
     circuitSeed E c 0 \<noteq> 0 \<and> circuitSeed E c 1 \<noteq> 0 \<and>
     (case mapR (\<lambda>label. bnHash E (str_bytes label) (str_bytes ''LKTRS-BN254-NYM-V1''))
             [''g0'', ''g1'', ''g2''] of
        Inl e \<Rightarrow> False
      | Inr g \<Rightarrow> circuitNym E c g = cNym c)"

text \<open>Account ownership, and membership of the account's handle through the pairing.\<close>

definition circuitMember :: "env \<Rightarrow> Circuit \<Rightarrow> int" where
  "circuitMember E c =
     nativeValue (cOrder (BN E))
       (Sum256 E ((str_bytes ''lktrs/member/v1'' @ secpEncoding (cAccountU c)) @ secpEncoding (cAccountY c)))"

definition DefineMember :: "env \<Rightarrow> Circuit \<Rightarrow> bool" where
  "DefineMember E c \<longleftrightarrow>
     cMul (SECP E) (cGen (SECP E)) (cD c) = cAccountU c \<and>
     cMul (SECP E) (cAccountU c) (cX c) = cAccountY c \<and>
     inField (secpFp E) (cAccountU c) \<and> inField (secpFp E) (cAccountY c) \<and>
     (let a = circuitMember E c;
          aWminusV = cAdd (BN E) (cMul (BN E) (cW c) a) (cNeg (BN E) (cV c))
      in a \<noteq> 0 \<and> PairingCheck E [aWminusV, cW c] [cH c, cHTau c] = Inr True)"

text \<open>The challenge of the transcript, and the serial and tag.\<close>

definition circuitTranscript :: "Circuit \<Rightarrow> bytes" where
  "circuitTranscript c =
     str_bytes ''lktrs/challenge/v1'' @ cIssue c @ cRingDigest c @ cMessageDigest c @
     fieldBytes 254 (pX (cNym c)) @ fieldBytes 254 (pY (cNym c)) @
     integerBytes (toBits 64 (nat (cTimestamp c))) 8 @ integerBytes (toBits 32 (nat (cK c))) 4"

definition DefineTags :: "env \<Rightarrow> Circuit \<Rightarrow> bool" where
  "DefineTags E c \<longleftrightarrow>
     inField (bnFp E) (cNym c) \<and> 0 \<le> cTimestamp c \<and> cTimestamp c < 2 ^ 64 \<and>
     (let q = cOrder (SECP E);
          r = secpValue q (Sum256 E (circuitTranscript c));
          denS = (circuitSeed E c 0 + cCounter c + 1) mod q;
          denT = (circuitSeed E c 1 + cCounter c + 1) mod q
      in r = cR c \<and> denS \<noteq> 0 \<and> denT \<noteq> 0 \<and>
         (case (ModInverse denS q, ModInverse denT q) of
            (Some is, Some it) \<Rightarrow>
              cMul (SECP E) (cUt c) is = cSPoint c \<and>
              cAdd (SECP E) (cMul (SECP E) (cGen (SECP E)) (cX c))
                (cMul (SECP E) (cUt c) ((r * it) mod q)) = cTPoint c
          | _ \<Rightarrow> False))"

definition Define :: "env \<Rightarrow> Circuit \<Rightarrow> bool" where
  "Define E c \<longleftrightarrow> DefineInputs E c \<and> DefineNym E c \<and> DefineMember E c \<and> DefineTags E c"

section \<open>Assignments\<close>

text \<open>
  \<open>emulated.ValueOf\<close> reduces modulo the emulated field and a native variable is reduced
  modulo the circuit field.  The unset private fields of a public assignment are nil in
  Go and zero here; \<open>publicOnly\<close> is the restriction \<open>frontend.PublicOnly\<close> makes.
\<close>

definition PublicAssignment :: "env \<Rightarrow> Params \<Rightarrow> Statement \<Rightarrow> Circuit result" where
  "PublicAssignment E p st =
     (case stR st of
        None \<Rightarrow> Inl ''missing challenge''
      | Some R \<Rightarrow>
          andThen (IssueBase E (stIssue st)) (\<lambda>ut.
          Inr \<lparr>cV = stV st, cNym = stNym st, cH = parH p, cHTau = parHTau p,
               cUt = ut, cSPoint = stS st, cTPoint = stT st,
               cIssue = stIssue st, cRingDigest = stRingDigest st, cMessageDigest = stMessageDigest st,
               cTimestamp = int (unat (stTimestamp st)) mod cOrder (BN E),
               cK = int (unat (stK st)) mod cOrder (BN E),
               cR = R mod cOrder (SECP E),
               cX = 0, cD = 0, cAccountU = \<lparr>pX = 0, pY = 0\<rparr>, cAccountY = \<lparr>pX = 0, pY = 0\<rparr>,
               cW = \<lparr>pX = 0, pY = 0\<rparr>, cCounter = 0\<rparr>))"

definition Assignment :: "env \<Rightarrow> Params \<Rightarrow> Statement \<Rightarrow> SecretWitness \<Rightarrow> Circuit result" where
  "Assignment E p st w =
     (case (wX w, wD w) of
        (Some x, Some d) \<Rightarrow>
          andThen (PublicAssignment E p st) (\<lambda>c.
          Inr (c\<lparr>cX := x mod cOrder (SECP E), cD := d mod cOrder (SECP E),
                 cAccountU := accU (wAccount w), cAccountY := accY (wAccount w),
                 cW := wW w, cCounter := int (unat (wCounter w)) mod cOrder (BN E)\<rparr>))
      | _ \<Rightarrow> Inl ''missing secret'')"

definition publicOnly :: "Circuit \<Rightarrow> Circuit" where
  "publicOnly c = c\<lparr>cX := 0, cD := 0, cAccountU := \<lparr>pX = 0, pY = 0\<rparr>,
     cAccountY := \<lparr>pX = 0, pY = 0\<rparr>, cW := \<lparr>pX = 0, pY = 0\<rparr>, cCounter := 0\<rparr>"

lemma publicOnly_Assignment:
  "Assignment E p st w = Inr c \<Longrightarrow> PublicAssignment E p st = Inr (publicOnly c)"
  by (auto simp: Assignment_def PublicAssignment_def publicOnly_def split: option.splits prod.splits)

section \<open>The helpers compute the host encodings\<close>

lemma length_toBits [simp]: "length (toBits k v) = k"
  by (induction k arbitrary: v) auto

lemma fromBits_append: "fromBits (as @ bs) = fromBits as + 2 ^ length as * fromBits bs"
  by (induction as) (auto simp: algebra_simps)

lemma fromBits_replicate_False [simp]: "fromBits (replicate n False) = 0"
  by (induction n) auto

lemma fromBits_toBits: "fromBits (toBits k v) = v mod 2 ^ k"
proof (induction k arbitrary: v)
  case 0
  then show ?case by simp
next
  case (Suc k)
  have "v mod 2 ^ Suc k = 2 * (v div 2 mod 2 ^ k) + v mod 2"
    using mod_mult2_eq [of v 2 "2 ^ k"] by simp
  then show ?case using Suc by (simp add: mod_2_eq_odd)
qed

lemma length_bytesBits [simp]: "length (bytesBits b) = 8 * length b"
  by (induction b) auto

lemma be_nat_Cons: "be_nat (b # bs) = unat b * 256 ^ length bs + be_nat bs"
proof (induction bs rule: rev_induct)
  case (snoc c cs)
  have "be_nat ((b # cs) @ [c]) = be_nat (b # cs) * 256 + unat c" by (rule be_nat_snoc)
  then show ?case using snoc by (simp add: algebra_simps)
qed (simp add: be_nat_def)

lemma fromBits_bytesBits: "fromBits (bytesBits b) = be_nat b"
  by (induction b) (simp_all add: fromBits_append fromBits_toBits be_nat_Cons power_mult)

lemma fromBits_take_drop: "fromBits (take n bs) = fromBits bs mod 2 ^ n \<and> fromBits (drop n bs) = fromBits bs div 2 ^ n"
proof (induction bs arbitrary: n)
  case Nil
  then show ?case by simp
next
  case (Cons b bs)
  show ?case
  proof (cases n)
    case 0
    then show ?thesis by simp
  next
    case (Suc m)
    have "(of_bool b + 2 * fromBits bs) mod 2 ^ Suc m = of_bool b + 2 * (fromBits bs mod 2 ^ m)"
      using mod_mult2_eq [of "of_bool b + 2 * fromBits bs" 2 "2 ^ m"] by simp
    moreover have "(of_bool b + 2 * fromBits bs) div 2 ^ Suc m = fromBits bs div 2 ^ m"
      using div_mult2_eq [of "of_bool b + 2 * fromBits bs" 2 "2 ^ m"] by simp
    ultimately show ?thesis using Cons [of m] Suc by simp
  qed
qed

lemma packBits_be_bytes: "packBits w bs = be_bytes w (fromBits bs)"
proof (induction w arbitrary: bs)
  case 0
  then show ?case by simp
next
  case (Suc w)
  have "(of_nat (fromBits bs mod 256) :: byte) = of_nat (fromBits bs)"
    by (simp only: word_unat_eq_iff unat_of_nat) simp
  then show ?case
    using fromBits_take_drop [of 8 bs] Suc [of "drop 8 bs"] by (simp add: be_bytes_Suc)
qed

lemma integerBytes_be_bytes: "integerBytes bs width = be_bytes width (fromBits bs)"
  by (simp add: integerBytes_def packBits_be_bytes fromBits_append)

lemma fieldBytes_be_bytes: "v < 2 ^ nbits \<Longrightarrow> fieldBytes nbits v = be_bytes 32 v"
  by (simp add: fieldBytes_def integerBytes_be_bytes fromBits_toBits)

lemma nativeValueLoop_be_nat:
  "nativeValueLoop r out bs mod r = (out * 256 ^ length bs + int (be_nat bs)) mod r"
proof (induction bs arbitrary: out)
  case (Cons b bs)
  have "nativeValueLoop r out (b # bs) mod r =
      (((out * 256 + int (unat b)) mod r) * 256 ^ length bs + int (be_nat bs)) mod r"
    by (simp add: Cons)
  also have "\<dots> = ((out * 256 + int (unat b)) * 256 ^ length bs + int (be_nat bs)) mod r"
    by (metis mod_add_left_eq mod_mult_left_eq)
  finally show ?case by (simp add: be_nat_Cons algebra_simps)
qed simp

lemma nativeValueLoop_reduced:
  "0 < r \<Longrightarrow> 0 \<le> out \<Longrightarrow> out < r \<Longrightarrow> nativeValueLoop r out bs mod r = nativeValueLoop r out bs"
  by (induction bs arbitrary: out) auto

lemma nativeValue_be_nat: "0 < r \<Longrightarrow> nativeValue r data = int (be_nat data) mod r"
  using nativeValueLoop_be_nat [of r 0 data] nativeValueLoop_reduced [of r 0 data]
  by (simp add: nativeValue_def)

lemma secpValue_be_nat: "secpValue q data = int (be_nat data) mod q"
  by (simp add: secpValue_def fromBits_bytesBits)

section \<open>Statements satisfy the circuit\<close>

lemma canonical_mod: "canonicalNonzero (Some n) q \<Longrightarrow> n mod q = n"
  by simp

lemma goodSecp_circuit:
  "coord_laws E \<Longrightarrow> goodSecp E p \<Longrightarrow> cOnCurve (SECP E) p \<and> nonzeroPoint p \<and> inField (secpFp E) p"
  by (auto simp: goodSecp_def coord_laws_def nonzeroPoint_def inField_def in_group_def
      intro: affine.equality)

lemma goodBN_circuit:
  "coord_laws E \<Longrightarrow> goodBN E p \<Longrightarrow> in_group (BN E) p \<and> nonzeroPoint p \<and> inField (bnFp E) p"
  by (auto simp: goodBN_def coord_laws_def nonzeroPoint_def inField_def in_group_def
      intro: affine.equality)

lemma goodBN2_circuit:
  "coord_laws E \<Longrightarrow> goodBN2 E p \<Longrightarrow> in_group (BN2 E) p \<and> nonzeroPoint2 p"
  by (auto simp: goodBN2_def coord_laws_def nonzeroPoint2_def in_group_def intro: affine2.equality)

lemma fieldBytes_secp: "coord_laws E \<Longrightarrow> inField (secpFp E) p \<Longrightarrow> secpEncoding p = EncodeSecpPoint p"
  by (simp add: secpEncoding_def EncodeSecpPoint_def inField_def coord_laws_def fieldBytes_be_bytes)

lemma fieldBytes_bn:
  "coord_laws E \<Longrightarrow> inField (bnFp E) p \<Longrightarrow>
   fieldBytes 254 (pX p) @ fieldBytes 254 (pY p) = EncodeBNPoint p"
  by (simp add: EncodeBNPoint_def inField_def coord_laws_def fieldBytes_be_bytes)

lemma fieldBytes_scalar:
  "coord_laws E \<Longrightarrow> 0 \<le> x \<Longrightarrow> x < cOrder (SECP E) \<Longrightarrow> fieldBytes 256 (nat x) = be_bytes 32 (nat x)"
  by (rule fieldBytes_be_bytes) (simp add: coord_laws_def nat_less_iff)

lemma HashScalar_value: "HashScalar E data q = Inr n \<longleftrightarrow> 2 \<le> q \<and> n = int (be_nat (Sum256 E data)) mod q \<and> n \<noteq> 0"
  by (auto simp: HashScalar_def Let_def)

text \<open>The two pairing equations: the host checks \<open>e(W, aH + HTau) = e(V, H)\<close>, the circuit the
  regrouped \<open>e(aW - V, H) e(W, HTau) = 1\<close>.\<close>

lemma pairing_regrouped:
  assumes "group_laws E" and "pairing_law E" and "srs_of E tau p"
    and "in_group (BN E) v" and "in_group (BN E) w" and "VerifyMembership E p v w (Some a)"
  shows "PairingCheck E [cAdd (BN E) (cMul (BN E) w a) (cNeg (BN E) v), w] [parH p, parHTau p] = Inr True"
proof -
  note laws = group_lawsD [OF assms(1)]
  obtain i where v: "v = cMul (BN E) (cGen (BN E)) i" using assms(4) by (rule in_group_exp [OF laws(1)])
  obtain j where w: "w = cMul (BN E) (cGen (BN E)) j" using assms(5) by (rule in_group_exp [OF laws(1)])
  have eq: "i mod cOrder (BN E) = (j * (a + tau)) mod cOrder (BN E)"
    using VerifyMembership_exp [OF assms(1-3) v w] assms(6) by simp
  have lhs: "cAdd (BN E) (cMul (BN E) w a) (cNeg (BN E) v) = cMul (BN E) (cGen (BN E)) (j * a + - i)"
    by (simp only: v w curve_exp [OF laws(1)])
  have "((j * a - i) + j * tau) mod cOrder (BN E) = (j * (a + tau) - i) mod cOrder (BN E)"
    by (simp add: algebra_simps)
  also have "\<dots> = 0" using eq by (metis mod_eq_dvd_iff dvd_imp_mod_0)
  finally have "((j * a - i) * 1 + j * tau) mod cOrder (BN E) = 0" by simp
  moreover have "PairingCheck E
      [cMul (BN E) (cGen (BN E)) (j * a + - i), cMul (BN E) (cGen (BN E)) j]
      [cMul (BN2 E) (cGen (BN2 E)) 1, cMul (BN2 E) (cGen (BN2 E)) tau]
      = Inr (((j * a + - i) * 1 + j * tau) mod cOrder (BN E) = 0)"
    using assms(2) unfolding pairing_law_def by blast
  ultimately show ?thesis
    using assms(3) unfolding lhs unfolding w by (simp add: srs_of_def gen_exp [OF laws(2)])
qed

text \<open>What a successful \<open>MakeStatement\<close> computed.\<close>

lemma MakeStatement_ok:
  assumes "MakeStatement E p accounts idx x d issue md ts k counter = Inr (st, w)"
  obtains v mw rd s t bases r ut S T where
    "k \<noteq> 0" "counter < k" "0 \<le> idx" "idx < int (length accounts)"
    "canonicalNonzero x (cOrder (SECP E))" "canonicalNonzero d (cOrder (SECP E))"
    "NewAccount E x d = Inr (wAccount w)"
    "accU (wAccount w) = accU (accounts ! nat idx)" "accY (wAccount w) = accY (accounts ! nat idx)"
    "Accumulate E p accounts = Inr v" "MembershipWitness E p accounts idx = Inr mw"
    "RingDigest E accounts = Inr rd" "Seeds E x issue = Inr (s, t)" "Bases E = Inr bases"
    "goodBN E (stNym st)" "stNym st = nymSum E bases [s, t, the x] (cInf (BN E))"
    "Challenge E st = Inr r" "IssueBase E issue = Inr ut"
    "statementTags E (the x) s t r counter ut = Inr (S, T)"
    "stV st = v" "stS st = S" "stT st = T" "stIssue st = issue" "stRingDigest st = rd"
    "stMessageDigest st = md" "stTimestamp st = ts" "stK st = k" "stR st = Some r"
    "wX w = x" "wD w = d" "wW w = mw" "wCounter w = counter"
proof -
  let ?st = "\<lambda>v nym ring. \<lparr>stV = v, stNym = nym, stS = cInf (SECP E), stT = cInf (SECP E), stIssue = issue,
    stRingDigest = ring, stMessageDigest = md, stTimestamp = ts, stK = k, stR = None\<rparr>"
  from assms obtain a v mw rd s t bases r ut S T where f:
    "k \<noteq> 0" "counter < k" "0 \<le> idx" "idx < int (length accounts)" "NewAccount E x d = Inr a"
    "accU a = accU (accounts ! nat idx)" "accY a = accY (accounts ! nat idx)"
    "Accumulate E p accounts = Inr v" "MembershipWitness E p accounts idx = Inr mw"
    "RingDigest E accounts = Inr rd" "Seeds E x issue = Inr (s, t)" "Bases E = Inr bases"
    "goodBN E (nymSum E bases [s, t, the x] (cInf (BN E)))"
    "Challenge E (?st v (nymSum E bases [s, t, the x] (cInf (BN E))) rd) = Inr r" "IssueBase E issue = Inr ut"
    "statementTags E (the x) s t r counter ut = Inr (S, T)"
    "st = (?st v (nymSum E bases [s, t, the x] (cInf (BN E))) rd)\<lparr>stR := Some r, stS := S, stT := T\<rparr>"
    "w = \<lparr>wX = x, wD = d, wAccount = a, wW = mw, wCounter = counter\<rparr>"
    by (auto simp: MakeStatement_def Let_def simp del: nymSum.simps)
  have "canonicalNonzero x (cOrder (SECP E))" "canonicalNonzero d (cOrder (SECP E))"
    using f(5) by (auto simp: NewAccount_def)
  moreover have "Challenge E st = Inr r" using f(14) by (simp add: f(17) Challenge_def challengeInput_def)
  ultimately show thesis using f(1-16) by (intro that) (simp_all only: f(17,18) SecretWitness.simps Statement.simps not_False_eq_True)
qed

lemma circuitSeed_Seeds:
  assumes "coord_laws E" and "Seeds E (Some x) (cIssue c) = Inr (s, t)" and "cX c = x"
  shows "circuitSeed E c 0 = s" and "circuitSeed E c 1 = t" and "s \<noteq> 0" and "t \<noteq> 0"
    and "0 \<le> s \<and> s < cOrder (SECP E)" and "0 \<le> t \<and> t < cOrder (SECP E)"
proof -
  have x: "0 \<le> x" "x < cOrder (SECP E)" using assms(2) by (auto simp: Seeds_def)
  then show "circuitSeed E c 0 = s" and "circuitSeed E c 1 = t" and "s \<noteq> 0" and "t \<noteq> 0"
    and "0 \<le> s \<and> s < cOrder (SECP E)" and "0 \<le> t \<and> t < cOrder (SECP E)"
    using assms
    by (auto simp: Seeds_def circuitSeed_def secpValue_be_nat HashScalar_value fieldBytes_scalar)
qed

lemma bases_exp:
  assumes "group_laws E" and "Bases E = Inr bases"
  obtains i j k where "bases = [cMul (BN E) (cGen (BN E)) i, cMul (BN E) (cGen (BN E)) j, cMul (BN E) (cGen (BN E)) k]"
proof -
  from assms(2) obtain b0 b1 b2 where b: "bases = [b0, b1, b2]" "goodBN E b0" "goodBN E b1" "goodBN E b2"
    by (auto simp: Bases_def)
  then have "in_group (BN E) b0" "in_group (BN E) b1" "in_group (BN E) b2" by (simp_all add: goodBN_iff)
  then show thesis using in_group_exp [OF group_lawsD(1) [OF assms(1)]] b(1) that by metis
qed

lemma circuitNym_nymSum:
  assumes "group_laws E" and "coord_laws E" and "Bases E = Inr bases"
    and "Seeds E (Some x) (cIssue c) = Inr (s, t)" and "cX c = x"
  shows "circuitNym E c bases = nymSum E bases [s, t, x] (cInf (BN E))"
proof -
  note laws = group_lawsD [OF assms(1)] and seed = circuitSeed_Seeds [OF assms(2,4,5)]
  have x: "0 \<le> x" "x < cOrder (SECP E)" using assms(4) by (auto simp: Seeds_def)
  have r: "0 < cOrder (BN E)" using curve_order_gt1 [OF laws(1)] by simp
  have val: "nativeValue (cOrder (BN E)) (fieldBytes 256 (nat y)) = y mod cOrder (BN E)"
    if "0 \<le> y" "y < cOrder (SECP E)" for y
    using that assms(2) r
    by (simp add: fieldBytes_scalar nativeValue_be_nat) (simp add: coord_laws_def nat_less_iff)
  obtain i j k where b: "bases = [cMul (BN E) (cGen (BN E)) i, cMul (BN E) (cGen (BN E)) j, cMul (BN E) (cGen (BN E)) k]"
    using bases_exp [OF assms(1,3)] .
  have "cInf (BN E) = cMul (BN E) (cGen (BN E)) 0" by (simp add: inf_exp [OF laws(1)])
  then show ?thesis
    using seed x unfolding circuitNym_def assms(5)
    by (simp add: Let_def val b curve_exp [OF laws(1)])
qed

lemma DefineNym_complete:
  assumes "group_laws E" and "coord_laws E" and "Bases E = Inr bases"
    and "Seeds E (Some x) (cIssue c) = Inr (s, t)" and "cX c = x"
    and "cNym c = nymSum E bases [s, t, x] (cInf (BN E))"
  shows "DefineNym E c"
proof -
  have "mapR (\<lambda>label. bnHash E (str_bytes label) (str_bytes ''LKTRS-BN254-NYM-V1''))
      [''g0'', ''g1'', ''g2''] = Inr bases"
    using assms(3) by (auto simp: Bases_def NymDST_def)
  then show ?thesis
    using circuitSeed_Seeds [OF assms(2,4,5)] circuitNym_nymSum [OF assms(1-5)] assms(6)
    by (simp add: DefineNym_def del: mapR.simps)
qed

lemma DefineMember_complete:
  assumes laws: "group_laws E" "pairing_law E" "coord_laws E"
    and acc: "NewAccount E (Some (cX c)) (Some (cD c)) = Inr a"
      "accU a = cAccountU c" "accY a = cAccountY c"
    and mem: "Member E a = Inr m"
    and srs: "srs_of E tau p" "cH c = parH p" "cHTau c = parHTau p"
    and vw: "VerifyMembership E p (cV c) (cW c) (Some m)"
  shows "DefineMember E c"
proof -
  from acc have a: "accU a = cMul (SECP E) (cGen (SECP E)) (cD c)" "accY a = cMul (SECP E) (accU a) (cX c)"
    and val: "validateAccount E a = Inr ()"
    by (auto simp: NewAccount_def Let_def)
  from val have good: "goodSecp E (accU a)" "goodSecp E (accY a)" by (auto simp: validateAccount_def)
  note g = goodSecp_circuit [OF laws(3) good(1)] goodSecp_circuit [OF laws(3) good(2)]
  have r: "0 < cOrder (BN E)" using curve_order_gt1 [OF group_lawsD(1) [OF laws(1)]] by simp
  have m: "circuitMember E c = m" "m \<noteq> 0"
    using mem g acc(2,3) r
    by (auto simp: circuitMember_def Member_def MemberDomain_def HashScalar_value nativeValue_be_nat
        fieldBytes_secp [OF laws(3)])
  have "in_group (BN E) (cV c)" "in_group (BN E) (cW c)"
    using vw by (auto simp: VerifyMembership_def goodBN_iff split: if_splits)
  then have "PairingCheck E [cAdd (BN E) (cMul (BN E) (cW c) m) (cNeg (BN E) (cV c)), cW c] [cH c, cHTau c] = Inr True"
    using pairing_regrouped [OF laws(1,2) srs(1) _ _ vw] srs(2,3) by simp
  then show ?thesis using a acc g m by (simp add: DefineMember_def)
qed

lemma circuitTranscript_challenge:
  assumes "coord_laws E" and "inField (bnFp E) (stNym st)"
    and "cIssue c = stIssue st" "cRingDigest c = stRingDigest st" "cMessageDigest c = stMessageDigest st"
    "cNym c = stNym st" "cTimestamp c = int (unat (stTimestamp st))" "cK c = int (unat (stK st))"
  shows "circuitTranscript c = challengeInput st"
proof -
  have "fieldBytes 254 (pX (cNym c)) @ fieldBytes 254 (pY (cNym c)) = EncodeBNPoint (stNym st)"
    using fieldBytes_bn [OF assms(1,2)] assms(6) by simp
  moreover have "unat (stTimestamp st) < 2 ^ 64" "unat (stK st) < 2 ^ 32"
    using unsigned_less [of "stTimestamp st"] unsigned_less [of "stK st"] by simp_all
  ultimately show ?thesis
    using assms(3-8)
    by (simp add: circuitTranscript_def challengeInput_def ChallengeDomain_def integerBytes_be_bytes
        fromBits_toBits)
qed

lemma DefineTags_complete:
  assumes coords: "coord_laws E"
    and good: "goodBN E (stNym st)"
    and c: "cIssue c = stIssue st" "cRingDigest c = stRingDigest st" "cMessageDigest c = stMessageDigest st"
      "cNym c = stNym st" "cTimestamp c = int (unat (stTimestamp st))" "cK c = int (unat (stK st))"
      "cCounter c = int (unat counter)" "cUt c = ut" "cSPoint c = S" "cTPoint c = T" "cR c = r"
    and seeds: "Seeds E (Some (cX c)) (stIssue st) = Inr (s, t)"
    and chal: "Challenge E st = Inr r"
    and tags: "statementTags E (cX c) s t r counter ut = Inr (S, T)"
  shows "DefineTags E c"
proof -
  note seed = circuitSeed_Seeds [OF coords seeds [folded c(1)] refl]
  have nym: "inField (bnFp E) (cNym c)" using goodBN_circuit [OF coords good] c(4) by simp
  have tr: "circuitTranscript c = challengeInput st"
    using circuitTranscript_challenge [OF coords _ c(1-6)] nym c(4) by simp
  have r: "secpValue (cOrder (SECP E)) (Sum256 E (circuitTranscript c)) = r"
    using chal by (auto simp: tr Challenge_def HashScalar_value secpValue_be_nat)
  have ts: "int (unat (stTimestamp st)) < 2 ^ 64"
    using unsigned_less [of "stTimestamp st"] by simp
  have nz: "ds \<noteq> 0 \<and> dt \<noteq> 0"
    if "ds = (s + (int (unat counter) + 1)) mod cOrder (SECP E)"
      "dt = (t + (int (unat counter) + 1)) mod cOrder (SECP E)" for ds dt
    using tags that by (auto simp: statementTags_def Let_def)
  show ?thesis
    using tags nz nym ts seed(1,2) c r
    by (auto simp: DefineTags_def statementTags_def Let_def add.assoc split: option.splits)
qed

lemma DefineInputs_complete:
  assumes coords: "coord_laws E"
    and pts: "goodSecp E (cUt c)" "goodSecp E (cSPoint c)" "goodSecp E (cTPoint c)"
      "goodSecp E (cAccountU c)" "goodSecp E (cAccountY c)"
      "goodBN E (cV c)" "goodBN E (cW c)" "goodBN E (cNym c)" "goodBN2 E (cH c)" "goodBN2 E (cHTau c)"
    and sc: "canonicalNonzero (Some (cX c)) (cOrder (SECP E))" "canonicalNonzero (Some (cD c)) (cOrder (SECP E))"
      "canonicalNonzero (Some (cR c)) (cOrder (SECP E))"
    and cnt: "cCounter c = int (unat counter)" "cK c = int (unat (k :: 32 word))" "counter < k" "0 < cOrder (BN E)"
  shows "DefineInputs E c"
proof -
  have "unat counter < unat k" "unat k < 2 ^ 32"
    using unat_u32_less [of k] cnt(3) by (simp_all add: word_less_nat_alt)
  then have "int (unat counter) < int (unat k)" "int (unat k) < int (2 ^ 32)"
    by (simp_all only: of_nat_less_iff)
  then have k: "int (unat counter) < int (unat k)" "int (unat k) < 2 ^ 32" by simp_all
  have "int (unat k) \<noteq> 0" using k(1) by (metis of_nat_0_le_iff not_le)
  note k = k this
  then have "(int (unat k) - int (unat counter) - 1) mod cOrder (BN E) \<le> int (unat k) - int (unat counter) - 1"
    using cnt(4) by (intro zmod_le_nonneg_dividend) simp
  then have "(int (unat k) - int (unat counter) - 1) mod cOrder (BN E) < 2 ^ 32" using k by linarith
  then show ?thesis
    using k cnt sc pts goodSecp_circuit [OF coords] goodBN_circuit [OF coords] goodBN2_circuit [OF coords]
    by (simp add: DefineInputs_def)
qed

text \<open>
  The values of a statement that reach the circuit as native field elements are reduced
  modulo the circuit field, so they must fit it (BN254's scalar field has 254 bits).
\<close>

definition fits_field :: "env \<Rightarrow> Statement \<Rightarrow> bool" where
  "fits_field E st \<longleftrightarrow>
     int (unat (stTimestamp st)) < cOrder (BN E) \<and> int (unat (stK st)) < cOrder (BN E)"

lemma MakeStatement_membership:
  assumes laws: "group_laws E" "pairing_law E"
    and "Accumulate E p accounts = Inr v" "MembershipWitness E p accounts idx = Inr mw"
    and "RingDigest E accounts = Inr rd" "0 \<le> idx" "idx < int (length accounts)"
    and "NewAccount E x d = Inr a" "accU a = accU (accounts ! nat idx)" "accY a = accY (accounts ! nat idx)"
  obtains m tau where "Member E a = Inr m" and "VerifyMembership E p v mw (Some m)" and "srs_of E tau p"
    and "goodBN E v" "goodBN E mw" "goodBN2 E (parH p)" "goodBN2 E (parHTau p)"
    and "goodSecp E (accU a)" "goodSecp E (accY a)"
proof -
  have valid: "ValidateParams E p = Inr ()" using assms(3) by (auto simp: Accumulate_def)
  obtain tau where srs: "srs_of E tau p" using validated_srs [OF laws valid] .
  obtain ms where ms: "membersOf E accounts = Inr ms" using assms(5) by (auto simp: RingDigest_def)
  have "nat idx < length accounts" using assms(6,7) by simp
  then have mem: "Member E (accounts ! nat idx) = Inr (ms ! nat idx)" by (rule membersOf_nth [OF ms])
  have val: "validateAccount E a = Inr ()" using assms(8) by (auto simp: NewAccount_def Let_def)
  then have mem': "Member E a = Inr (ms ! nat idx)" using mem assms(9,10) by (auto simp: Member_def)
  have verif: "VerifyMembership E p v mw (Some (ms ! nat idx))"
    by (rule witness_verifies [OF laws assms(3,4) mem])
  then have "goodBN E v" "goodBN E mw" by (auto simp: VerifyMembership_def split: if_splits)
  moreover have "goodSecp E (accU a)" "goodSecp E (accY a)" using val by (auto simp: validateAccount_def)
  moreover have "goodBN2 E (parH p)" "goodBN2 E (parHTau p)" using valid by (auto simp only: ValidateParams_ok_iff)
  ultimately show thesis by (intro that [OF mem' verif srs])
qed

lemma Assignment_fields:
  assumes "IssueBase E (stIssue st) = Inr ut" and "stR st = Some r" and "wX w = Some x" and "wD w = Some d"
    and "canonicalNonzero (Some x) (cOrder (SECP E))" "canonicalNonzero (Some d) (cOrder (SECP E))"
    and "canonicalNonzero (Some r) (cOrder (SECP E))" and "fits_field E st" and "wCounter w < stK st"
  obtains c where "Assignment E p st w = Inr c"
    and "cV c = stV st" "cNym c = stNym st" "cH c = parH p" "cHTau c = parHTau p" "cUt c = ut"
      "cSPoint c = stS st" "cTPoint c = stT st" "cIssue c = stIssue st" "cRingDigest c = stRingDigest st"
      "cMessageDigest c = stMessageDigest st" "cTimestamp c = int (unat (stTimestamp st))"
      "cK c = int (unat (stK st))" "cR c = r" "cX c = x" "cD c = d" "cAccountU c = accU (wAccount w)"
      "cAccountY c = accY (wAccount w)" "cW c = wW w" "cCounter c = int (unat (wCounter w))"
proof -
  have "unat (wCounter w) < unat (stK st)" using assms(9) by (simp add: word_less_nat_alt)
  then have "int (unat (wCounter w)) < int (unat (stK st))" by (simp only: of_nat_less_iff)
  then have "int (unat (wCounter w)) < cOrder (BN E)" using assms(8) by (simp add: fits_field_def)
  then show thesis
    using assms by (intro that) (auto simp: Assignment_def PublicAssignment_def fits_field_def)
qed

lemma MakeStatement_satisfies:
  assumes laws: "group_laws E" "pairing_law E" "coord_laws E"
    and make: "MakeStatement E p accounts idx x d issue md ts k counter = Inr (st, w)"
    and fits: "fits_field E st"
  obtains c where "Assignment E p st w = Inr c" and "Define E c"
proof (rule MakeStatement_ok [OF make], goal_cases)
  case f: (1 v mw rd s t bases r ut S T)
  then obtain x' d' where xd: "x = Some x'" "d = Some d'" by (auto simp: canonicalNonzero_iff)
  obtain m tau where m: "Member E (wAccount w) = Inr m" "VerifyMembership E p v mw (Some m)" "srs_of E tau p"
    "goodBN E v" "goodBN E mw" "goodBN2 E (parH p)" "goodBN2 E (parHTau p)"
    "goodSecp E (accU (wAccount w))" "goodSecp E (accY (wAccount w))"
    by (rule MakeStatement_membership [OF laws(1,2) f(11-13,4,5,8-10)])
  have r: "canonicalNonzero (Some r) (cOrder (SECP E))"
    using f(18) by (auto simp: Challenge_def dest: HashScalar_range)
  have ord: "0 < cOrder (BN E)" using curve_order_gt1 [OF group_lawsD(1) [OF laws(1)]] by simp
  have gp: "goodSecp E ut" "goodSecp E S" "goodSecp E T"
    using f(19,20) by (auto simp: IssueBase_def statementTags_def Let_def split: option.splits)
  obtain c where a: "Assignment E p st w = Inr c"
    and c: "cV c = stV st" "cNym c = stNym st" "cH c = parH p" "cHTau c = parHTau p" "cUt c = ut"
      "cSPoint c = stS st" "cTPoint c = stT st" "cIssue c = stIssue st" "cRingDigest c = stRingDigest st"
      "cMessageDigest c = stMessageDigest st" "cTimestamp c = int (unat (stTimestamp st))"
      "cK c = int (unat (stK st))" "cR c = r" "cX c = x'" "cD c = d'" "cAccountU c = accU (wAccount w)"
      "cAccountY c = accY (wAccount w)" "cW c = wW w" "cCounter c = int (unat (wCounter w))"
    using Assignment_fields [of E st ut r w x' d' p] f(2-) xd r fits by auto
  have "DefineInputs E c"
    using DefineInputs_complete [OF laws(3), of c counter k] f(6,7) unfolding xd
    by (simp only: c gp m f(3,16) r ord f(21-33) simp_thms)
  moreover have "DefineNym E c"
    using DefineNym_complete [OF laws(1,3), of bases x' c s t] f(14,17) unfolding xd
    by (simp only: c f(15) f(21-33) simp_thms option.sel)
  moreover have "DefineMember E c"
    using DefineMember_complete [OF laws, of c "wAccount w" m tau p] f(8) unfolding xd
    by (simp only: c m f(21-33) simp_thms)
  moreover have "DefineTags E c"
    using DefineTags_complete [OF laws(3), of st c counter ut S T r s t] f(14,20) unfolding xd
    by (simp only: c f(16,18) f(21-33) simp_thms option.sel)
  ultimately have "Define E c" by (simp add: Define_def)
  with a show thesis by (rule that)
qed

end
