(* ===== verification/Backend.thy ===== *)
theory Backend
  imports Circuit
begin

text \<open>
  \<open>src/nativeproof/backend.go\<close>: the Groth16 backend around gnark.  gnark itself is the
  parameter record \<open>gnark\<close>; its objects are identified with what the program observes of
  them (serialised bytes, counts and metadata).  Modelled in full: the trusted verification
  context and its check of a statement, proving, verifying, loading of a verifier, and the
  two preflight parsers that bound every count before gnark's decoder allocates.
\<close>

section \<open>gnark\<close>

record ConstraintSystem =
  csBytes :: bytes
  csNbConstraints :: int
  csNbPublic :: int
  csNbSecret :: int
  csNbInternal :: int
  csGroth16 :: bool
  csPrivateCommitted :: "int list list"
  csMetadata :: "int list list"

record VerifyingKey =
  vkPoints :: bytes
  vkNative :: bool
  vkK :: int
  vkCommitmentKeys :: int
  vkMetadata :: "int list list"

text \<open>
  \<open>gReadVK\<close> and \<open>gReadProof\<close> return the decoded object and how many bytes are left.
  A proof object and a proving key are opaque byte strings.
\<close>

record gnark =
  gCompile :: "ConstraintSystem result"
  gWriteCS :: "ConstraintSystem \<Rightarrow> bytes result"
  gSetup :: "ConstraintSystem \<Rightarrow> (bytes \<times> VerifyingKey) result"
  gWriteVK :: "VerifyingKey \<Rightarrow> bytes result"
  gReadVK :: "bytes \<Rightarrow> (VerifyingKey \<times> nat) result"
  gNewWitness :: "Circuit \<Rightarrow> Circuit result"
  gProve :: "ConstraintSystem \<Rightarrow> bytes \<Rightarrow> Circuit \<Rightarrow> bytes result"
  gWriteProof :: "bytes \<Rightarrow> bytes result"
  gReadProof :: "bytes \<Rightarrow> (bytes \<times> nat) result"
  gVerify :: "bytes \<Rightarrow> VerifyingKey \<Rightarrow> Circuit \<Rightarrow> unit result"

section \<open>Data\<close>

definition CircuitVersion :: string where
  "CircuitVersion = ''lktrs-native-bn254-secp256k1-v1''"

abbreviation (input) maxProofBytes :: nat where "maxProofBytes \<equiv> 1048576"

record Proof =
  prVersion :: string
  prCircuitHash :: bytes
  prKeyID :: bytes
  prData :: bytes

record Signed =
  sgStatement :: Statement
  sgProof :: Proof

record Prover =
  prvCS :: ConstraintSystem
  prvPK :: bytes
  prvCircuitHash :: bytes
  prvKeyID :: bytes

record Verifier =
  vfVK :: "VerifyingKey option"
  vfCircuitHash :: bytes
  vfKeyID :: bytes

record VerificationContext =
  vcParams :: Params
  vcAccounts :: "Account list"
  vcIssue :: bytes
  vcK :: "32 word"
  vcDigest :: bytes

definition NewVerificationContext ::
  "env \<Rightarrow> Params \<Rightarrow> Account list \<Rightarrow> bytes \<Rightarrow> 32 word \<Rightarrow> VerificationContext result" where
  "NewVerificationContext E p accounts issue k =
     (if k = 0 then Inl ''zero quota''
      else andThen (ValidateParams E p) (\<lambda>_.
        andThen (Accumulate E p accounts) (\<lambda>_.
        andThen (RingDigest E accounts) (\<lambda>rd.
        Inr \<lparr>vcParams = cloneParams p, vcAccounts = cloneAccounts accounts, vcIssue = issue,
             vcK = k, vcDigest = rd\<rparr>))))"

section \<open>Setup and proving\<close>

definition digestWriter :: "env \<Rightarrow> bytes result \<Rightarrow> bytes result" where
  "digestWriter E written = andThen written (\<lambda>b. Inr (Sum256 E b))"

definition ExpectedCircuitHash :: "env \<Rightarrow> gnark \<Rightarrow> bytes result" where
  "ExpectedCircuitHash E G = andThen (gCompile G) (\<lambda>cs. digestWriter E (gWriteCS G cs))"

definition NewBackend :: "env \<Rightarrow> gnark \<Rightarrow> (Prover \<times> Verifier) result" where
  "NewBackend E G =
     andThen (gCompile G) (\<lambda>cs.
     andThen (wrapErr ''hash compiled circuit: '' (digestWriter E (gWriteCS G cs))) (\<lambda>circuitHash.
     andThen (gSetup G cs) (\<lambda>(pk, vk).
     andThen (digestWriter E (gWriteVK G vk)) (\<lambda>keyID.
     Inr (\<lparr>prvCS = cs, prvPK = pk, prvCircuitHash = circuitHash, prvKeyID = keyID\<rparr>,
          \<lparr>vfVK = Some vk, vfCircuitHash = circuitHash, vfKeyID = keyID\<rparr>)))))"

definition newBig :: "int option \<Rightarrow> int option" where
  "newBig n = (case n of None \<Rightarrow> None | Some v \<Rightarrow> Some v)"

definition Prove ::
  "env \<Rightarrow> gnark \<Rightarrow> Prover \<Rightarrow> Params \<Rightarrow> Statement \<Rightarrow> SecretWitness \<Rightarrow> Signed result" where
  "Prove E G p params st witness =
     andThen (Assignment E params st witness) (\<lambda>a.
     andThen (gNewWitness G a) (\<lambda>w.
     andThen (gProve G (prvCS p) (prvPK p) w) (\<lambda>proof.
     andThen (gWriteProof G proof) (\<lambda>buf.
     Inr \<lparr>sgStatement = st\<lparr>stR := newBig (stR st)\<rparr>,
          sgProof = \<lparr>prVersion = CircuitVersion, prCircuitHash = prvCircuitHash p,
                     prKeyID = prvKeyID p, prData = buf\<rparr>\<rparr>))))"

definition KeyBytes :: "gnark \<Rightarrow> Verifier \<Rightarrow> bytes result" where
  "KeyBytes G v = (case vfVK v of
      None \<Rightarrow> Inl ''panic: nil verifying key''
    | Some vk \<Rightarrow> gWriteVK G vk)"

section \<open>Preflight of a verifying key\<close>

text \<open>
  The closures of \<open>preflightVerifyingKey\<close> share the cursor \<open>pos\<close>; here each takes the cursor
  and returns it advanced.  \<open>G1\<close> points take 32 bytes compressed and 64 uncompressed, \<open>G2\<close>
  points twice that.
\<close>

abbreviation (input) sizeG1C :: nat where "sizeG1C \<equiv> 32"
abbreviation (input) sizeG1U :: nat where "sizeG1U \<equiv> 64"
abbreviation (input) sizeG2C :: nat where "sizeG2C \<equiv> 64"
abbreviation (input) sizeG2U :: nat where "sizeG2U \<equiv> 128"

text \<open>\<open>b & 0xc0 != 0\<close>: the two top bits of a point's first byte mark the compressed form.\<close>

definition compressedFlag :: "byte \<Rightarrow> bool" where
  "compressedFlag b \<longleftrightarrow> b AND 0xc0 \<noteq> 0"

definition vkPoint :: "bytes \<Rightarrow> nat \<Rightarrow> nat \<Rightarrow> nat \<Rightarrow> nat result" where
  "vkPoint raw compressed uncompressed pos =
     (if pos \<ge> length raw then Inl ''truncated verification key point''
      else let size = (if compressedFlag (raw ! pos) then compressed else uncompressed) in
        if size \<le> 0 \<or> size > length raw - pos then Inl ''invalid verification key point length''
        else Inr (pos + size))"

definition vkU32 :: "bytes \<Rightarrow> nat \<Rightarrow> (nat \<times> nat) result" where
  "vkU32 raw pos =
     (if length raw - pos < 4 then Inl ''truncated verification key length''
      else Inr (be_nat (take 4 (drop pos raw)), pos + 4))"

text \<open>A counted loop whose body advances the cursor.\<close>

fun iterR :: "nat \<Rightarrow> (nat \<Rightarrow> nat result) \<Rightarrow> nat \<Rightarrow> nat result" where
  "iterR 0 step pos = Inr pos"
| "iterR (Suc n) step pos = andThen (step pos) (iterR n step)"

definition vkHeader :: "bytes \<Rightarrow> nat result" where
  "vkHeader raw =
     andThen (iterR 2 (vkPoint raw sizeG1C sizeG1U) 0) (\<lambda>pos.
     andThen (iterR 2 (vkPoint raw sizeG2C sizeG2U) pos) (\<lambda>pos.
     andThen (vkPoint raw sizeG1C sizeG1U pos) (\<lambda>pos.
     vkPoint raw sizeG2C sizeG2U pos)))"

definition vkPublic :: "bytes \<Rightarrow> nat \<Rightarrow> (nat \<times> nat) result" where
  "vkPublic raw pos =
     (case vkU32 raw pos of
        Inl e \<Rightarrow> Inl ''verification key public vector count is unsafe''
      | Inr (cnt, pos) \<Rightarrow>
          if cnt > 65536 then Inl ''verification key public vector count is unsafe''
          else andThen (iterR cnt (vkPoint raw sizeG1C sizeG1U) pos) (\<lambda>pos. Inr (cnt, pos)))"

fun vkMetaLoop :: "bytes \<Rightarrow> nat \<Rightarrow> nat \<Rightarrow> nat \<Rightarrow> nat result" where
  "vkMetaLoop raw 0 tot pos = Inr pos"
| "vkMetaLoop raw (Suc n) tot pos =
     (case vkU32 raw pos of
        Inl e \<Rightarrow> Inl ''verification key metadata width is unsafe''
      | Inr (inner, pos) \<Rightarrow>
          if inner > 65536 then Inl ''verification key metadata width is unsafe''
          else if tot + inner > 1048576 \<or> inner * 8 > length raw - pos
          then Inl ''verification key metadata oversized''
          else vkMetaLoop raw n (tot + inner) (pos + inner * 8))"

definition vkMeta :: "bytes \<Rightarrow> nat \<Rightarrow> (nat \<times> nat) result" where
  "vkMeta raw pos =
     (case vkU32 raw pos of
        Inl e \<Rightarrow> Inl ''verification key metadata count is unsafe''
      | Inr (outer, pos) \<Rightarrow>
          if outer > 65536 then Inl ''verification key metadata count is unsafe''
          else andThen (vkMetaLoop raw outer 0 pos) (\<lambda>pos. Inr (outer, pos)))"

definition vkCommitments :: "bytes \<Rightarrow> nat \<Rightarrow> (nat \<times> nat) result" where
  "vkCommitments raw pos =
     andThen (vkU32 raw pos) (\<lambda>(commitments, pos).
       if commitments > 64 then Inl ''verification key commitment count is unsafe''
       else andThen (iterR commitments (iterR 2 (vkPoint raw sizeG2C sizeG2U)) pos) (\<lambda>pos.
         Inr (commitments, pos)))"

definition preflightVerifyingKey :: "bytes \<Rightarrow> unit result" where
  "preflightVerifyingKey raw =
     andThen (vkHeader raw) (\<lambda>pos.
     andThen (vkPublic raw pos) (\<lambda>(_, pos).
     andThen (vkMeta raw pos) (\<lambda>(_, pos).
     andThen (vkCommitments raw pos) (\<lambda>(_, pos).
     if pos \<noteq> length raw then Inl ''trailing verification key bytes'' else Inr ()))))"

section \<open>Loading a verifier\<close>

definition loadVerifierForCircuit ::
  "env \<Rightarrow> gnark \<Rightarrow> bytes \<Rightarrow> bytes \<Rightarrow> bytes \<Rightarrow> ConstraintSystem \<Rightarrow> Verifier result" where
  "loadVerifierForCircuit E G key circuitHash keyID cs =
     (if length key > maxProofBytes \<or> Sum256 E key \<noteq> keyID then Inl ''verification key digest mismatch''
      else andThen (digestWriter E (gWriteCS G cs)) (\<lambda>expectedHash.
        if circuitHash \<noteq> expectedHash then Inl ''circuit hash is not the compiled native profile''
        else andThen (preflightVerifyingKey key) (\<lambda>_.
        andThen (gReadVK G key) (\<lambda>(vk, rest).
        if rest \<noteq> 0 then Inl ''trailing key bytes''
        else if \<not> csGroth16 cs then Inl ''wrong circuit commitment type''
        else if vkK vk \<noteq> csNbPublic cs + int (length (csPrivateCommitted cs)) \<or>
                vkCommitmentKeys vk \<noteq> int (length (csPrivateCommitted cs)) \<or>
                vkMetadata vk \<noteq> csMetadata cs
        then Inl ''verification key public/commitment layout differs from circuit''
        else Inr \<lparr>vfVK = Some vk, vfCircuitHash = circuitHash, vfKeyID = keyID\<rparr>))))"

definition LoadVerifier :: "env \<Rightarrow> gnark \<Rightarrow> bytes \<Rightarrow> bytes \<Rightarrow> bytes \<Rightarrow> Verifier result" where
  "LoadVerifier E G key circuitHash keyID =
     (if length key > maxProofBytes then Inl ''oversized verifier key''
      else if Sum256 E key \<noteq> keyID then Inl ''verification key digest mismatch''
      else andThen (preflightVerifyingKey key) (\<lambda>_.
        andThen (gCompile G) (\<lambda>cs. loadVerifierForCircuit E G key circuitHash keyID cs)))"

definition IDs :: "Verifier \<Rightarrow> bytes \<times> bytes" where
  "IDs v = (vfCircuitHash v, vfKeyID v)"

section \<open>Verification\<close>

definition checkContext ::
  "env \<Rightarrow> VerificationContext \<Rightarrow> bytes \<Rightarrow> Statement \<Rightarrow> unit result" where
  "checkContext E ctx message st =
     (if stIssue st \<noteq> vcIssue ctx \<or> stK st \<noteq> vcK ctx then Inl ''issue or quota mismatch''
      else if stMessageDigest st \<noteq> Sum256 E message then Inl ''message mismatch''
      else if stRingDigest st \<noteq> vcDigest ctx then Inl ''ring digest mismatch''
      else andThen (Accumulate E (vcParams ctx) (vcAccounts ctx)) (\<lambda>expected.
        if stV st \<noteq> expected then Inl ''ring accumulator mismatch''
        else if \<not> goodBN E (stNym st) \<or> \<not> goodSecp E (stS st) \<or> \<not> goodSecp E (stT st)
        then Inl ''invalid signature point''
        else if \<not> canonicalNonzero (stR st) (cOrder (SECP E)) then Inl ''invalid challenge''
        else andThen (Challenge E st) (\<lambda>r.
          if Some r \<noteq> stR st then Inl ''transcript challenge mismatch'' else Inr ())))"

definition proofOffsets :: "nat \<Rightarrow> nat list" where
  "proofOffsets commitments =
     [0, sizeG1C, sizeG1C + sizeG2C] @
     map (\<lambda>i. (2 * sizeG1C + sizeG2C) + 4 + i * sizeG1C) [0..<commitments + 1]"

definition preflightProof :: "bytes \<Rightarrow> int \<Rightarrow> unit result" where
  "preflightProof raw commitments =
     (let countOffset = 2 * sizeG1C + sizeG2C in
      if commitments < 0 \<or> commitments > int ((maxProofBytes - countOffset - 4 - sizeG1C) div sizeG1C)
      then Inl ''invalid trusted commitment count''
      else if int (length raw) \<noteq> int (countOffset + 4) + int sizeG1C * (commitments + 1)
      then Inl ''wrong compressed proof size''
      else if (of_nat (be_nat (take 4 (drop countOffset raw))) :: 32 word) \<noteq> of_int commitments
      then Inl ''proof commitment count differs from verification key''
      else if \<exists>off \<in> set (proofOffsets (nat commitments)). \<not> compressedFlag (raw ! off)
      then Inl ''uncompressed proof point forbidden''
      else Inr ())"

text \<open>The receiver is a nullable pointer.\<close>

definition Verify ::
  "env \<Rightarrow> gnark \<Rightarrow> Verifier option \<Rightarrow> VerificationContext \<Rightarrow> bytes \<Rightarrow> Signed \<Rightarrow> unit result" where
  "Verify E G verifier ctx message sg =
     (case verifier of
        None \<Rightarrow> Inl ''missing verifier''
      | Some v \<Rightarrow>
      (case vfVK v of
        None \<Rightarrow> Inl ''missing verifier''
      | Some vk \<Rightarrow>
        let p = sgProof sg in
        if prVersion p \<noteq> CircuitVersion \<or> prCircuitHash p \<noteq> vfCircuitHash v \<or> prKeyID p \<noteq> vfKeyID v
        then Inl ''proof profile or key mismatch''
        else andThen (checkContext E ctx message (sgStatement sg)) (\<lambda>_.
          if length (prData p) = 0 \<or> length (prData p) > maxProofBytes then Inl ''invalid proof length''
          else if \<not> vkNative vk then Inl ''wrong verifier curve''
          else andThen (preflightProof (prData p) (vkCommitmentKeys vk)) (\<lambda>_.
          andThen (wrapErr ''proof encoding: '' (gReadProof G (prData p))) (\<lambda>(proof, rest).
          if rest \<noteq> 0 then Inl ''trailing proof bytes''
          else andThen (PublicAssignment E (vcParams ctx) (sgStatement sg)) (\<lambda>assignment.
          andThen (gNewWitness G (publicOnly assignment)) (\<lambda>public.
          wrapErr ''proof rejected: '' (gVerify G proof vk public))))))))"

section \<open>Cursors: every accepted count is paid for in input bytes\<close>













section \<open>Preflight of a proof: exactly the compressed layout\<close>

text \<open>
  gnark's compressed proof with \<open>n\<close> commitments: the points \<open>Ar\<close>, \<open>Bs\<close>, \<open>Krs\<close>, the number of
  commitments, the commitments and the proof of knowledge, each point with a compression flag.
\<close>

definition compressed_proof :: "nat \<Rightarrow> bytes \<Rightarrow> bool" where
  "compressed_proof n raw \<longleftrightarrow> (\<exists>ar bs krs pts.
     raw = ar @ bs @ krs @ be_bytes 4 n @ concat pts \<and>
     length ar = 32 \<and> length bs = 64 \<and> length krs = 32 \<and> length pts = n + 1 \<and>
     (\<forall>p \<in> set pts. length p = 32) \<and> (\<forall>p \<in> set (ar # bs # krs # pts). compressedFlag (hd p)))"

lemma concat_chunks: "concat (map (\<lambda>i. take w (drop (i * w) xs)) [0..<n]) = take (n * w) xs"
proof (induction n)
  case (Suc n)
  have "take (Suc n * w) xs = take (n * w) xs @ take w (drop (n * w) xs)"
    by (simp only: take_add [symmetric]) (simp add: add.commute)
  then show ?case using Suc by simp
qed simp

lemma length_concat_chunks: "\<forall>p \<in> set pts. length p = w \<Longrightarrow> length (concat pts) = length pts * w"
  by (induction pts) auto

lemma nth_concat_chunks:
  "\<forall>p \<in> set pts. length p = w \<Longrightarrow> 0 < w \<Longrightarrow> i < length pts \<Longrightarrow> concat pts ! (i * w) = hd (pts ! i)"
proof (induction pts arbitrary: i)
  case (Cons p pts)
  then show ?case
    by (cases i) (auto simp: nth_append hd_conv_nth)
qed simp

definition proofFlags :: "bytes \<Rightarrow> nat \<Rightarrow> bool" where
  "proofFlags raw n \<longleftrightarrow> compressedFlag (raw ! 0) \<and> compressedFlag (raw ! 32) \<and> compressedFlag (raw ! 96) \<and>
     (\<forall>i < n + 1. compressedFlag (raw ! (132 + i * 32)))"

lemma proofOffsets_flags: "(\<exists>off \<in> set (proofOffsets n). \<not> compressedFlag (raw ! off)) \<longleftrightarrow> \<not> proofFlags raw n"
  by (auto simp: proofOffsets_def proofFlags_def simp del: upt_Suc)

lemma proof_count_word:
  assumes "length bs = 4" and "n \<le> 32762"
  shows "(of_nat (be_nat bs) :: 32 word) = of_nat n \<longleftrightarrow> be_nat bs = n"
proof -
  have "be_nat bs < 2 ^ 32" using be_nat_less [of bs] assms(1) by simp
  then show ?thesis using assms(2) by (simp add: word_unat_eq_iff unat_of_nat)
qed

lemma preflightProof_flags:
  "preflightProof raw (int n) = Inr () \<longleftrightarrow>
     n \<le> 32762 \<and> length raw = 132 + 32 * (n + 1) \<and> be_nat (take 4 (drop 128 raw)) = n \<and> proofFlags raw n"
proof -
  have len: "int (length raw) = 132 + 32 * (int n + 1) \<longleftrightarrow> length raw = 132 + 32 * (n + 1)" by auto
  have "preflightProof raw (int n) = Inr () \<longleftrightarrow>
      n \<le> 32762 \<and> length raw = 132 + 32 * (n + 1) \<and>
      (of_nat (be_nat (take 4 (drop 128 raw))) :: 32 word) = of_nat n \<and> proofFlags raw n"
    unfolding preflightProof_def Let_def nat_int proofOffsets_flags using len by auto
  then show ?thesis using proof_count_word [of "take 4 (drop 128 raw)" n] by auto
qed

lemma preflightProof_iff:
  "preflightProof raw (int n) = Inr () \<longleftrightarrow> n \<le> 32762 \<and> compressed_proof n raw"
proof
  assume "preflightProof raw (int n) = Inr ()"
  then have f: "n \<le> 32762" "length raw = 132 + 32 * (n + 1)" "be_nat (take 4 (drop 128 raw)) = n" "proofFlags raw n"
    by (simp_all add: preflightProof_flags)
  define pts where "pts = map (\<lambda>i. take 32 (drop (i * 32) (drop 132 raw))) [0..<n + 1]"
  have split: "raw = take 32 raw @ take 64 (drop 32 raw) @ take 32 (drop 96 raw) @ take 4 (drop 128 raw) @ drop 132 raw"
    using append_take_drop_id [of 32 raw] append_take_drop_id [of 64 "drop 32 raw"]
      append_take_drop_id [of 32 "drop 96 raw"] append_take_drop_id [of 4 "drop 128 raw"] by simp
  have "take 4 (drop 128 raw) = be_bytes 4 n"
    using f(2,3) be_bytes_be_nat [of "take 4 (drop 128 raw)" 4] by simp
  moreover have "concat pts = drop 132 raw"
    unfolding pts_def concat_chunks using f(2) by simp
  ultimately have "raw = take 32 raw @ take 64 (drop 32 raw) @ take 32 (drop 96 raw) @ be_bytes 4 n @ concat pts"
    using split by simp
  moreover have "length p = 32 \<and> compressedFlag (hd p)" if "p \<in> set pts" for p
  proof -
    from that obtain i where i: "i < n + 1" "p = take 32 (drop (132 + i * 32) raw)"
      by (auto simp: pts_def add.commute simp del: upt_Suc)
    then show ?thesis using f(2,4) by (simp add: proofFlags_def hd_drop_conv_nth)
  qed
  moreover have "compressedFlag (hd (take 32 raw))" "compressedFlag (hd (take 64 (drop 32 raw)))"
      "compressedFlag (hd (take 32 (drop 96 raw)))"
    using f(2,4) hd_drop_conv_nth [of 0 raw] by (simp_all add: proofFlags_def hd_drop_conv_nth)
  moreover have "length (take 32 raw) = 32" "length (take 64 (drop 32 raw)) = 64"
      "length (take 32 (drop 96 raw)) = 32" "length pts = n + 1"
    using f(2) by (simp_all add: pts_def)
  ultimately have "compressed_proof n raw" unfolding compressed_proof_def by (metis set_ConsD)
  with f(1) show "n \<le> 32762 \<and> compressed_proof n raw" by simp
next
  assume "n \<le> 32762 \<and> compressed_proof n raw"
  then obtain ar bs krs pts where n: "n \<le> 32762" and raw: "raw = ar @ bs @ krs @ be_bytes 4 n @ concat pts"
    and l: "length ar = 32" "length bs = 64" "length krs = 32" "length pts = n + 1"
    "\<forall>p \<in> set pts. length p = 32" and h: "\<forall>p \<in> set (ar # bs # krs # pts). compressedFlag (hd p)"
    by (auto simp: compressed_proof_def)
  have "compressedFlag (hd (pts ! i))" if "i < n + 1" for i using h l(4) that by simp
  then have "compressedFlag (raw ! (132 + i * 32))" if "i < n + 1" for i
    using that nth_concat_chunks [OF l(5), of i] l by (simp add: raw nth_append)
  moreover have "ar \<noteq> []" "bs \<noteq> []" "krs \<noteq> []" using l by auto
  ultimately have "proofFlags raw n"
    using h l by (auto simp: proofFlags_def raw nth_append hd_conv_nth)
  moreover have "length raw = 132 + 32 * (n + 1)" using l length_concat_chunks [OF l(5)] by (simp add: raw)
  moreover have "be_nat (take 4 (drop 128 raw)) = n" using l n by (simp add: raw)
  ultimately show "preflightProof raw (int n) = Inr ()" using n by (simp add: preflightProof_flags)
qed

section \<open>What the context check establishes\<close>

lemma NewVerificationContext_ok:
  "NewVerificationContext E p accounts issue k = Inr ctx \<longleftrightarrow>
     k \<noteq> 0 \<and> isOk (Accumulate E p accounts) \<and>
     vcParams ctx = p \<and> vcAccounts ctx = accounts \<and> vcIssue ctx = issue \<and> vcK ctx = k \<and>
     RingDigest E accounts = Inr (vcDigest ctx)"
  by (cases ctx) (auto simp: NewVerificationContext_def isOk_iff Accumulate_def)

lemma checkContext_ok_iff:
  "checkContext E ctx message st = Inr () \<longleftrightarrow>
     stIssue st = vcIssue ctx \<and> stK st = vcK ctx \<and> stMessageDigest st = Sum256 E message \<and>
     stRingDigest st = vcDigest ctx \<and> Accumulate E (vcParams ctx) (vcAccounts ctx) = Inr (stV st) \<and>
     goodBN E (stNym st) \<and> goodSecp E (stS st) \<and> goodSecp E (stT st) \<and>
     (\<exists>r. stR st = Some r \<and> 0 < r \<and> r < cOrder (SECP E) \<and> Challenge E st = Inr r)"
  by (auto simp: checkContext_def canonicalNonzero_iff)

lemma Verify_ok_iff:
  "Verify E G (Some v) ctx message sg = Inr () \<longleftrightarrow>
     (\<exists>vk. vfVK v = Some vk \<and> prVersion (sgProof sg) = CircuitVersion \<and>
       prCircuitHash (sgProof sg) = vfCircuitHash v \<and> prKeyID (sgProof sg) = vfKeyID v \<and>
       checkContext E ctx message (sgStatement sg) = Inr () \<and>
       prData (sgProof sg) \<noteq> [] \<and> length (prData (sgProof sg)) \<le> maxProofBytes \<and> vkNative vk \<and>
       preflightProof (prData (sgProof sg)) (vkCommitmentKeys vk) = Inr () \<and>
       (\<exists>pf a pub. gReadProof G (prData (sgProof sg)) = Inr (pf, 0) \<and>
         PublicAssignment E (vcParams ctx) (sgStatement sg) = Inr a \<and>
         gNewWitness G (publicOnly a) = Inr pub \<and> gVerify G pf vk pub = Inr ()))"
  by (auto simp: Verify_def Let_def split: option.splits)

lemma publicOnly_idem [simp]: "publicOnly (publicOnly c) = publicOnly c"
  by (simp add: publicOnly_def)

lemma Verify_None [simp]: "Verify E G None ctx message sg = Inl ''missing verifier''"
  by (simp add: Verify_def)

section \<open>What gnark documents\<close>

text \<open>
  Completeness of Groth16 for a key pair: a proof of a satisfied circuit has the
  compressed layout, decodes to itself with nothing left over, and verifies on the public
  part of the assignment.  Soundness: an accepted proof has a satisfying assignment with
  that public part.
\<close>

definition groth16_complete :: "env \<Rightarrow> gnark \<Rightarrow> ConstraintSystem \<Rightarrow> bytes \<Rightarrow> VerifyingKey \<Rightarrow> bool" where
  "groth16_complete E G cs pk vk \<longleftrightarrow>
     vkNative vk \<and>
     (\<forall>c w pf raw. Define E c \<and> gNewWitness G c = Inr w \<and> gProve G cs pk w = Inr pf \<and>
        gWriteProof G pf = Inr raw \<longrightarrow>
        (\<exists>n pub. vkCommitmentKeys vk = int n \<and> n \<le> 32762 \<and> compressed_proof n raw \<and>
           gReadProof G raw = Inr (pf, 0) \<and>
           gNewWitness G (publicOnly c) = Inr pub \<and> gVerify G pf vk pub = Inr ()))"

definition groth16_sound :: "env \<Rightarrow> gnark \<Rightarrow> VerifyingKey \<Rightarrow> bool" where
  "groth16_sound E G vk \<longleftrightarrow>
     (\<forall>c pf pub. gNewWitness G (publicOnly c) = Inr pub \<and> gVerify G pf vk pub = Inr () \<longrightarrow>
        (\<exists>c'. publicOnly c' = publicOnly c \<and> Define E c'))"

lemma compressed_proof_length: "compressed_proof n raw \<Longrightarrow> length raw = 132 + 32 * (n + 1)"
  by (auto simp: compressed_proof_def dest: length_concat_chunks)

lemma newBig_id [simp]: "newBig n = n"
  by (simp add: newBig_def split: option.splits)

lemma Challenge_stR [simp]: "Challenge E (st\<lparr>stR := r\<rparr>) = Challenge E st"
  by (simp add: Challenge_def challengeInput_def)

lemma MakeStatement_checks:
  assumes make: "MakeStatement E p accounts idx x d issue (Sum256 E message) ts k counter = Inr (st, w)"
    and ctx: "NewVerificationContext E p accounts issue k = Inr ctx"
  shows "checkContext E ctx message st = Inr ()"
proof (rule MakeStatement_ok [OF make], goal_cases)
  case f: (1 v mw rd s t bases r ut S T)
  have "0 < r \<and> r < cOrder (SECP E)" using f(17) by (auto simp: Challenge_def dest: HashScalar_range)
  moreover have "goodSecp E S" "goodSecp E T"
    using f(19) by (auto simp: statementTags_def Let_def split: option.splits)
  ultimately show ?case using f(10,12,15,17,20-28) ctx
    by (simp add: checkContext_ok_iff NewVerificationContext_ok)
qed

lemma MakeStatement_context:
  assumes "MakeStatement E p accounts idx x d issue md ts k counter = Inr (st, w)"
  obtains ctx where "NewVerificationContext E p accounts issue k = Inr ctx" "stTimestamp st = ts" "stK st = k"
proof (rule MakeStatement_ok [OF assms], goal_cases)
  case f: (1 v mw rd s t bases r ut S T)
  have "NewVerificationContext E p accounts issue k
      = Inr \<lparr>vcParams = p, vcAccounts = accounts, vcIssue = issue, vcK = k, vcDigest = rd\<rparr>"
    using f(2,11,13) by (auto simp: NewVerificationContext_def Accumulate_def)
  then show thesis using f(1,27,28) by blast
qed

lemma Prove_verifies:
  assumes laws: "group_laws E" "pairing_law E" "coord_laws E"
    and gn: "groth16_complete E G (prvCS pv) (prvPK pv) vk"
    and make: "MakeStatement E p accounts idx x d issue (Sum256 E message) ts k counter = Inr (st, w)"
    and fits: "fits_field E st"
    and prove: "Prove E G pv p st w = Inr sg"
    and ctx: "NewVerificationContext E p accounts issue k = Inr ctx"
  shows "Verify E G (Some \<lparr>vfVK = Some vk, vfCircuitHash = prvCircuitHash pv, vfKeyID = prvKeyID pv\<rparr>) ctx message sg
     = Inr ()"
proof -
  obtain c where c: "Assignment E p st w = Inr c" "Define E c"
    using MakeStatement_satisfies [OF laws make fits] .
  with prove obtain wi pf raw where pr: "gNewWitness G c = Inr wi" "gProve G (prvCS pv) (prvPK pv) wi = Inr pf"
    "gWriteProof G pf = Inr raw" and sg: "sgStatement sg = st" "prVersion (sgProof sg) = CircuitVersion"
    "prCircuitHash (sgProof sg) = prvCircuitHash pv" "prKeyID (sgProof sg) = prvKeyID pv" "prData (sgProof sg) = raw"
    by (auto simp: Prove_def)
  from gn pr c(2) obtain n pub where n: "vkCommitmentKeys vk = int n" "n \<le> 32762" "compressed_proof n raw"
    "gReadProof G raw = Inr (pf, 0)" "gNewWitness G (publicOnly c) = Inr pub" "gVerify G pf vk pub = Inr ()"
    and native: "vkNative vk"
    unfolding groth16_complete_def by blast
  have "preflightProof raw (vkCommitmentKeys vk) = Inr ()" using n by (simp add: preflightProof_iff)
  moreover have "raw \<noteq> []" "length raw \<le> maxProofBytes" using compressed_proof_length [OF n(3)] n(2) by auto
  moreover have "PublicAssignment E p st = Inr (publicOnly c)" by (rule publicOnly_Assignment [OF c(1)])
  moreover have "vcParams ctx = p" using ctx by (simp add: NewVerificationContext_ok)
  ultimately show ?thesis
    using MakeStatement_checks [OF make ctx] n sg native by (simp add: Verify_ok_iff)
qed

section \<open>Properties\<close>

text \<open>
  C14: \<open>preflightProof\<close> accepts exactly gnark's compressed layout for the trusted number of
  commitments: three points, the count, the commitments and the proof of knowledge, every
  point compressed and no byte missing or trailing.
\<close>

theorem preflightProof_exact:
  "preflightProof raw (int n) = Inr () \<longleftrightarrow> n \<le> 32762 \<and> compressed_proof n raw"
  by (rule preflightProof_iff)








end
