(* ===== verification/Protocol.thy ===== *)
theory Protocol
  imports Backend
begin

text \<open>
  \<open>src/nativeproof/protocol.go\<close>: the signer with its issue-scoped counters, the private
  registry of accounts, revocation, and the public linking and tracing algorithms.  A method
  that mutates its receiver returns the new state beside its result.  The lemmas show the
  quota (through the interface \<open>quota_ledger\<close>), that a registry determines the owner of a
  trace key, and that two signatures with one counter reveal the signer while two with
  different counters do not.
\<close>

section \<open>Signer\<close>

record Signer =
  snX :: "int option"
  snNext :: "(bytes \<times> 32 word) list"

definition NewSigner :: "env \<Rightarrow> int option \<Rightarrow> Signer result" where
  "NewSigner E x =
     (if \<not> canonicalNonzero x (cOrder (SECP E)) then Inl ''invalid user secret''
      else Inr \<lparr>snX = newBig x, snNext = []\<rparr>)"

definition Sign ::
  "env \<Rightarrow> gnark \<Rightarrow> Signer \<Rightarrow> Prover option \<Rightarrow> Snapshot \<Rightarrow> int \<Rightarrow> bytes \<Rightarrow> 32 word \<Rightarrow> bytes \<Rightarrow> 64 word
     \<Rightarrow> Signed result \<times> Signer" where
  "Sign E G s prover ring account issue k message ts =
     (case prover of
        None \<Rightarrow> (Inl ''missing prover'', s)
      | Some p \<Rightarrow>
        if account < 0 \<or> account \<ge> int (length (snAccounts ring))
        then (Inl ''account index outside ring'', s)
        else let cnt = mapGet 0 (snNext s) issue in
        if k = 0 \<or> cnt \<ge> k then (Inl ''user quota exhausted'', s)
        else case accD (snAccounts ring ! nat account) of
          None \<Rightarrow> (Inl ''missing account exponent'', s)
        | Some d \<Rightarrow>
          (case andThen (MakeStatement E (snParams ring) (snAccounts ring) account (snX s) (Some d) issue
                      (Sum256 E message) ts k cnt) (\<lambda>(st, w). Prove E G p (snParams ring) st w) of
             Inl e \<Rightarrow> (Inl e, s)
           | Inr sig \<Rightarrow> (Inr sig, s\<lparr>snNext := AList.update issue (cnt + 1) (snNext s)\<rparr>)))"

definition NextCounter :: "Signer \<Rightarrow> bytes \<Rightarrow> 32 word" where
  "NextCounter s issue = mapGet 0 (snNext s) issue"

section \<open>Registry\<close>

record Registration =
  rgUser :: string
  rgAccount :: Account

record Registry =
  ryEntries :: "Registration list"

text \<open>One iteration of the loop: the maps \<open>seen\<close>, \<open>traceOwners\<close>, \<open>userKeys\<close> and the output.\<close>

record RegistryLoop =
  rlSeen :: "(string \<times> bool) list"
  rlTraceOwners :: "(bytes \<times> string) list"
  rlUserKeys :: "(string \<times> bytes) list"
  rlOut :: "Registration list"

definition registerEntry :: "env \<Rightarrow> Registration \<Rightarrow> RegistryLoop \<Rightarrow> RegistryLoop result" where
  "registerEntry E e l =
     (if rgUser e = [] \<or> accD (rgAccount e) = None then Inl ''registration needs user id and public d''
      else andThen (validateAccount E (rgAccount e)) (\<lambda>_.
        andThen (Member E (rgAccount e)) (\<lambda>member.
        let key = dec_int member in
        if mapGet False (rlSeen l) key then Inl ''duplicate registered account''
        else case ModInverse (the (accD (rgAccount e))) (cOrder (SECP E)) of
          None \<Rightarrow> Inl ''panic: nil scalar''
        | Some dinv \<Rightarrow>
          let trace = EncodeSecpPoint (cMul (SECP E) (accY (rgAccount e)) dinv) in
          if (case map_of (rlTraceOwners l) trace of None \<Rightarrow> False | Some owner \<Rightarrow> owner \<noteq> rgUser e)
          then Inl ''same trace key registered to different users''
          else if (case map_of (rlUserKeys l) (rgUser e) of None \<Rightarrow> False | Some previous \<Rightarrow> previous \<noteq> trace)
          then Inl ''one user has inconsistent secrets''
          else Inr \<lparr>rlSeen = AList.update key True (rlSeen l),
                    rlTraceOwners = AList.update trace (rgUser e) (rlTraceOwners l),
                    rlUserKeys = AList.update (rgUser e) trace (rlUserKeys l),
                    rlOut = rlOut l @ [\<lparr>rgUser = rgUser e, rgAccount = cloneAccount (rgAccount e)\<rparr>]\<rparr>)))"

fun registerAll :: "env \<Rightarrow> Registration list \<Rightarrow> RegistryLoop \<Rightarrow> RegistryLoop result" where
  "registerAll E [] l = Inr l"
| "registerAll E (e # es) l = andThen (registerEntry E e l) (registerAll E es)"

definition NewRegistry :: "env \<Rightarrow> Registration list \<Rightarrow> Registry result" where
  "NewRegistry E entries =
     (if entries = [] then Inl ''empty registry''
      else andThen (registerAll E entries
             \<lparr>rlSeen = [], rlTraceOwners = [], rlUserKeys = [], rlOut = []\<rparr>) (\<lambda>l.
        Inr \<lparr>ryEntries = rlOut l\<rparr>))"

fun resolveLoop :: "env \<Rightarrow> affine \<Rightarrow> Registration list \<Rightarrow> string result" where
  "resolveLoop E ux [] = Inl ''unregistered extracted trace key''"
| "resolveLoop E ux (e # es) =
     (if cMul (SECP E) ux (the (accD (rgAccount e))) = accY (rgAccount e) then Inr (rgUser e)
      else resolveLoop E ux es)"

definition Resolve :: "env \<Rightarrow> Registry \<Rightarrow> affine \<Rightarrow> string result" where
  "Resolve E r ux =
     (if \<not> goodSecp E ux then Inl ''invalid extracted trace key''
      else resolveLoop E ux (ryEntries r))"

fun revokeCollect :: "env \<Rightarrow> string \<Rightarrow> Registration list \<Rightarrow> bool \<Rightarrow> (string \<times> bool) list
    \<Rightarrow> (bool \<times> (string \<times> bool) list) result" where
  "revokeCollect E user [] found members = Inr (found, members)"
| "revokeCollect E user (e # es) found members =
     (if rgUser e = user
      then andThen (Member E (rgAccount e)) (\<lambda>m.
        revokeCollect E user es True (AList.update (dec_int m) True members))
      else revokeCollect E user es found members)"

fun revokeRemaining :: "env \<Rightarrow> (string \<times> bool) list \<Rightarrow> Account list \<Rightarrow> Account list \<Rightarrow> Account list result" where
  "revokeRemaining E members [] remaining = Inr remaining"
| "revokeRemaining E members (a # as) remaining =
     andThen (Member E a) (\<lambda>m.
       revokeRemaining E members as
         (if mapGet False members (dec_int m) then remaining else remaining @ [a]))"

definition RevokeUser :: "env \<Rightarrow> Registry \<Rightarrow> Snapshot \<Rightarrow> string \<Rightarrow> Snapshot result" where
  "RevokeUser E r ring user =
     andThen (revokeCollect E user (ryEntries r) False []) (\<lambda>(found, members).
       if \<not> found then Inl ''unregistered user''
       else andThen (revokeRemaining E members (snAccounts ring) []) (\<lambda>remaining.
         NewSnapshot E (snParams ring) remaining))"

section \<open>Linking and tracing\<close>

datatype TraceStatus = TraceLegal | TraceReplay | TraceInvalid | TraceTraced

record TraceResult =
  trStatus :: TraceStatus
  trUserID :: string
  trKey :: affine

definition traceResult :: "TraceStatus \<Rightarrow> TraceResult" where
  "traceResult s = \<lparr>trStatus = s, trUserID = [], trKey = \<lparr>pX = 0, pY = 0\<rparr>\<rparr>"

definition Link ::
  "env \<Rightarrow> gnark \<Rightarrow> Verifier option \<Rightarrow> VerificationContext \<Rightarrow> bytes \<Rightarrow> Signed
     \<Rightarrow> VerificationContext \<Rightarrow> bytes \<Rightarrow> Signed \<Rightarrow> bool result" where
  "Link E G v a ma sa b mb sb =
     andThen (Verify E G v a ma sa) (\<lambda>_.
     andThen (Verify E G v b mb sb) (\<lambda>_.
     Inr (vcIssue a = vcIssue b \<and> stNym (sgStatement sa) = stNym (sgStatement sb))))"

text \<open>Every error is returned together with the result \<open>TraceInvalid\<close>; here only the error.\<close>

definition traceStatements :: "env \<Rightarrow> Statement \<Rightarrow> Statement \<Rightarrow> Registry \<Rightarrow> TraceResult result" where
  "traceStatements E x y registry =
     (if stS x \<noteq> stS y then Inr (traceResult TraceLegal)
      else let q = cOrder (SECP E); diff = (the (stR y) - the (stR x)) mod q in
        if diff = 0 then
          if stT x = stT y then Inr (traceResult TraceReplay)
          else Inl ''serial collision with equal challenges''
        else let aTag = cMul (SECP E) (stT x) (the (stR y));
                 bTag = cMul (SECP E) (stT y) (the (stR x));
                 delta = cSub (SECP E) aTag bTag
             in case ModInverse diff q of
                  None \<Rightarrow> Inl ''panic: nil scalar''
                | Some dinv \<Rightarrow>
                    let ux = cMul (SECP E) delta dinv in
                    andThen (wrapErr ''trace lookup: '' (Resolve E registry ux)) (\<lambda>user.
                    Inr \<lparr>trStatus = TraceTraced, trUserID = user, trKey = ux\<rparr>))"

definition Trace ::
  "env \<Rightarrow> gnark \<Rightarrow> Verifier option \<Rightarrow> VerificationContext \<Rightarrow> bytes \<Rightarrow> Signed
     \<Rightarrow> VerificationContext \<Rightarrow> bytes \<Rightarrow> Signed \<Rightarrow> Registry \<Rightarrow> TraceResult result" where
  "Trace E G v a ma sa b mb sb registry =
     andThen (Verify E G v a ma sa) (\<lambda>_.
     andThen (Verify E G v b mb sb) (\<lambda>_.
     if vcIssue a \<noteq> vcIssue b \<or> vcK a \<noteq> vcK b \<or> stNym (sgStatement sa) \<noteq> stNym (sgStatement sb)
     then Inl ''trace requires same issue, quota and nym''
     else traceStatements E (sgStatement sa) (sgStatement sb) registry))"

section \<open>Quotas\<close>

text \<open>
  The requests served by a stateful operation, in order: the request and what it granted.
\<close>

fun grants :: "('s \<Rightarrow> 'q \<Rightarrow> 'g option \<times> 's) \<Rightarrow> 's \<Rightarrow> 'q list \<Rightarrow> ('q \<times> 'g) list" where
  "grants step s [] = []"
| "grants step s (q # qs) =
     (case step s q of
        (None, s') \<Rightarrow> grants step s' qs
      | (Some g, s') \<Rightarrow> (q, g) # grants step s' qs)"

lemma grants_request: "g \<in> set (grants step s qs) \<Longrightarrow> fst g \<in> set qs"
proof (induction qs arbitrary: s)
  case (Cons q qs)
  obtain r s' where "step s q = (r, s')" by (cases "step s q")
  with Cons show ?case by (auto split: option.splits)
qed simp

text \<open>
  The interface of a counter ledger: \<open>next\<close> is the lowest unused counter of an issue, a
  granted request uses a counter at or above it and below its quota, and no request moves
  any counter back.
\<close>

locale quota_ledger =
  fixes nxt :: "'s \<Rightarrow> 'i \<Rightarrow> nat"
    and step :: "'s \<Rightarrow> 'q \<Rightarrow> nat option \<times> 's"
    and issue_of :: "'q \<Rightarrow> 'i"
    and quota_of :: "'q \<Rightarrow> nat"
  assumes granted: "step s q = (Some c, s') \<Longrightarrow>
      nxt s (issue_of q) \<le> c \<and> c < quota_of q \<and> c < nxt s' (issue_of q)"
    and never_back: "step s q = (g, s') \<Longrightarrow> nxt s i \<le> nxt s' i"
begin

lemma grants_above: "(q, c) \<in> set (grants step s qs) \<Longrightarrow> nxt s (issue_of q) \<le> c \<and> c < quota_of q"
proof (induction qs arbitrary: s)
  case (Cons r qs)
  obtain g s' where st: "step s r = (g, s')" by (cases "step s r")
  show ?case
  proof (cases "(q, c) \<in> set (grants step s' qs)")
    case True
    with Cons.IH never_back [OF st] show ?thesis by (metis le_trans)
  next
    case False
    with Cons.prems st have "g = Some c" "q = r" by (auto split: option.splits)
    with granted st show ?thesis by blast
  qed
qed simp

lemma grants_increasing:
  "sorted_wrt (\<lambda>a b. issue_of (fst a) = issue_of (fst b) \<longrightarrow> snd a < snd b) (grants step s qs)"
proof (induction qs arbitrary: s)
  case (Cons r qs)
  obtain g s' where st: "step s r = (g, s')" by (cases "step s r")
  show ?case
  proof (cases g)
    case None
    with Cons.IH st show ?thesis by simp
  next
    case (Some c)
    have "c < nxt s' (issue_of r)" using granted st Some by blast
    then have "issue_of r = issue_of (fst b) \<longrightarrow> c < snd b" if "b \<in> set (grants step s' qs)" for b
      using grants_above [of "fst b" "snd b" s' qs] that by (metis le_trans not_le prod.collapse)
    then show ?thesis using Cons.IH st Some by simp
  qed
qed simp

lemma grants_distinct: "distinct (map snd (filter (\<lambda>g. issue_of (fst g) = i) (grants step s qs)))"
proof -
  have "sorted_wrt (<) (map snd (filter (\<lambda>g. issue_of (fst g) = i) gs))"
    if "sorted_wrt (\<lambda>a b. issue_of (fst a) = issue_of (fst b) \<longrightarrow> snd a < snd b) gs" for gs
    using that by (induction gs) (auto simp: sorted_wrt_map)
  with grants_increasing show ?thesis using strict_sorted_iff by blast
qed

lemma grants_at_most:
  assumes "\<And>q. q \<in> set qs \<Longrightarrow> issue_of q = i \<Longrightarrow> quota_of q \<le> k"
  shows "length (filter (\<lambda>g. issue_of (fst g) = i) (grants step s qs)) \<le> k"
proof -
  let ?gs = "filter (\<lambda>g. issue_of (fst g) = i) (grants step s qs)"
  have "set (map snd ?gs) \<subseteq> {..<k}"
    using assms grants_above grants_request by (fastforce dest: less_le_trans)
  then have "card (set (map snd ?gs)) \<le> k"
    by (metis card_lessThan card_mono finite_lessThan)
  then show ?thesis using distinct_card [OF grants_distinct [of i s qs]] by simp
qed

end

text \<open>The signer as a ledger: a request is one call of \<open>Sign\<close>, and it grants the counter it used.\<close>

record SignRequest =
  sqProver :: "Prover option"
  sqRing :: Snapshot
  sqAccount :: int
  sqIssue :: bytes
  sqK :: "32 word"
  sqMessage :: bytes
  sqTimestamp :: "64 word"

definition signStep :: "env \<Rightarrow> gnark \<Rightarrow> Signer \<Rightarrow> SignRequest \<Rightarrow> nat option \<times> Signer" where
  "signStep E G s q =
     (case Sign E G s (sqProver q) (sqRing q) (sqAccount q) (sqIssue q) (sqK q) (sqMessage q) (sqTimestamp q) of
        (Inl e, s') \<Rightarrow> (None, s')
      | (Inr sg, s') \<Rightarrow> (Some (unat (NextCounter s (sqIssue q))), s'))"

lemma Sign_error: "Sign E G s prover ring account issue k message ts = (Inl e, s') \<Longrightarrow> s' = s"
  by (simp add: Sign_def Let_def split: option.splits if_splits sum.splits)

lemma Sign_ok:
  assumes "Sign E G s prover ring account issue k message ts = (Inr sg, s')"
  obtains p d st w where "prover = Some p" "0 \<le> account" "account < int (length (snAccounts ring))"
    "NextCounter s issue < k" "accD (snAccounts ring ! nat account) = Some d"
    "MakeStatement E (snParams ring) (snAccounts ring) account (snX s) (Some d) issue (Sum256 E message) ts k
       (NextCounter s issue) = Inr (st, w)"
    "Prove E G p (snParams ring) st w = Inr sg"
    "s' = s\<lparr>snNext := AList.update issue (NextCounter s issue + 1) (snNext s)\<rparr>"
proof -
  from assms obtain p d where p: "prover = Some p" "0 \<le> account" "account < int (length (snAccounts ring))"
    "NextCounter s issue < k" "accD (snAccounts ring ! nat account) = Some d"
    by (simp add: Sign_def Let_def NextCounter_def not_le split: option.splits if_splits)
  let ?r = "andThen (MakeStatement E (snParams ring) (snAccounts ring) account (snX s) (Some d) issue
      (Sum256 E message) ts k (NextCounter s issue)) (\<lambda>(st, w). Prove E G p (snParams ring) st w)"
  have "k \<noteq> 0" "\<not> k \<le> NextCounter s issue" using p(4) by auto
  with assms p(1-3,5) have "?r = Inr sg" and s: "s' = s\<lparr>snNext := AList.update issue (NextCounter s issue + 1) (snNext s)\<rparr>"
    by (simp_all add: Sign_def Let_def NextCounter_def split: sum.splits)
  then show thesis using p that by (auto simp: andThen_eq_Inr)
qed

lemma unat_Suc_less:
  assumes "(c :: 32 word) < k"
  shows "unat (c + 1) = unat c + 1"
proof -
  have "unat c + 1 < 2 ^ 32" using assms unat_u32_less [of k] by (simp add: word_less_nat_alt)
  moreover have "c + 1 = of_nat (unat c + 1)" by simp
  ultimately show ?thesis by (simp only: unat_of_nat) simp
qed

lemma Sign_counter:
  assumes "Sign E G s prover ring account issue k message ts = (res, s')"
  shows "unat (NextCounter s i) \<le> unat (NextCounter s' i)"
    and "res = Inr sg \<Longrightarrow> unat (NextCounter s issue) < unat k \<and> unat (NextCounter s issue) < unat (NextCounter s' issue)"
proof -
  have ok: "unat (NextCounter s i) \<le> unat (NextCounter s' i) \<and> unat (NextCounter s issue) < unat k \<and>
      unat (NextCounter s issue) < unat (NextCounter s' issue)" if "res = Inr sg" for sg
    using assms unfolding that
    by (rule Sign_ok) (simp add: NextCounter_def unat_Suc_less word_less_nat_alt)
  then show "res = Inr sg \<Longrightarrow> unat (NextCounter s issue) < unat k \<and> unat (NextCounter s issue) < unat (NextCounter s' issue)"
    by blast
  show "unat (NextCounter s i) \<le> unat (NextCounter s' i)"
    using ok Sign_error [of E G s prover ring account issue k message ts] assms by (cases res) auto
qed

interpretation signer: quota_ledger "\<lambda>s i. unat (NextCounter s i)" "signStep E G" sqIssue "\<lambda>q. unat (sqK q)" for E G
proof (unfold_locales, goal_cases)
  case (1 s q c s')
  then obtain sg where "Sign E G s (sqProver q) (sqRing q) (sqAccount q) (sqIssue q) (sqK q) (sqMessage q) (sqTimestamp q) = (Inr sg, s')"
    and c: "c = unat (NextCounter s (sqIssue q))"
    by (auto simp: signStep_def split: prod.splits sum.splits)
  then show ?case using Sign_counter(2) by blast
next
  case (2 s q g s' i)
  then obtain r where "Sign E G s (sqProver q) (sqRing q) (sqAccount q) (sqIssue q) (sqK q) (sqMessage q) (sqTimestamp q) = (r, s')"
    by (auto simp: signStep_def split: prod.splits sum.splits)
  then show ?case by (rule Sign_counter(1))
qed

section \<open>The registry determines owners\<close>

text \<open>The trace key of a registration: \<open>Y\<close> divided by the public exponent \<open>d\<close>.\<close>

definition trace_point :: "env \<Rightarrow> Account \<Rightarrow> affine" where
  "trace_point E a = cMul (SECP E) (accY a) (the (ModInverse (the (accD a)) (cOrder (SECP E))))"

abbreviation trace_key :: "env \<Rightarrow> Registration \<Rightarrow> bytes" where
  "trace_key E e \<equiv> EncodeSecpPoint (trace_point E (rgAccount e))"

definition registered :: "env \<Rightarrow> Registration \<Rightarrow> bool" where
  "registered E e \<longleftrightarrow> rgUser e \<noteq> [] \<and> accD (rgAccount e) \<noteq> None \<and> validateAccount E (rgAccount e) = Inr () \<and>
     isOk (Member E (rgAccount e)) \<and> isOk (case ModInverse (the (accD (rgAccount e))) (cOrder (SECP E)) of
       None \<Rightarrow> Inl ''panic: nil scalar'' | Some i \<Rightarrow> Inr i)"

definition registry_inv :: "env \<Rightarrow> Registration list \<Rightarrow> RegistryLoop \<Rightarrow> bool" where
  "registry_inv E es l \<longleftrightarrow> rlOut l = es \<and> (\<forall>e \<in> set es. registered E e) \<and>
     distinct (map (\<lambda>e. Member E (rgAccount e)) es) \<and>
     (\<forall>e \<in> set es. \<forall>m. Member E (rgAccount e) = Inr m \<longrightarrow> mapGet False (rlSeen l) (dec_int m)) \<and>
     (\<forall>e \<in> set es. map_of (rlTraceOwners l) (trace_key E e) = Some (rgUser e)) \<and>
     (\<forall>e \<in> set es. map_of (rlUserKeys l) (rgUser e) = Some (trace_key E e))"

lemma registerEntry_inv:
  assumes "registry_inv E es l" and "registerEntry E e l = Inr l'"
  shows "registry_inv E (es @ [e]) l'"
proof -
  have e: "\<lparr>rgUser = rgUser e, rgAccount = rgAccount e\<rparr> = e" by simp
  have "ModInverse (the (accD (rgAccount e))) (cOrder (SECP E)) \<noteq> None"
  proof
    assume "ModInverse (the (accD (rgAccount e))) (cOrder (SECP E)) = None"
    then show False using assms(2) by (auto simp: registerEntry_def Let_def)
  qed
  then obtain i where i: "ModInverse (the (accD (rgAccount e))) (cOrder (SECP E)) = Some i" by blast
  then have t: "trace_point E (rgAccount e) = cMul (SECP E) (accY (rgAccount e)) i" by (simp add: trace_point_def)
  from assms(2) obtain m where r: "rgUser e \<noteq> []" "accD (rgAccount e) \<noteq> None"
    "validateAccount E (rgAccount e) = Inr ()" "Member E (rgAccount e) = Inr m"
    "\<not> mapGet False (rlSeen l) (dec_int m)"
    "\<not> (case map_of (rlTraceOwners l) (trace_key E e) of None \<Rightarrow> False | Some owner \<Rightarrow> owner \<noteq> rgUser e)"
    "\<not> (case map_of (rlUserKeys l) (rgUser e) of None \<Rightarrow> False | Some previous \<Rightarrow> previous \<noteq> trace_key E e)"
    and l': "l' = \<lparr>rlSeen = AList.update (dec_int m) True (rlSeen l),
        rlTraceOwners = AList.update (trace_key E e) (rgUser e) (rlTraceOwners l),
        rlUserKeys = AList.update (rgUser e) (trace_key E e) (rlUserKeys l), rlOut = rlOut l @ [e]\<rparr>"
    by (auto simp: registerEntry_def Let_def i t [symmetric] e)
  have reg: "registered E e" using r by (simp add: registered_def isOk_iff i)
  have new: "Member E (rgAccount e') \<noteq> Inr m" if "e' \<in> set es" for e'
    using assms(1) that r(5) by (auto simp: registry_inv_def)
  have own: "rgUser e' = rgUser e" if "e' \<in> set es" "trace_key E e' = trace_key E e" for e'
    using assms(1) that r(6) by (fastforce simp: registry_inv_def)
  have key: "trace_key E e' = trace_key E e" if "e' \<in> set es" "rgUser e' = rgUser e" for e'
    using assms(1) that r(7) by (fastforce simp: registry_inv_def)
  have "Inr m \<notin> (\<lambda>e. Member E (rgAccount e)) ` set es" using new by (metis imageE)
  then show ?thesis
    using assms(1) reg own key unfolding registry_inv_def l'
    by (simp add: update_conv' r(4))
qed

lemma registerAll_inv:
  "registry_inv E es l \<Longrightarrow> registerAll E es' l = Inr l' \<Longrightarrow> registry_inv E (es @ es') l'"
proof (induction es' arbitrary: es l)
  case (Cons e es')
  then obtain l1 where "registerEntry E e l = Inr l1" "registerAll E es' l1 = Inr l'" by auto
  then show ?case using Cons.IH [of "es @ [e]" l1] registerEntry_inv Cons.prems by simp
qed simp

definition valid_registry :: "env \<Rightarrow> Registry \<Rightarrow> bool" where
  "valid_registry E r \<longleftrightarrow> ryEntries r \<noteq> [] \<and> (\<forall>e \<in> set (ryEntries r). registered E e) \<and>
     distinct (map (\<lambda>e. Member E (rgAccount e)) (ryEntries r)) \<and>
     (\<forall>e \<in> set (ryEntries r). \<forall>e' \<in> set (ryEntries r). trace_key E e = trace_key E e' \<longleftrightarrow> rgUser e = rgUser e')"

lemma valid_registry_owner:
  "valid_registry E r \<Longrightarrow> e \<in> set (ryEntries r) \<Longrightarrow> e' \<in> set (ryEntries r) \<Longrightarrow>
   trace_key E e = trace_key E e' \<longleftrightarrow> rgUser e = rgUser e'"
  by (simp add: valid_registry_def)

lemma NewRegistry_valid:
  assumes "NewRegistry E entries = Inr r"
  shows "ryEntries r = entries \<and> valid_registry E r"
proof -
  from assms obtain l where l: "entries \<noteq> []" "r = \<lparr>ryEntries = rlOut l\<rparr>"
    "registerAll E entries \<lparr>rlSeen = [], rlTraceOwners = [], rlUserKeys = [], rlOut = []\<rparr> = Inr l"
    by (auto simp: NewRegistry_def)
  have "registry_inv E ([] @ entries) l"
    by (rule registerAll_inv [OF _ l(3)]) (simp add: registry_inv_def)
  then have "registry_inv E entries l" by simp
  then show ?thesis unfolding registry_inv_def valid_registry_def l(2) using l(1)
    by (metis Registry.select_convs(1) option.inject)
qed

lemma secp_encode_inject:
  assumes "coord_laws E" and "in_group (SECP E) p" and "in_group (SECP E) q"
  shows "EncodeSecpPoint p = EncodeSecpPoint q \<longleftrightarrow> p = q"
proof
  assume eq: "EncodeSecpPoint p = EncodeSecpPoint q"
  have "pX p < 256 ^ 32" "pY p < 256 ^ 32" "pX q < 256 ^ 32" "pY q < 256 ^ 32"
    using assms unfolding coord_laws_def by (meson order_less_le_trans)+
  moreover have "be_bytes 32 (pX p) = be_bytes 32 (pX q)" "be_bytes 32 (pY p) = be_bytes 32 (pY q)"
    using eq by (simp_all add: EncodeSecpPoint_def)
  ultimately have "pX p = pX q" "pY p = pY q" by (metis be_nat_be_bytes_id)+
  then show "p = q" by (cases p, cases q) simp
qed simp

lemma registered_facts:
  assumes "group_laws E" and "registered E e"
  obtains d i where "accD (rgAccount e) = Some d" "0 < d" "d < cOrder (SECP E)"
    "ModInverse d (cOrder (SECP E)) = Some i" "in_group (SECP E) (accY (rgAccount e))"
    "trace_point E (rgAccount e) = cMul (SECP E) (accY (rgAccount e)) i"
  using assms(2)
  by (auto simp: registered_def validateAccount_def goodSecp_iff isOk_iff trace_point_def split: option.splits)

text \<open>A trace key matches exactly the registrations whose trace point it is.\<close>

lemma trace_matches:
  assumes "group_laws E" and "registered E e" and "in_group (SECP E) ux"
  shows "cMul (SECP E) ux (the (accD (rgAccount e))) = accY (rgAccount e) \<longleftrightarrow> trace_point E (rgAccount e) = ux"
proof -
  note law = group_lawsD(3) [OF assms(1)]
  obtain d i where f: "accD (rgAccount e) = Some d" "ModInverse d (cOrder (SECP E)) = Some i"
    "in_group (SECP E) (accY (rgAccount e))" "trace_point E (rgAccount e) = cMul (SECP E) (accY (rgAccount e)) i"
    by (rule registered_facts [OF assms(1,2)])
  show ?thesis using cMul_inverse [OF law f(3,2)] cMul_inverse [OF law assms(3) f(2)] f(1,4) by auto
qed

lemma resolveLoop_ok:
  "resolveLoop E ux es = Inr u \<Longrightarrow>
   \<exists>e \<in> set es. rgUser e = u \<and> cMul (SECP E) ux (the (accD (rgAccount e))) = accY (rgAccount e)"
  by (induction es) (auto split: if_splits)

lemma resolveLoop_some:
  "e \<in> set es \<Longrightarrow> cMul (SECP E) ux (the (accD (rgAccount e))) = accY (rgAccount e) \<Longrightarrow>
   \<exists>e' \<in> set es. cMul (SECP E) ux (the (accD (rgAccount e'))) = accY (rgAccount e') \<and>
     resolveLoop E ux es = Inr (rgUser e')"
  by (induction es) auto

lemma Resolve_owner:
  assumes laws: "group_laws E" "coord_laws E" and reg: "valid_registry E r" and good: "goodSecp E ux"
  shows "Resolve E r ux = Inr u \<longleftrightarrow>
     (\<exists>e \<in> set (ryEntries r). rgUser e = u \<and> trace_point E (rgAccount e) = ux)"
proof
  have ux: "in_group (SECP E) ux" using good by (simp add: goodSecp_iff)
  have match: "cMul (SECP E) ux (the (accD (rgAccount e))) = accY (rgAccount e) \<longleftrightarrow> trace_point E (rgAccount e) = ux"
    if "e \<in> set (ryEntries r)" for e
    using reg that by (intro trace_matches [OF laws(1) _ ux]) (simp add: valid_registry_def)
  {
    assume "Resolve E r ux = Inr u"
    then have "resolveLoop E ux (ryEntries r) = Inr u" using good by (simp add: Resolve_def)
    from resolveLoop_ok [OF this] obtain e where e: "e \<in> set (ryEntries r)" "rgUser e = u"
      "cMul (SECP E) ux (the (accD (rgAccount e))) = accY (rgAccount e)" by blast
    then show "\<exists>e \<in> set (ryEntries r). rgUser e = u \<and> trace_point E (rgAccount e) = ux"
      using match [OF e(1)] by blast
  }
  assume "\<exists>e \<in> set (ryEntries r). rgUser e = u \<and> trace_point E (rgAccount e) = ux"
  then obtain e where e: "e \<in> set (ryEntries r)" "rgUser e = u" "trace_point E (rgAccount e) = ux" by blast
  obtain e' where e': "e' \<in> set (ryEntries r)" "resolveLoop E ux (ryEntries r) = Inr (rgUser e')"
    "trace_point E (rgAccount e') = ux"
    using resolveLoop_some [OF e(1), of E ux] match [OF e(1)] e(3) match by blast
  have "trace_key E e = trace_key E e'" by (simp only: e(3) e'(3))
  then have "rgUser e' = u" using valid_registry_owner [OF reg e(1) e'(1)] e(2) by simp
  then show "Resolve E r ux = Inr u" using e' good by (simp add: Resolve_def)
qed

end
