(* ===== verification/Tracing.thy ===== *)
theory Tracing
  imports Protocol
begin

text \<open>
  What a serial, a tag and a pseudonym say about their signer.  An opening of a statement
  is a secret and a counter that explain it; the statements \<open>MakeStatement\<close> builds have
  one, and so has every statement whose proof verifies under a sound proof system.  Two
  statements of one issue with one secret share the pseudonym, share the serial exactly when
  their counters agree, and then their tags reveal the trace key and no more is needed to
  find the owner in the registry.
\<close>

section \<open>Openings\<close>

definition opens :: "env \<Rightarrow> Statement \<Rightarrow> int \<Rightarrow> 32 word \<Rightarrow> bool" where
  "opens E st x n \<longleftrightarrow> 0 < x \<and> x < cOrder (SECP E) \<and>
     (\<exists>s t bases r ut. Seeds E (Some x) (stIssue st) = Inr (s, t) \<and> Bases E = Inr bases \<and>
        stNym st = nymSum E bases [s, t, x] (cInf (BN E)) \<and>
        stR st = Some r \<and> IssueBase E (stIssue st) = Inr ut \<and>
        statementTags E x s t r n ut = Inr (stS st, stT st))"

lemma MakeStatement_opening:
  assumes "MakeStatement E p accounts idx (Some x) d issue md ts k counter = Inr (st, w)"
  shows "opens E st x counter"
proof (rule MakeStatement_ok [OF assms], goal_cases)
  case f: (1 v mw rd s t bases r ut S T)
  have "0 < x \<and> x < cOrder (SECP E)" using f(5) by simp
  moreover have "Seeds E (Some x) (stIssue st) = Inr (s, t)" "IssueBase E (stIssue st) = Inr ut"
    "stNym st = nymSum E bases [s, t, x] (cInf (BN E))" "statementTags E x s t r counter ut = Inr (stS st, stT st)"
    using f(13,16,18,19,21-23) by (simp_all only: option.sel)
  ultimately show ?case unfolding opens_def using f(14,28) by blast
qed

lemma statementTags_exp:
  assumes "group_laws E" and "in_group (SECP E) ut" and "statementTags E x s t r n ut = Inr (S, T)"
  obtains i j where
    "ModInverse ((s + (int (unat n) + 1)) mod cOrder (SECP E)) (cOrder (SECP E)) = Some i"
    "ModInverse ((t + (int (unat n) + 1)) mod cOrder (SECP E)) (cOrder (SECP E)) = Some j"
    "S = cMul (SECP E) ut i"
    "T = cAdd (SECP E) (cMul (SECP E) (cGen (SECP E)) x) (cMul (SECP E) ut ((r * j) mod cOrder (SECP E)))"
    "goodSecp E S" "goodSecp E T"
  using assms(3) by (auto simp: statementTags_def Let_def split: option.splits)

lemma statementTags_value:
  assumes "ModInverse ((s + (int (unat n) + 1)) mod cOrder (SECP E)) (cOrder (SECP E)) = Some i"
    and "ModInverse ((t + (int (unat n) + 1)) mod cOrder (SECP E)) (cOrder (SECP E)) = Some j"
    and "statementTags E x s t r n ut = Inr (S, T)"
  shows "S = cMul (SECP E) ut i"
    and "T = cAdd (SECP E) (cMul (SECP E) (cGen (SECP E)) x) (cMul (SECP E) ut ((r * j) mod cOrder (SECP E)))"
  using assms by (auto simp: statementTags_def Let_def)

lemma opening_linked:
  assumes "opens E a x n" and "opens E b x m" and "stIssue a = stIssue b"
  shows "stNym a = stNym b"
  using assms by (auto simp: opens_def)

text \<open>Equal serials mean equal counters, as long as the counters are below the group order.\<close>

lemma cMul_gen_cancel:
  assumes "curve_laws C" and "in_group C p" and "p \<noteq> cInf C" and "cMul C p i = cMul C p j"
  shows "i mod cOrder C = j mod cOrder C"
proof -
  obtain a where a: "p = cMul C (cGen C) a" by (rule in_group_exp [OF assms(1,2)])
  with assms(3) have nz: "\<not> cOrder C dvd a"
    by (simp add: cMul_gen_inf_iff [OF assms(1)] mod_eq_0_iff_dvd)
  have "(a * i) mod cOrder C = (a * j) mod cOrder C"
    using assms(4) by (simp add: a curve_exp [OF assms(1)] cMul_gen_eq_iff [OF assms(1)])
  then have "cOrder C dvd a * (i - j)" by (simp add: mod_eq_dvd_iff right_diff_distrib)
  then have "cOrder C dvd i - j"
    using nz prime_modulus_dvd_mult [OF curve_prime [OF assms(1)]] by blast
  then show ?thesis by (simp add: mod_eq_dvd_iff)
qed

lemma ModInverse_injective:
  assumes "1 < q" and "ModInverse a q = Some i" and "ModInverse b q = Some j" and "i mod q = j mod q"
  shows "a mod q = b mod q"
proof -
  note ai = ModInverse_Some [OF assms(2,1)] and bj = ModInverse_Some [OF assms(3,1)]
  then have ij: "i = j" using assms(4) by simp
  have "a mod q = (a * (b * j)) mod q" using bj by (metis mod_mult_right_eq mult.right_neutral)
  also have "\<dots> = ((a * i) * b) mod q" by (simp add: ij mult_ac)
  also have "\<dots> = b mod q" using ai by (metis mod_mult_left_eq mult_1)
  finally show ?thesis .
qed

lemma offset_mod_cancel: "(s + (a + 1)) mod q = (s + (b + 1)) mod q \<Longrightarrow> a mod q = b mod (q :: int)"
  by (simp add: mod_eq_dvd_iff)

lemma opening_serial:
  assumes laws: "group_laws E"
    and a: "opens E a x n" and b: "opens E b x m" and issue: "stIssue a = stIssue b"
    and small: "int (unat n) < cOrder (SECP E)" "int (unat m) < cOrder (SECP E)"
  shows "stS a = stS b \<longleftrightarrow> n = m"
proof
  note law = group_lawsD(3) [OF laws]
  from a obtain s t r ut where s: "Seeds E (Some x) (stIssue a) = Inr (s, t)"
    "IssueBase E (stIssue a) = Inr ut" "statementTags E x s t r n ut = Inr (stS a, stT a)"
    by (auto simp: opens_def)
  with b issue obtain r' where s': "statementTags E x s t r' m ut = Inr (stS b, stT b)"
    by (auto simp: opens_def)
  have ut: "in_group (SECP E) ut" "ut \<noteq> cInf (SECP E)" using s(2) by (auto simp: IssueBase_def goodSecp_iff)
  obtain i i' where i: "ModInverse ((s + (int (unat n) + 1)) mod cOrder (SECP E)) (cOrder (SECP E)) = Some i"
    "stS a = cMul (SECP E) ut i"
    "ModInverse ((t + (int (unat n) + 1)) mod cOrder (SECP E)) (cOrder (SECP E)) = Some i'" by (rule statementTags_exp [OF laws ut(1) s(3)])
  obtain j where j: "ModInverse ((s + (int (unat m) + 1)) mod cOrder (SECP E)) (cOrder (SECP E)) = Some j"
    "stS b = cMul (SECP E) ut j" by (rule statementTags_exp [OF laws ut(1) s'])
  {
    assume "stS a = stS b"
    then have "cMul (SECP E) ut i = cMul (SECP E) ut j" by (simp only: i(2) j(2))
    then have "i mod cOrder (SECP E) = j mod cOrder (SECP E)" by (rule cMul_gen_cancel [OF law ut])
    from ModInverse_injective [OF curve_order_gt1 [OF law] i(1) j(1) this]
    have "(s + (int (unat n) + 1)) mod cOrder (SECP E) = (s + (int (unat m) + 1)) mod cOrder (SECP E)"
      by (simp only: mod_mod_trivial)
    then have "int (unat n) mod cOrder (SECP E) = int (unat m) mod cOrder (SECP E)"
      by (rule offset_mod_cancel)
    then have "unat n = unat m" using small by (metis mod_pos_pos_trivial of_nat_0_le_iff of_nat_eq_iff)
    then show "n = m" by (simp only: word_unat_eq_iff)
  }
  assume "n = m"
  with s' have "statementTags E x s t r' n ut = Inr (stS b, stT b)" by (simp only:)
  from statementTags_value(1) [OF i(1,3) this] show "stS a = stS b" by (simp only: i(2))
qed

text \<open>The tag equation: two tags with one counter and different challenges give \<open>u^x\<close>.\<close>

lemma trace_equation:
  assumes law: "curve_laws C" and ut: "in_group C ut"
    and T: "T = cAdd C (cMul C (cGen C) x) (cMul C ut ((r * j) mod cOrder C))"
    and T': "T' = cAdd C (cMul C (cGen C) x) (cMul C ut ((r' * j) mod cOrder C))"
    and inv: "ModInverse ((r' - r) mod cOrder C) (cOrder C) = Some i"
  shows "cMul C (cSub C (cMul C T r') (cMul C T' r)) i = cMul C (cGen C) x"
proof -
  let ?q = "cOrder C"
  obtain u where u: "ut = cMul C (cGen C) u" by (rule in_group_exp [OF law ut])
  have Te: "T = cMul C (cGen C) (x + u * (r * j))" "T' = cMul C (cGen C) (x + u * (r' * j))"
    unfolding T T' cMul_mod [OF law ut] by (simp_all add: u curve_exp [OF law])
  have "((r' - r) mod ?q * i) mod ?q = 1"
    using ModInverse_Some [OF inv curve_order_gt1 [OF law]] by simp
  then have "((r' - r) * i) mod ?q = 1" by (simp add: mod_mult_left_eq)
  then have m: "(x * ((r' - r) * i)) mod ?q = x mod ?q" by (metis mod_mult_right_eq mult.right_neutral)
  have e: "((x + u * (r * j)) * r' - (x + u * (r' * j)) * r) * i = x * ((r' - r) * i)"
    by (simp add: algebra_simps)
  show ?thesis unfolding Te curve_exp [OF law] cMul_gen_eq_iff [OF law] e by (rule m)
qed

lemma traceStatements_traced:
  assumes laws: "group_laws E" "coord_laws E"
    and a: "opens E a x n" and b: "opens E b x n" and issue: "stIssue a = stIssue b"
    and R: "stR a = Some r" "stR b = Some r'" "r mod cOrder (SECP E) \<noteq> r' mod cOrder (SECP E)"
    and reg: "valid_registry E ry" "e \<in> set (ryEntries ry)"
      "trace_point E (rgAccount e) = cMul (SECP E) (cGen (SECP E)) x"
  shows "traceStatements E a b ry
     = Inr \<lparr>trStatus = TraceTraced, trUserID = rgUser e, trKey = cMul (SECP E) (cGen (SECP E)) x\<rparr>"
proof -
  note law = group_lawsD(3) [OF laws(1)]
  let ?q = "cOrder (SECP E)" and ?ux = "cMul (SECP E) (cGen (SECP E)) x"
  from a obtain s t ut where s: "Seeds E (Some x) (stIssue a) = Inr (s, t)" "0 < x" "x < ?q"
    "IssueBase E (stIssue a) = Inr ut" "statementTags E x s t r n ut = Inr (stS a, stT a)"
    using R(1) by (auto simp: opens_def)
  with b issue R(2) have s': "statementTags E x s t r' n ut = Inr (stS b, stT b)"
    by (auto simp: opens_def)
  have ut: "in_group (SECP E) ut" using s(4) by (auto simp: IssueBase_def goodSecp_iff)
  obtain i j where ij: "ModInverse ((s + (int (unat n) + 1)) mod ?q) ?q = Some i"
    "ModInverse ((t + (int (unat n) + 1)) mod ?q) ?q = Some j" "stS a = cMul (SECP E) ut i"
    "stT a = cAdd (SECP E) ?ux (cMul (SECP E) ut ((r * j) mod ?q))"
    by (rule statementTags_exp [OF laws(1) ut s(5)])
  have ij': "stS b = cMul (SECP E) ut i" "stT b = cAdd (SECP E) ?ux (cMul (SECP E) ut ((r' * j) mod ?q))"
    by (rule statementTags_value [OF ij(1,2) s'])+
  have diff: "(r' - r) mod ?q \<noteq> 0" using R(3) by (metis dvd_imp_mod_0 mod_0_imp_dvd mod_eq_dvd_iff)
  then obtain d where d: "ModInverse ((r' - r) mod ?q) ?q = Some d"
    using ModInverse_prime [OF curve_prime [OF law], of "(r' - r) mod ?q"] by auto
  have ux: "cMul (SECP E) (cSub (SECP E) (cMul (SECP E) (stT a) r') (cMul (SECP E) (stT b) r)) d = ?ux"
    by (rule trace_equation [OF law ut ij(4) ij'(2) d])
  have "goodSecp E ?ux" using s(2,3) by (simp add: goodSecp_iff law cMul_gen_inf_iff)
  then have "Resolve E ry ?ux = Inr (rgUser e)"
    using Resolve_owner [OF laws reg(1)] reg(2,3) by blast
  then show ?thesis using ij(3) ij'(1) diff d ux by (simp add: traceStatements_def Let_def R(1,2))
qed

lemma traceStatements_legal:
  assumes "group_laws E" "opens E a x n" "opens E b x m" "stIssue a = stIssue b"
    "int (unat n) < cOrder (SECP E)" "int (unat m) < cOrder (SECP E)" "n \<noteq> m"
  shows "traceStatements E a b ry = Inr (traceResult TraceLegal)"
  using opening_serial [OF assms(1-6)] assms(7) by (simp add: traceStatements_def)

section \<open>Accepted signatures have openings\<close>

lemma Seeds_circuitSeed:
  assumes "coord_laws E" and "2 \<le> cOrder (SECP E)" and "0 < cX c" and "cX c < cOrder (SECP E)"
    and "circuitSeed E c 0 \<noteq> 0" and "circuitSeed E c 1 \<noteq> 0"
  shows "Seeds E (Some (cX c)) (cIssue c) = Inr (circuitSeed E c 0, circuitSeed E c 1)"
proof -
  have "fieldBytes 256 (nat (cX c)) = be_bytes 32 (nat (cX c))"
    using assms(1,3,4) by (intro fieldBytes_scalar) simp_all
  then have "circuitSeed E c tag = int (be_nat (Sum256 E ((be_bytes 32 (nat (cX c)) @ cIssue c) @ [tag]))) mod cOrder (SECP E)" for tag
    by (simp only: circuitSeed_def secpValue_be_nat)
  then show ?thesis using assms(2-6) by (simp add: Seeds_def HashScalar_def Let_def)
qed

lemma Define_tags:
  assumes "DefineInputs E c" and "DefineTags E c" and "goodSecp E (cSPoint c)" and "goodSecp E (cTPoint c)"
  shows "statementTags E (cX c) (circuitSeed E c 0) (circuitSeed E c 1) (cR c) (of_int (cCounter c)) (cUt c)
     = Inr (cSPoint c, cTPoint c)"
proof -
  have "0 \<le> cCounter c" "cCounter c < 2 ^ 32" using assms(1) by (simp_all add: DefineInputs_def)
  then have "int (unat (of_int (cCounter c) :: 32 word)) = cCounter c"
    by (simp add: uint_word_of_int)
  then show ?thesis
    using assms(2-4) by (auto simp: DefineTags_def statementTags_def Let_def add.assoc split: option.splits)
qed

lemma publicOnly_sel:
  "cNym (publicOnly c) = cNym c" "cUt (publicOnly c) = cUt c" "cSPoint (publicOnly c) = cSPoint c"
  "cTPoint (publicOnly c) = cTPoint c" "cIssue (publicOnly c) = cIssue c" "cR (publicOnly c) = cR c"
  by (simp_all add: publicOnly_def)

lemma Define_opens:
  assumes laws: "group_laws E" "coord_laws E" and bases: "Bases E = Inr bases"
    and pub: "PublicAssignment E p st = Inr a" "publicOnly c = publicOnly a" and def: "Define E c"
    and st: "stR st = Some r" "0 < r" "r < cOrder (SECP E)" "goodSecp E (stS st)" "goodSecp E (stT st)"
  shows "opens E st (cX c) (of_int (cCounter c))"
proof -
  have q: "2 \<le> cOrder (SECP E)" using curve_order_gt1 [OF group_lawsD(3) [OF laws(1)]] by simp
  from pub(1) st(1) obtain ut where ut: "IssueBase E (stIssue st) = Inr ut"
    and f: "cNym a = stNym st" "cUt a = ut" "cSPoint a = stS st" "cTPoint a = stT st" "cIssue a = stIssue st" "cR a = r"
    using st(2,3) by (auto simp: PublicAssignment_def)
  have "cNym c = cNym a" "cUt c = cUt a" "cSPoint c = cSPoint a" "cTPoint c = cTPoint a" "cIssue c = cIssue a" "cR c = cR a"
    by (metis pub(2) publicOnly_sel)+
  note c = this [unfolded f]
  have D: "DefineInputs E c" "DefineNym E c" "DefineTags E c" using def by (simp_all add: Define_def)
  have x: "0 < cX c" "cX c < cOrder (SECP E)" using D(1) by (auto simp: DefineInputs_def)
  have seeds: "Seeds E (Some (cX c)) (cIssue c) = Inr (circuitSeed E c 0, circuitSeed E c 1)"
    using D(2) by (intro Seeds_circuitSeed [OF laws(2) q x]) (simp_all add: DefineNym_def)
  have "mapR (\<lambda>label. bnHash E (str_bytes label) (str_bytes ''LKTRS-BN254-NYM-V1'')) [''g0'', ''g1'', ''g2''] = Inr bases"
    using bases by (auto simp: Bases_def NymDST_def)
  then have "circuitNym E c bases = cNym c" using D(2) by (simp add: DefineNym_def del: mapR.simps)
  then have nym: "stNym st = nymSum E bases [circuitSeed E c 0, circuitSeed E c 1, cX c] (cInf (BN E))"
    using circuitNym_nymSum [OF laws bases seeds refl] c(1) by simp
  have "statementTags E (cX c) (circuitSeed E c 0) (circuitSeed E c 1) r (of_int (cCounter c)) ut = Inr (stS st, stT st)"
    using Define_tags [OF D(1,3)] st(4,5) unfolding c by blast
  then show ?thesis
    unfolding opens_def using x seeds [unfolded c(5)] bases nym st(1) ut by blast
qed

lemma Verify_opens:
  assumes laws: "group_laws E" "coord_laws E" and bases: "Bases E = Inr bases"
    and sound: "groth16_sound E G vk" "vfVK v = Some vk"
    and ok: "Verify E G (Some v) ctx message sg = Inr ()"
  shows "\<exists>x n. opens E (sgStatement sg) x n"
proof -
  from ok sound(2) obtain pf a pub where v: "PublicAssignment E (vcParams ctx) (sgStatement sg) = Inr a"
    "gNewWitness G (publicOnly a) = Inr pub" "gVerify G pf vk pub = Inr ()"
    and chk: "checkContext E ctx message (sgStatement sg) = Inr ()"
    unfolding Verify_ok_iff by auto
  from sound(1) v(2,3) obtain c where "publicOnly c = publicOnly a" "Define E c"
    unfolding groth16_sound_def by blast
  with chk show ?thesis using Define_opens [OF laws bases v(1)] unfolding checkContext_ok_iff by blast
qed

section \<open>Accounts of a user\<close>

lemma NewAccount_trace_point:
  assumes "group_laws E" and "NewAccount E (Some x) (Some d) = Inr a"
  shows "trace_point E a = cMul (SECP E) (cGen (SECP E)) x"
proof -
  note law = group_lawsD(3) [OF assms(1)]
  from assms(2) have a: "0 < d" "d < cOrder (SECP E)"
    "a = \<lparr>accU = cMul (SECP E) (cGen (SECP E)) d, accY = cMul (SECP E) (cMul (SECP E) (cGen (SECP E)) d) x, accD = Some d\<rparr>"
    by (auto simp: NewAccount_def Let_def)
  obtain i where i: "ModInverse d (cOrder (SECP E)) = Some i"
    using ModInverse_prime [OF curve_prime [OF law], of d] a(1,2) by auto
  have "accY a = cMul (SECP E) (cMul (SECP E) (cGen (SECP E)) x) d"
    by (simp add: a(3) curve_exp [OF law] mult.commute)
  then show ?thesis
    using cMul_inverse(1) [OF law cMul_gen_in_group [OF law, of x] i] by (simp add: trace_point_def a(3) i)
qed

section \<open>Revocation\<close>

lemma revokeCollect_ok:
  "revokeCollect E user es found members = Inr (found', members') \<Longrightarrow>
   found' = (found \<or> (\<exists>e \<in> set es. rgUser e = user)) \<and>
   (\<forall>m. mapGet False members' (dec_int m) \<longleftrightarrow>
      mapGet False members (dec_int m) \<or> (\<exists>e \<in> set es. rgUser e = user \<and> Member E (rgAccount e) = Inr m))"
proof (induction es arbitrary: found members)
  case (Cons e es)
  show ?case
  proof (cases "rgUser e = user")
    case True
    with Cons.prems obtain m where m: "Member E (rgAccount e) = Inr m"
      "revokeCollect E user es True (AList.update (dec_int m) True members) = Inr (found', members')" by auto
    from Cons.IH [OF m(2)] show ?thesis using True m(1) by auto
  next
    case False
    with Cons show ?thesis by auto
  qed
qed auto

lemma revokeRemaining_ok:
  "revokeRemaining E members as rest = Inr out \<longleftrightarrow> (\<forall>a \<in> set as. isOk (Member E a)) \<and>
   out = rest @ filter (\<lambda>a. \<exists>m. Member E a = Inr m \<and> \<not> mapGet False members (dec_int m)) as"
proof (induction as arbitrary: rest)
  case (Cons a as)
  then show ?case by (cases "Member E a") (auto simp: isOk_iff)
qed auto

lemma RevokeUser_ok:
  "RevokeUser E r ring user = Inr ring' \<Longrightarrow>
   (\<exists>e \<in> set (ryEntries r). rgUser e = user) \<and> snParams ring' = snParams ring \<and> valid_snapshot E ring' \<and>
   snAccounts ring' = filter (\<lambda>a. \<forall>e \<in> set (ryEntries r). rgUser e = user \<longrightarrow> Member E (rgAccount e) \<noteq> Member E a) (snAccounts ring)"
proof -
  assume "RevokeUser E r ring user = Inr ring'"
  then obtain members rest where m: "revokeCollect E user (ryEntries r) False [] = Inr (True, members)"
    "revokeRemaining E members (snAccounts ring) [] = Inr rest" "NewSnapshot E (snParams ring) rest = Inr ring'"
    by (auto simp: RevokeUser_def)
  note c = revokeCollect_ok [OF m(1)]
  have "(\<exists>m. Member E a = Inr m \<and> \<not> mapGet False members (dec_int m)) \<longleftrightarrow>
      (\<forall>e \<in> set (ryEntries r). rgUser e = user \<longrightarrow> Member E (rgAccount e) \<noteq> Member E a)"
    if "a \<in> set (snAccounts ring)" for a
    using m(2) c that by (auto simp: revokeRemaining_ok isOk_iff)
  then have "rest = filter (\<lambda>a. \<forall>e \<in> set (ryEntries r). rgUser e = user \<longrightarrow> Member E (rgAccount e) \<noteq> Member E a) (snAccounts ring)"
    using m(2) by (simp add: revokeRemaining_ok cong: filter_cong)
  then show ?thesis using m(3) c by (simp add: NewSnapshot_iff)
qed

end
