(* ===== verification/ProtocolProps.thy ===== *)
theory ProtocolProps
  imports RingProps Tracing
begin

text \<open>
  The promises of the signing protocol as properties: signatures verify, quotas hold,
  signatures of one user link, a user who exceeds the quota is traced and an honest one is
  not, the registry names a unique owner, revocation removes exactly the user's accounts.
  The sample continues the one of \<open>RingProps\<close> with statements, a proof system and a registry.
\<close>

section \<open>Sample statements\<close>

definition sample_issue :: bytes where "sample_issue = replicate 32 1"

definition sample_statement :: "nat \<Rightarrow> int \<Rightarrow> nat \<Rightarrow> nat \<Rightarrow> Statement" where
  "sample_statement md R S T =
     \<lparr>stV = pt 30, stNym = pt 46, stS = pt S, stT = pt T, stIssue = sample_issue,
      stRingDigest = replicate 31 0 @ [103], stMessageDigest = replicate 31 0 @ [of_nat md],
      stTimestamp = 10, stK = 3, stR = Some R\<rparr>"

definition sample_secret :: "32 word \<Rightarrow> SecretWitness" where
  "sample_secret n = \<lparr>wX = Some 5, wD = Some 9, wAccount = sample_account 5 9, wW = pt 11, wCounter = n\<rparr>"

lemma sample_ring_digest: "RingDigest sample_env sample_ring = Inr (replicate 31 0 @ [103])"
  by (simp add: RingDigest_def sample_members)
    (simp add: sample_ring_def eval_simps cong: andThen_weak_cong)

lemma sample_seeds: "Seeds sample_env (Some 5) sample_issue = Inr (44, 45)"
  by (simp add: eval_simps sample_issue_def cong: andThen_weak_cong)

lemma sample_bases: "Bases sample_env = Inr [pt 59, pt 60, pt 61]"
  by (simp add: eval_simps cong: andThen_weak_cong)

lemma sample_issue_base: "IssueBase sample_env sample_issue = Inr (pt 40)"
  by (simp add: eval_simps sample_issue_def cong: andThen_weak_cong)

lemma sample_inverses:
  "ModInverse 45 103 = Some 87" "ModInverse 46 103 = Some 56" "ModInverse 47 103 = Some 57"
  by code_simp+

lemma sample_digest: "Sum256 sample_env [1] = replicate 31 0 @ [8]" "Sum256 sample_env [3] = replicate 31 0 @ [10]"
  by (simp_all add: eval_simps)

lemma sample_nym: "nymSum sample_env [pt 59, pt 60, pt 61] [44, 45, 5] (pt 0) = pt 46"
  by (simp add: eval_simps)

lemma sample_challenge_input:
  "Sum256 sample_env (challengeInput (sample_statement 8 R S T)) = replicate 31 0 @ [250]"
  "Sum256 sample_env (challengeInput (sample_statement 10 R S T)) = replicate 31 0 @ [1]"
  by (simp_all add: eval_simps sample_statement_def sample_issue_def)


lemma sample_challenge:
  "Challenge sample_env (sample_statement 8 R S T) = Inr 44"
  "Challenge sample_env (sample_statement 10 R S T) = Inr 1"
  unfolding Challenge_def HashScalar_def sample_challenge_input
  by (simp_all add: sample_statement_def eval_simps)

lemma sample_tags:
  "statementTags sample_env 5 44 45 44 0 (pt 40) = Inr (pt 81, pt 97)"
  "statementTags sample_env 5 44 45 1 0 (pt 40) = Inr (pt 81, pt 82)"
  "statementTags sample_env 5 44 45 1 1 (pt 40) = Inr (pt 77, pt 19)"
  by (simp_all add: eval_simps sample_inverses)

lemma sample_make:
  "MakeStatement sample_env sample_params sample_ring 1 (Some 5) (Some 9) sample_issue
     (Sum256 sample_env [1]) 10 3 0 = Inr (sample_statement 8 44 81 97, sample_secret 0)"
  "MakeStatement sample_env sample_params sample_ring 1 (Some 5) (Some 9) sample_issue
     (Sum256 sample_env [3]) 10 3 0 = Inr (sample_statement 10 1 81 82, sample_secret 0)"
  "MakeStatement sample_env sample_params sample_ring 1 (Some 5) (Some 9) sample_issue
     (Sum256 sample_env [3]) 10 3 1 = Inr (sample_statement 10 1 77 19, sample_secret 1)"
proof -
  have acc: "length sample_ring = 3" "sample_ring ! nat 1 = sample_account 5 9" "sample_ring ! Suc 0 = sample_account 5 9" "accD (sample_account 5 9) = Some 9"
    by (simp_all add: sample_ring_def sample_account_def)
  have st: "Challenge sample_env \<lparr>stV = pt 30, stNym = pt 46, stS = a, stT = b, stIssue = sample_issue,
      stRingDigest = replicate 31 0 @ [103], stMessageDigest = replicate 31 0 @ [8], stTimestamp = 10, stK = 3, stR = c\<rparr> = Inr 44"
    "Challenge sample_env \<lparr>stV = pt 30, stNym = pt 46, stS = a, stT = b, stIssue = sample_issue,
      stRingDigest = replicate 31 0 @ [103], stMessageDigest = replicate 31 0 @ [10], stTimestamp = 10, stK = 3, stR = c\<rparr> = Inr 1"
    for a b c
    using sample_challenge by (simp_all add: Challenge_def challengeInput_def sample_statement_def)
  have g: "goodBN sample_env (pt 46)" by (simp add: eval_simps)
  have inf: "cInf (sample_ops pt pX 101) = pt 0" by (simp add: eval_simps)
  have le: "\<not> (3 :: 32 word) \<le> 1" by (simp add: word_le_nat_alt)
  note facts = acc le sample_new_account sample_accumulate sample_witness sample_ring_digest sample_seeds sample_bases
      sample_issue_base sample_digest st g sample_tags inf
  show "MakeStatement sample_env sample_params sample_ring 1 (Some 5) (Some 9) sample_issue
     (Sum256 sample_env [1]) 10 3 0 = Inr (sample_statement 8 44 81 97, sample_secret 0)"
    by (simp add: MakeStatement_def Let_def facts sample_nym sample_statement_def sample_secret_def del: nymSum.simps cong: andThen_weak_cong)
  show "MakeStatement sample_env sample_params sample_ring 1 (Some 5) (Some 9) sample_issue
     (Sum256 sample_env [3]) 10 3 0 = Inr (sample_statement 10 1 81 82, sample_secret 0)"
    by (simp add: MakeStatement_def Let_def facts sample_nym sample_statement_def sample_secret_def del: nymSum.simps cong: andThen_weak_cong)
  show "MakeStatement sample_env sample_params sample_ring 1 (Some 5) (Some 9) sample_issue
     (Sum256 sample_env [3]) 10 3 1 = Inr (sample_statement 10 1 77 19, sample_secret 1)"
    by (simp add: MakeStatement_def Let_def facts sample_nym sample_statement_def sample_secret_def del: nymSum.simps cong: andThen_weak_cong)
qed

section \<open>A sample proof system\<close>

definition sample_point :: "nat \<Rightarrow> bytes" where "sample_point n = 0x80 # replicate (n - 1) 0"

definition sample_proof :: bytes where
  "sample_proof = sample_point 32 @ sample_point 64 @ sample_point 32 @ be_bytes 4 0 @ concat [sample_point 32]"

definition sample_vk :: VerifyingKey where
  "sample_vk = \<lparr>vkPoints = [], vkNative = True, vkK = 1, vkCommitmentKeys = 0, vkMetadata = []\<rparr>"

definition sample_cs :: ConstraintSystem where
  "sample_cs = \<lparr>csBytes = [7], csNbConstraints = 4, csNbPublic = 1, csNbSecret = 2, csNbInternal = 3,
     csGroth16 = True, csPrivateCommitted = [], csMetadata = []\<rparr>"

definition sample_gnark :: gnark where
  "sample_gnark =
     \<lparr>gCompile = Inr sample_cs, gWriteCS = (\<lambda>cs. Inr (csBytes cs)), gSetup = (\<lambda>cs. Inr ([], sample_vk)),
      gWriteVK = (\<lambda>vk. Inr (vkPoints vk)), gReadVK = (\<lambda>b. Inr (sample_vk, 0)), gNewWitness = Inr,
      gProve = (\<lambda>cs pk w. Inr [1]), gWriteProof = (\<lambda>pf. Inr sample_proof),
      gReadProof = (\<lambda>raw. if raw = sample_proof then Inr ([1], 0) else Inl ''invalid proof''),
      gVerify = (\<lambda>pf vk pub. if \<exists>c. publicOnly c = pub \<and> Define sample_env c then Inr () else Inl ''invalid'')\<rparr>"

definition sample_prover :: Prover where
  "sample_prover = \<lparr>prvCS = sample_cs, prvPK = [], prvCircuitHash = replicate 32 5, prvKeyID = replicate 32 6\<rparr>"

definition sample_verifier :: Verifier where
  "sample_verifier = \<lparr>vfVK = Some sample_vk, vfCircuitHash = replicate 32 5, vfKeyID = replicate 32 6\<rparr>"

lemma sample_point_facts: "0 < n \<Longrightarrow> length (sample_point n) = n" "compressedFlag (hd (sample_point n))"
  by (simp_all add: sample_point_def compressedFlag_def)

lemma sample_proof_layout: "compressed_proof 0 sample_proof"
proof -
  have "\<forall>p \<in> set [sample_point 32]. length p = 32"
    "\<forall>p \<in> set (sample_point 32 # sample_point 64 # sample_point 32 # [sample_point 32]). compressedFlag (hd p)"
    by (simp_all add: sample_point_facts)
  moreover have "length [sample_point 32] = 0 + 1" by simp
  ultimately show ?thesis
    unfolding compressed_proof_def sample_proof_def using sample_point_facts(1) [of 32] sample_point_facts(1) [of 64]
    by (metis zero_less_numeral)
qed

lemma sample_complete: "groth16_complete sample_env sample_gnark sample_cs [] sample_vk"
  using sample_proof_layout by (auto simp: groth16_complete_def sample_gnark_def sample_vk_def)

lemma sample_sound: "groth16_sound sample_env sample_gnark sample_vk"
  by (auto simp: groth16_sound_def sample_gnark_def split: if_splits)

definition sample_signed :: "Statement \<Rightarrow> Signed" where
  "sample_signed st = \<lparr>sgStatement = st, sgProof = \<lparr>prVersion = CircuitVersion, prCircuitHash = replicate 32 5,
     prKeyID = replicate 32 6, prData = sample_proof\<rparr>\<rparr>"

lemma sample_prove:
  "Prove sample_env sample_gnark sample_prover p (sample_statement md R S T) (sample_secret n)
     = Inr (sample_signed (sample_statement md R S T))"
  by (simp add: Prove_def Assignment_def PublicAssignment_def sample_statement_def sample_secret_def
      sample_issue_base sample_gnark_def sample_prover_def sample_signed_def)

definition sample_signer :: "32 word \<Rightarrow> Signer" where
  "sample_signer n = \<lparr>snX = Some 5, snNext = [(sample_issue, n)]\<rparr>"

lemma sample_sign:
  "Sign sample_env sample_gnark (sample_signer 0) (Some sample_prover) sample_snapshot3 1 sample_issue 3 [1] 10
     = (Inr (sample_signed (sample_statement 8 44 81 97)), sample_signer 1)"
  "Sign sample_env sample_gnark (sample_signer 1) (Some sample_prover) sample_snapshot3 1 sample_issue 3 [3] 10
     = (Inr (sample_signed (sample_statement 10 1 77 19)), sample_signer 2)"
proof -
  have ring: "snParams sample_snapshot3 = sample_params" "snAccounts sample_snapshot3 = sample_ring"
    "length sample_ring = 3" "sample_ring ! Suc 0 = sample_account 5 9" "accD (sample_account 5 9) = Some 9"
    by (simp_all add: sample_snapshot3_def sample_ring_def sample_account_def)
  have le: "\<not> (3 :: 32 word) \<le> 1" by (simp add: word_le_nat_alt)
  show "Sign sample_env sample_gnark (sample_signer 0) (Some sample_prover) sample_snapshot3 1 sample_issue 3 [1] 10
     = (Inr (sample_signed (sample_statement 8 44 81 97)), sample_signer 1)"
    and "Sign sample_env sample_gnark (sample_signer 1) (Some sample_prover) sample_snapshot3 1 sample_issue 3 [3] 10
     = (Inr (sample_signed (sample_statement 10 1 77 19)), sample_signer 2)"
    using sample_make by (simp_all add: Sign_def ring le Let_def mapGet_def sample_signer_def sample_prove)
qed

definition sample_registry :: Registry where
  "sample_registry = \<lparr>ryEntries =
     [\<lparr>rgUser = ''alice'', rgAccount = sample_account 5 7\<rparr>,
      \<lparr>rgUser = ''bob'', rgAccount = sample_account 6 11\<rparr>,
      \<lparr>rgUser = ''alice'', rgAccount = sample_account 5 9\<rparr>]\<rparr>"

lemma sample_account_inverses:
  "ModInverse 7 103 = Some 59" "ModInverse 9 103 = Some 23" "ModInverse 11 103 = Some 75"
  by code_simp+

lemma sample_trace_key:
  "EncodeSecpPoint (pt 5) = replicate 31 0 @ [5] @ replicate 31 0 @ [5]"
  "EncodeSecpPoint (pt 6) = replicate 31 0 @ [6] @ replicate 31 0 @ [6]"
  by (simp_all add: eval_simps)

lemma sample_accounts_valid:
  "validateAccount sample_env (sample_account 5 7) = Inr ()"
  "validateAccount sample_env (sample_account 5 9) = Inr ()"
  "validateAccount sample_env (sample_account 6 11) = Inr ()"
  by (simp_all add: eval_simps)

lemma sample_new_registry: "NewRegistry sample_env (ryEntries sample_registry) = Inr sample_registry"
proof -
  have t: "cMul (sample_ops pt pX 103) (accY (sample_account 5 7)) 59 = pt 5"
    "cMul (sample_ops pt pX 103) (accY (sample_account 5 9)) 23 = pt 5"
    "cMul (sample_ops pt pX 103) (accY (sample_account 6 11)) 75 = pt 6"
    "accD (sample_account 5 7) = Some 7" "accD (sample_account 5 9) = Some 9" "accD (sample_account 6 11) = Some 11"
    "cOrder (sample_ops pt pX 103) = 103"
    by (simp_all add: eval_simps)
  have ne: "EncodeSecpPoint (pt 5) \<noteq> EncodeSecpPoint (pt 6)" unfolding sample_trace_key by simp
  show ?thesis
    using ne ne [symmetric]
    by (simp add: NewRegistry_def sample_registry_def registerEntry_def Let_def sample_accounts_valid sample_member
        t sample_account_inverses mapGet_def)
qed

definition sample_ctx :: VerificationContext where
  "sample_ctx = \<lparr>vcParams = sample_params, vcAccounts = sample_ring, vcIssue = sample_issue, vcK = 3,
     vcDigest = replicate 31 0 @ [103]\<rparr>"

lemma sample_context:
  "NewVerificationContext sample_env sample_params sample_ring sample_issue 3 =
     Inr sample_ctx"
  by (simp add: sample_ctx_def NewVerificationContext_def sample_params_valid sample_accumulate sample_ring_digest)

section \<open>Signing and verifying\<close>

text \<open>
  C1: end to end, every signature \<open>Sign\<close> returns is accepted.  The verifier can build the
  context from the same ring, issue and quota, and \<open>Verify\<close> with the matching key accepts
  the signature on the signed message.
\<close>

theorem Sign_then_Verify:
  assumes "group_laws E" and "pairing_law E" and "coord_laws E"
    and "groth16_complete E G (prvCS p) (prvPK p) vk"
    and sign: "Sign E G s (Some p) ring account issue k message ts = (Inr sg, s')"
    and "int (unat ts) < cOrder (BN E)" and "int (unat k) < cOrder (BN E)"
  shows "\<exists>ctx. NewVerificationContext E (snParams ring) (snAccounts ring) issue k = Inr ctx \<and>
    Verify E G (Some \<lparr>vfVK = Some vk, vfCircuitHash = prvCircuitHash p, vfKeyID = prvKeyID p\<rparr>) ctx message sg = Inr ()"
proof -
  obtain d st w where m: "MakeStatement E (snParams ring) (snAccounts ring) account (snX s) (Some d) issue
      (Sum256 E message) ts k (NextCounter s issue) = Inr (st, w)"
    and pr: "Prove E G p (snParams ring) st w = Inr sg"
    using Sign_ok [OF sign] by (metis option.inject)
  obtain ctx where ctx: "NewVerificationContext E (snParams ring) (snAccounts ring) issue k = Inr ctx"
    and "stTimestamp st = ts" "stK st = k"
    using MakeStatement_context [OF m] .
  then have "fits_field E st" using assms(6,7) by (simp only: fits_field_def)
  with ctx Prove_verifies [OF assms(1-4) m _ pr ctx] show ?thesis by blast
qed

theorem Sign_then_Verify_witness:
  "\<exists>ctx. NewVerificationContext sample_env (snParams sample_snapshot3) (snAccounts sample_snapshot3) sample_issue 3 = Inr ctx \<and>
    Verify sample_env sample_gnark (Some \<lparr>vfVK = Some sample_vk, vfCircuitHash = prvCircuitHash sample_prover,
        vfKeyID = prvKeyID sample_prover\<rparr>) ctx [1] (sample_signed (sample_statement 8 44 81 97)) = Inr ()"
  by (rule Sign_then_Verify [OF sample_group_laws sample_pairing_law sample_coord_laws _ sample_sign(1)])
    (simp_all add: sample_prover_def sample_complete eval_simps)



text \<open>
  C4: the circuit accepts every statement the host builds.  Whenever \<open>MakeStatement\<close>
  succeeds, \<open>Assignment\<close> succeeds and the assignment satisfies every constraint of \<open>Define\<close>:
  the in-circuit byte encodings, hashes, pseudonym, regrouped pairing, challenge, serial and
  tag all agree with the host's.
\<close>

theorem MakeStatement_satisfies_circuit:
  assumes "group_laws E" and "pairing_law E" and "coord_laws E"
    and "MakeStatement E p accounts idx x d issue md ts k counter = Inr (st, w)"
    and "fits_field E st"
  shows "\<exists>c. Assignment E p st w = Inr c \<and> Define E c"
  using MakeStatement_satisfies [OF assms] by blast

theorem MakeStatement_satisfies_circuit_witness:
  "\<exists>c. Assignment sample_env sample_params (sample_statement 8 44 81 97) (sample_secret 0) = Inr c \<and> Define sample_env c"
  by (rule MakeStatement_satisfies_circuit [OF sample_group_laws sample_pairing_law sample_coord_laws sample_make(1)])
    (simp add: fits_field_def sample_statement_def eval_simps)

section \<open>Linking and tracing\<close>

text \<open>
  C6: soundness of acceptance.  If the proof system is sound for the key, every accepted
  signature has an opening: a secret and a counter that explain its pseudonym, serial and
  tag for the issue of the context.
\<close>

theorem Verify_sound:
  assumes "group_laws E" and "coord_laws E" and "Bases E = Inr bases"
    and "groth16_sound E G vk" and "vfVK v = Some vk" and "Verify E G (Some v) ctx message sg = Inr ()"
  shows "\<exists>x n. opens E (sgStatement sg) x n"
  using assms by (rule Verify_opens)

lemma sample_verifies:
  "Verify sample_env sample_gnark (Some sample_verifier)
     sample_ctx
     [1] (sample_signed (sample_statement 8 44 81 97)) = Inr ()"
  "Verify sample_env sample_gnark (Some sample_verifier)
     sample_ctx
     [3] (sample_signed (sample_statement 10 1 81 82)) = Inr ()"
  "Verify sample_env sample_gnark (Some sample_verifier)
     sample_ctx
     [3] (sample_signed (sample_statement 10 1 77 19)) = Inr ()"
proof -
  have v: "sample_verifier = \<lparr>vfVK = Some sample_vk, vfCircuitHash = prvCircuitHash sample_prover, vfKeyID = prvKeyID sample_prover\<rparr>"
    by (simp add: sample_verifier_def sample_prover_def)
  have fits: "fits_field sample_env (sample_statement md R S T)" for md R S T
    by (simp add: fits_field_def sample_statement_def eval_simps)
  have "groth16_complete sample_env sample_gnark (prvCS sample_prover) (prvPK sample_prover) sample_vk"
    using sample_complete by (simp add: sample_prover_def)
  note ok = Prove_verifies [OF sample_group_laws sample_pairing_law sample_coord_laws this _ fits sample_prove sample_context]
  show "Verify sample_env sample_gnark (Some sample_verifier)
     sample_ctx
     [1] (sample_signed (sample_statement 8 44 81 97)) = Inr ()"
    and "Verify sample_env sample_gnark (Some sample_verifier)
     sample_ctx
     [3] (sample_signed (sample_statement 10 1 81 82)) = Inr ()"
    and "Verify sample_env sample_gnark (Some sample_verifier)
     sample_ctx
     [3] (sample_signed (sample_statement 10 1 77 19)) = Inr ()"
    unfolding v by (rule ok [OF sample_make(1)], rule ok [OF sample_make(2)], rule ok [OF sample_make(3)])
qed

theorem Verify_sound_witness:
  "\<exists>x n. opens sample_env (sgStatement (sample_signed (sample_statement 8 44 81 97))) x n"
  by (rule Verify_sound [OF sample_group_laws sample_coord_laws sample_bases sample_sound _ sample_verifies(1)])
    (simp add: sample_verifier_def)

text \<open>
  C12: linkability.  Two accepted signatures of one secret for one issue link, whatever their
  rings, accounts, messages, counters and quotas.
\<close>

theorem Link_same_secret:
  assumes "opens E (sgStatement sa) x n" and "opens E (sgStatement sb) x m"
    and "Verify E G v a ma sa = Inr ()" and "Verify E G v b mb sb = Inr ()" and "vcIssue a = vcIssue b"
  shows "Link E G v a ma sa b mb sb = Inr True"
proof -
  have "stIssue (sgStatement sa) = vcIssue a" "stIssue (sgStatement sb) = vcIssue b"
    using assms(3,4) by (cases v; auto simp: Verify_ok_iff checkContext_ok_iff)+
  then show ?thesis
    using opening_linked [OF assms(1,2)] assms(3-5) by (simp add: Link_def)
qed

lemma sample_opens:
  "opens sample_env (sample_statement 8 44 81 97) 5 0"
  "opens sample_env (sample_statement 10 1 81 82) 5 0"
  "opens sample_env (sample_statement 10 1 77 19) 5 1"
  by (rule MakeStatement_opening [OF sample_make(1)], rule MakeStatement_opening [OF sample_make(2)],
      rule MakeStatement_opening [OF sample_make(3)])

lemma sample_signed_sel [simp]: "sgStatement (sample_signed st) = st"
  by (simp add: sample_signed_def)

theorem Link_same_secret_witness:
  "Link sample_env sample_gnark (Some sample_verifier) sample_ctx [1] (sample_signed (sample_statement 8 44 81 97))
     sample_ctx [3] (sample_signed (sample_statement 10 1 77 19)) = Inr True"
  by (rule Link_same_secret [of _ _ 5 0 _ 1]) (simp_all add: sample_opens sample_verifies)

text \<open>
  C2: traceability.  Two accepted signatures of one issue and quota that open to the same
  secret and the same counter but have different challenges identify the signer: \<open>Trace\<close>
  extracts the trace key \<open>u^x\<close> and names the user under whom an account of that secret is
  registered.
\<close>

theorem Trace_double_use:
  assumes "group_laws E" and "coord_laws E"
    and "opens E (sgStatement sa) x n" and "opens E (sgStatement sb) x n"
    and "stR (sgStatement sa) \<noteq> stR (sgStatement sb)"
    and "Verify E G v a ma sa = Inr ()" and "Verify E G v b mb sb = Inr ()"
    and "vcIssue a = vcIssue b" and "vcK a = vcK b"
    and "NewRegistry E entries = Inr registry" and "e \<in> set entries"
    and "NewAccount E (Some x) (Some d) = Inr (rgAccount e)"
  shows "Trace E G v a ma sa b mb sb registry
     = Inr \<lparr>trStatus = TraceTraced, trUserID = rgUser e, trKey = cMul (SECP E) (cGen (SECP E)) x\<rparr>"
proof -
  have chk: "checkContext E a ma (sgStatement sa) = Inr ()" "checkContext E b mb (sgStatement sb) = Inr ()"
    using assms(6,7) by (cases v; auto simp: Verify_ok_iff)+
  then have issue: "stIssue (sgStatement sa) = stIssue (sgStatement sb)"
    using assms(8) by (simp add: checkContext_ok_iff)
  obtain r r' where r: "stR (sgStatement sa) = Some r" "stR (sgStatement sb) = Some r'"
    "0 < r" "r < cOrder (SECP E)" "0 < r'" "r' < cOrder (SECP E)"
    using chk by (auto simp: checkContext_ok_iff)
  then have "r mod cOrder (SECP E) \<noteq> r' mod cOrder (SECP E)" using assms(5) by simp
  moreover have "ryEntries registry = entries" "valid_registry E registry" using NewRegistry_valid [OF assms(10)] by auto
  ultimately have "traceStatements E (sgStatement sa) (sgStatement sb) registry
      = Inr \<lparr>trStatus = TraceTraced, trUserID = rgUser e, trKey = cMul (SECP E) (cGen (SECP E)) x\<rparr>"
    using assms(11) NewAccount_trace_point [OF assms(1,12)]
    by (intro traceStatements_traced [OF assms(1-4) issue r(1,2)]) simp_all
  then show ?thesis
    using opening_linked [OF assms(3,4) issue] assms(6-9) by (simp add: Trace_def)
qed

theorem Trace_double_use_witness:
  "Trace sample_env sample_gnark (Some sample_verifier) sample_ctx [1] (sample_signed (sample_statement 8 44 81 97))
     sample_ctx [3] (sample_signed (sample_statement 10 1 81 82)) sample_registry
   = Inr \<lparr>trStatus = TraceTraced, trUserID = ''alice'', trKey = pt 5\<rparr>"
proof -
  let ?e = "\<lparr>rgUser = ''alice'', rgAccount = sample_account 5 9\<rparr>"
  have "Trace sample_env sample_gnark (Some sample_verifier) sample_ctx [1] (sample_signed (sample_statement 8 44 81 97))
      sample_ctx [3] (sample_signed (sample_statement 10 1 81 82)) sample_registry
    = Inr \<lparr>trStatus = TraceTraced, trUserID = rgUser ?e, trKey = cMul (SECP sample_env) (cGen (SECP sample_env)) 5\<rparr>"
    by (rule Trace_double_use [where n = 0 and d = 9 and entries = "ryEntries sample_registry",
          OF sample_group_laws sample_coord_laws])
      (simp_all add: sample_opens sample_verifies sample_new_registry sample_new_account,
       simp_all add: sample_statement_def sample_registry_def)
  then show ?thesis by (simp add: eval_simps)
qed

text \<open>
  C7: honest signers are not traced.  Two accepted signatures of one secret, issue and quota
  with different counters have different serials, and \<open>Trace\<close> reports \<open>TraceLegal\<close> without
  consulting the registry.
\<close>

theorem Trace_different_counters:
  assumes "group_laws E"
    and "opens E (sgStatement sa) x n" and "opens E (sgStatement sb) x m" and "n \<noteq> m"
    and "int (unat n) < cOrder (SECP E)" and "int (unat m) < cOrder (SECP E)"
    and "Verify E G v a ma sa = Inr ()" and "Verify E G v b mb sb = Inr ()"
    and "vcIssue a = vcIssue b" and "vcK a = vcK b"
  shows "Trace E G v a ma sa b mb sb registry = Inr (traceResult TraceLegal)"
proof -
  have "checkContext E a ma (sgStatement sa) = Inr ()" "checkContext E b mb (sgStatement sb) = Inr ()"
    using assms(7,8) by (cases v; auto simp: Verify_ok_iff)+
  then have issue: "stIssue (sgStatement sa) = stIssue (sgStatement sb)"
    using assms(9) by (simp add: checkContext_ok_iff)
  from traceStatements_legal [OF assms(1-3) this assms(5,6,4)] opening_linked [OF assms(2,3) this]
  show ?thesis using assms(7-10) by (simp add: Trace_def)
qed

theorem Trace_different_counters_witness:
  "Trace sample_env sample_gnark (Some sample_verifier) sample_ctx [1] (sample_signed (sample_statement 8 44 81 97))
     sample_ctx [3] (sample_signed (sample_statement 10 1 77 19)) sample_registry = Inr (traceResult TraceLegal)"
  by (rule Trace_different_counters [OF sample_group_laws, of _ 5 0 _ 1])
    (simp_all add: sample_opens sample_verifies eval_simps)

section \<open>The registry\<close>



text \<open>
  C15: \<open>RevokeUser\<close> leaves a valid snapshot of the same parameters from which exactly the
  accounts registered for the user are gone, the others in their old order; it fails for an
  unregistered user.
\<close>

theorem RevokeUser_removes_exactly:
  assumes "RevokeUser E r ring user = Inr ring'"
  shows "(\<exists>e \<in> set (ryEntries r). rgUser e = user) \<and> snParams ring' = snParams ring \<and>
    Accumulate E (snParams ring') (snAccounts ring') = Inr (snValue ring') \<and>
    snAccounts ring' = filter (\<lambda>a. \<forall>e \<in> set (ryEntries r).
       rgUser e = user \<longrightarrow> Member E (rgAccount e) \<noteq> Member E a) (snAccounts ring)"
  using RevokeUser_ok [OF assms] unfolding valid_snapshot_def by blast

lemma sample_revoke: "RevokeUser sample_env sample_registry sample_snapshot3 ''bob'' = Inr sample_snapshot"
  by (simp add: RevokeUser_def sample_registry_def sample_snapshot3_def sample_snapshot_def sample_ring_def
      sample_member mapGet_def NewSnapshot_def sample_accumulate)

theorem RevokeUser_removes_exactly_witness:
  "snAccounts sample_snapshot = filter (\<lambda>a. \<forall>e \<in> set (ryEntries sample_registry).
     rgUser e = ''bob'' \<longrightarrow> Member sample_env (rgAccount e) \<noteq> Member sample_env a) (snAccounts sample_snapshot3)"
  using RevokeUser_removes_exactly [OF sample_revoke] by blast

end
