(* ===== verification/Encoding.thy ===== *)
theory Encoding
  imports Prelude
begin

text \<open>
  The text encodings of byte strings: \<open>encoding/hex\<close> and the strict standard alphabet of
  \<open>encoding/base64\<close>, and the canonical decoders built on them, \<open>ParseDigest\<close> and
  \<open>hexDigest\<close> (\<open>setup.go\<close>), \<open>decodeIssue\<close> and \<open>decodeB64\<close> (\<open>service.go\<close>).  Each of these is
  shown to be a strict codec: it accepts exactly the encoder's output.
\<close>

section \<open>Hexadecimal\<close>

definition hexDigit :: "nat \<Rightarrow> char" where
  "hexDigit n = (if n < 10 then char_of (48 + n) else char_of (87 + n))"

text \<open>The decoder reads both cases.\<close>

definition hexVal :: "char \<Rightarrow> nat option" where
  "hexVal c = (let n = of_char c in
     if 48 \<le> n \<and> n \<le> 57 then Some (n - 48)
     else if 97 \<le> n \<and> n \<le> 102 then Some (n - 87)
     else if 65 \<le> n \<and> n \<le> 70 then Some (n - 55) else None)"

fun hexEncode :: "bytes \<Rightarrow> string" where
  "hexEncode [] = []"
| "hexEncode (b # bs) = hexDigit (unat b div 16) # hexDigit (unat b mod 16) # hexEncode bs"

fun hexDecode :: "string \<Rightarrow> bytes option" where
  "hexDecode [] = Some []"
| "hexDecode (c # d # s) =
     (case (hexVal c, hexVal d, hexDecode s) of
        (Some h, Some l, Some bs) \<Rightarrow> Some (of_nat (16 * h + l) # bs)
      | _ \<Rightarrow> None)"
| "hexDecode [c] = None"

lemma hexVal_hexDigit: "n < 16 \<Longrightarrow> hexVal (hexDigit n) = Some n"
  by (simp add: hexVal_def hexDigit_def)

lemma length_hexEncode [simp]: "length (hexEncode b) = 2 * length b"
  by (induction b) auto

lemma hexDecode_hexEncode [simp]: "hexDecode (hexEncode b) = Some b"
proof (induction b)
  case Nil
  then show ?case by simp
next
  case (Cons w b)
  have "unat w div 16 < 16" using unat_byte_less [of w] by (simp add: less_mult_imp_div_less)
  then show ?case using Cons by (simp add: hexVal_hexDigit)
qed

lemma hexEncode_inject [simp]: "hexEncode a = hexEncode b \<longleftrightarrow> a = b"
  by (metis hexDecode_hexEncode option.inject)

text \<open>The check every caller makes: decode, compare the length, and re-encode.\<close>

definition strictHex :: "nat \<Rightarrow> string \<Rightarrow> bytes option" where
  "strictHex n s = (case hexDecode s of
      None \<Rightarrow> None
    | Some b \<Rightarrow> if length b \<noteq> n \<or> hexEncode b \<noteq> s then None else Some b)"

lemma strictHex_iff: "strictHex n s = Some b \<longleftrightarrow> length b = n \<and> s = hexEncode b"
  by (auto simp: strictHex_def split: option.splits if_splits)

section \<open>Base64\<close>

definition b64Char :: "nat \<Rightarrow> char" where
  "b64Char n = (if n < 26 then char_of (65 + n) else if n < 52 then char_of (71 + n)
     else if n < 62 then char_of (n - 4) else if n = 62 then CHR ''+'' else CHR ''/'')"

definition b64Val :: "char \<Rightarrow> nat option" where
  "b64Val c = (let n = of_char c in
     if 65 \<le> n \<and> n \<le> 90 then Some (n - 65)
     else if 97 \<le> n \<and> n \<le> 122 then Some (n - 71)
     else if 48 \<le> n \<and> n \<le> 57 then Some (n + 4)
     else if n = 43 then Some 62 else if n = 47 then Some 63 else None)"

abbreviation padChar :: char where "padChar \<equiv> CHR ''=''"

fun b64Encode :: "bytes \<Rightarrow> string" where
  "b64Encode [] = []"
| "b64Encode [a] =
     (let n = unat a * 16 in [b64Char (n div 64), b64Char (n mod 64), padChar, padChar])"
| "b64Encode [a, b] =
     (let n = (unat a * 256 + unat b) * 4 in
      [b64Char (n div 4096), b64Char (n div 64 mod 64), b64Char (n mod 64), padChar])"
| "b64Encode (a # b # c # bs) =
     (let n = (unat a * 256 + unat b) * 256 + unat c in
      b64Char (n div 262144) # b64Char (n div 4096 mod 64) # b64Char (n div 64 mod 64) #
      b64Char (n mod 64) # b64Encode bs)"

text \<open>
  One four-character quantum after the other; \<open>=\<close> may only end the last one, and in
  strict mode the bits it leaves unused must be zero.
\<close>

fun b64Quanta :: "string \<Rightarrow> bytes option" where
  "b64Quanta [] = Some []"
| "b64Quanta (a # b # c # d # s) =
     (if d = padChar then
        if s \<noteq> [] then None
        else if c = padChar then
          (case (b64Val a, b64Val b) of
             (Some x, Some y) \<Rightarrow> if y mod 16 \<noteq> 0 then None else Some [of_nat ((x * 64 + y) div 16)]
           | _ \<Rightarrow> None)
        else
          (case (b64Val a, b64Val b, b64Val c) of
             (Some x, Some y, Some z) \<Rightarrow>
               if z mod 4 \<noteq> 0 then None
               else let n = (x * 64 + y) * 64 + z in
                 Some [of_nat (n div 1024), of_nat (n div 4 mod 256)]
           | _ \<Rightarrow> None)
      else
        (case (b64Val a, b64Val b, b64Val c, b64Val d, b64Quanta s) of
           (Some x, Some y, Some z, Some w, Some bs) \<Rightarrow>
             let n = ((x * 64 + y) * 64 + z) * 64 + w in
             Some (of_nat (n div 65536) # of_nat (n div 256 mod 256) # of_nat (n mod 256) # bs)
         | _ \<Rightarrow> None))"
| "b64Quanta s = None"

text \<open>\<open>StdEncoding.Strict().DecodeString\<close>: carriage returns and line feeds are skipped.\<close>

definition b64Decode :: "string \<Rightarrow> bytes option" where
  "b64Decode s = b64Quanta (filter (\<lambda>c. of_char c \<noteq> (10 :: nat) \<and> of_char c \<noteq> (13 :: nat)) s)"

lemma b64Val_b64Char: "n < 64 \<Longrightarrow> b64Val (b64Char n) = Some n"
  by (auto simp: b64Val_def b64Char_def Let_def)

lemma of_char_b64Char: "n < 64 \<Longrightarrow> (of_char (b64Char n) :: nat) \<noteq> 10 \<and> (of_char (b64Char n) :: nat) \<noteq> 13"
  by (auto simp: b64Char_def)

lemma b64Char_not_pad: "n < 64 \<Longrightarrow> b64Char n \<noteq> padChar"
  using b64Val_b64Char [of n] by (auto simp: b64Val_def)

lemma byte_eqI: "n = unat (w :: byte) \<Longrightarrow> of_nat n = w"
  by simp

lemma b64Encode_sextets:
  assumes "x = unat (a :: byte)" and "y = unat (b :: byte)" and "z = unat (c :: byte)"
    and "n = (x * 256 + y) * 256 + z"
  shows "n div 262144 < 64"
    and "((n div 262144 * 64 + n div 4096 mod 64) * 64 + n div 64 mod 64) * 64 + n mod 64 = n"
    and "n div 65536 = x" and "n div 256 mod 256 = y" and "n mod 256 = z"
proof -
  have "x < 256" "y < 256" "z < 256" using assms(1-3) by simp_all
  then have n: "n < 16777216" "n = x * 65536 + (y * 256 + z)" "y * 256 + z < 65536"
    using assms(4) by simp_all
  then show "n div 262144 < 64" by (simp add: less_mult_imp_div_less)
  show "n div 65536 = x" using n(2,3) by simp
  have d: "n div 256 = x * 256 + y" using n(2) \<open>z < 256\<close> by simp
  show "n div 256 mod 256 = y" unfolding d using \<open>y < 256\<close> by simp
  show "n mod 256 = z" using \<open>z < 256\<close> by (simp only: assms(4) mod_mult_self3 mod_less)
  have "n div 262144 * 64 + n div 4096 mod 64 = n div 4096"
    using div_mult_mod_eq [of "n div 4096" 64] by (simp add: div_mult2_eq [symmetric])
  moreover have "n div 4096 * 64 + n div 64 mod 64 = n div 64"
    using div_mult_mod_eq [of "n div 64" 64] by (simp add: div_mult2_eq [symmetric])
  ultimately show "((n div 262144 * 64 + n div 4096 mod 64) * 64 + n div 64 mod 64) * 64 + n mod 64 = n"
    by simp
qed

lemma b64Encode_one:
  assumes "n = unat (a :: byte) * 16"
  shows "n div 64 < 64" and "n mod 64 mod 16 = 0" and "(n div 64 * 64 + n mod 64) div 16 = unat a"
proof -
  have "n < 64 * 64" using assms unat_byte_less [of a] by simp
  then show "n div 64 < 64" by (simp add: less_mult_imp_div_less)
  show "n mod 64 mod 16 = 0" using assms by (simp add: mod_mod_cancel)
  show "(n div 64 * 64 + n mod 64) div 16 = unat a"
    unfolding div_mult_mod_eq using assms by simp
qed

lemma b64Encode_two:
  assumes "n = (unat (a :: byte) * 256 + unat (b :: byte)) * 4"
  shows "n div 4096 < 64" and "n mod 64 mod 4 = 0"
    and "(n div 4096 * 64 + n div 64 mod 64) * 64 + n mod 64 = n"
    and "n div 1024 = unat a" and "n div 4 mod 256 = unat b"
proof -
  have "n < 64 * 4096" if "x < 256" "y < 256" "n = (x * 256 + y) * 4" for x y
  proof -
    have "x * 256 \<le> 255 * 256" using that(1) by simp
    then show ?thesis using that by simp
  qed
  from this [OF _ _ assms] have "n < 64 * 4096" by simp
  then show "n div 4096 < 64" by (simp add: less_mult_imp_div_less)
  show "n mod 64 mod 4 = 0" using assms by (simp add: mod_mod_cancel)
  have "n div 64 div 64 * 64 + n div 64 mod 64 = n div 64" by (rule div_mult_mod_eq)
  then show "(n div 4096 * 64 + n div 64 mod 64) * 64 + n mod 64 = n"
    by (simp add: div_mult2_eq [symmetric])
  have d: "n div 4 = unat a * 256 + unat b" using assms by simp
  then have "n div 4 div 256 = unat a" by simp
  then show "n div 1024 = unat a" by (simp add: div_mult2_eq [symmetric])
  show "n div 4 mod 256 = unat b" unfolding d by simp
qed

lemma b64Quanta_chars:
  assumes "x < 64" and "y < 64"
  shows "y mod 16 = 0 \<Longrightarrow>
      b64Quanta [b64Char x, b64Char y, padChar, padChar] = Some [of_nat ((x * 64 + y) div 16)]"
    and "z < 64 \<Longrightarrow> z mod 4 = 0 \<Longrightarrow> n = (x * 64 + y) * 64 + z \<Longrightarrow>
      b64Quanta [b64Char x, b64Char y, b64Char z, padChar] = Some [of_nat (n div 1024), of_nat (n div 4 mod 256)]"
    and "z < 64 \<Longrightarrow> w < 64 \<Longrightarrow> n = ((x * 64 + y) * 64 + z) * 64 + w \<Longrightarrow> b64Quanta s = Some bs \<Longrightarrow>
      b64Quanta (b64Char x # b64Char y # b64Char z # b64Char w # s)
        = Some (of_nat (n div 65536) # of_nat (n div 256 mod 256) # of_nat (n mod 256) # bs)"
  using assms by (simp_all add: b64Val_b64Char b64Char_not_pad Let_def)

lemma b64Quanta_b64Encode: "b64Quanta (b64Encode bs) = Some bs"
proof (induction bs rule: b64Encode.induct)
  case 1
  then show ?case by simp
next
  case (2 a)
  define n where "n = unat a * 16"
  note f = b64Encode_one [OF n_def]
  have "b64Encode [a] = [b64Char (n div 64), b64Char (n mod 64), padChar, padChar]"
    by (simp only: b64Encode.simps Let_def n_def)
  moreover have "b64Quanta \<dots> = Some [of_nat ((n div 64 * 64 + n mod 64) div 16)]"
    by (rule b64Quanta_chars(1) [OF f(1) _ f(2)]) simp
  ultimately show ?case by (simp only: byte_eqI [OF f(3)])
next
  case (3 a b)
  define n where "n = (unat a * 256 + unat b) * 4"
  note f = b64Encode_two [OF n_def]
  have "b64Encode [a, b] = [b64Char (n div 4096), b64Char (n div 64 mod 64), b64Char (n mod 64), padChar]"
    by (simp only: b64Encode.simps Let_def n_def)
  moreover have "b64Quanta \<dots> = Some [of_nat (n div 1024), of_nat (n div 4 mod 256)]"
    by (rule b64Quanta_chars(2) [OF f(1) _ _ f(2) f(3) [symmetric]]) simp_all
  ultimately show ?case by (simp only: byte_eqI [OF f(4)] byte_eqI [OF f(5)])
next
  case (4 a b c bs)
  define n where "n = (unat a * 256 + unat b) * 256 + unat c"
  note f = b64Encode_sextets [OF refl refl refl n_def]
  have "b64Encode (a # b # c # bs) =
      b64Char (n div 262144) # b64Char (n div 4096 mod 64) # b64Char (n div 64 mod 64) #
      b64Char (n mod 64) # b64Encode bs"
    by (simp only: b64Encode.simps Let_def n_def)
  moreover have "b64Quanta \<dots> = Some (of_nat (n div 65536) # of_nat (n div 256 mod 256) # of_nat (n mod 256) # bs)"
    by (rule b64Quanta_chars(3) [OF f(1) _ _ _ f(2) [symmetric] 4(1) [OF refl]]) simp_all
  ultimately show ?case by (simp only: byte_eqI [OF f(3)] byte_eqI [OF f(4)] byte_eqI [OF f(5)])
qed

definition b64Clean :: "string \<Rightarrow> bool" where
  "b64Clean s \<longleftrightarrow> (\<forall>c \<in> set s. of_char c \<noteq> (10 :: nat) \<and> of_char c \<noteq> (13 :: nat))"

lemma b64Clean_simps [simp]:
  "b64Clean []" "b64Clean (c # s) \<longleftrightarrow> of_char c \<noteq> (10 :: nat) \<and> of_char c \<noteq> (13 :: nat) \<and> b64Clean s"
  by (auto simp: b64Clean_def)

lemma b64Clean_b64Encode: "b64Clean (b64Encode bs)"
proof (induction bs rule: b64Encode.induct)
  case (4 a b c bs)
  then show ?case using b64Encode_sextets(1) [OF refl refl refl refl, of a b c]
    by (simp add: Let_def of_char_b64Char)
next
  case (2 a)
  then show ?case using b64Encode_one(1) [OF refl, of a]
    by (simp only: b64Encode.simps Let_def) (simp add: of_char_b64Char del: div_mult_mult1_if)
next
  case (3 a b)
  then show ?case using b64Encode_two(1) [OF refl, of a b]
    by (simp only: b64Encode.simps Let_def) (simp add: of_char_b64Char)
qed simp

lemma b64Decode_b64Encode [simp]: "b64Decode (b64Encode bs) = Some bs"
proof -
  have "filter (\<lambda>c. of_char c \<noteq> (10 :: nat) \<and> of_char c \<noteq> (13 :: nat)) (b64Encode bs) = b64Encode bs"
    using b64Clean_b64Encode [of bs] by (simp add: filter_id_conv b64Clean_def)
  then show ?thesis by (simp add: b64Decode_def b64Quanta_b64Encode)
qed

lemma b64Encode_inject [simp]: "b64Encode a = b64Encode b \<longleftrightarrow> a = b"
  by (metis b64Decode_b64Encode option.inject)

lemma length_b64Encode: "length (b64Encode bs) = 4 * ((length bs + 2) div 3)"
proof (induction bs rule: b64Encode.induct)
  case (4 a b c bs)
  have "(length (a # b # c # bs) + 2) div 3 = (length bs + 2) div 3 + 1" by simp
  then show ?case using 4 by (simp add: Let_def)
qed (simp_all add: Let_def)

section \<open>The canonical decoders\<close>

definition hexDigest :: "bytes \<Rightarrow> string" where
  "hexDigest h = hexEncode h"

definition ParseDigest :: "string \<Rightarrow> bytes result" where
  "ParseDigest text = (case strictHex 32 text of
      None \<Rightarrow> Inl ''digest must be 32 bytes in lowercase hex''
    | Some b \<Rightarrow> Inr b)"

definition decodeIssue :: "string \<Rightarrow> bytes result" where
  "decodeIssue s = (case strictHex 32 s of
      None \<Rightarrow> Inl ''issue must be 32 bytes in lowercase hex''
    | Some b \<Rightarrow> Inr b)"

definition decodeB64 :: "string \<Rightarrow> bytes result" where
  "decodeB64 s = (case b64Decode s of
      None \<Rightarrow> Inl ''illegal base64 data''
    | Some b \<Rightarrow> if b64Encode b \<noteq> s then Inl ''noncanonical base64'' else Inr b)"

lemma ParseDigest_iff: "ParseDigest s = Inr b \<longleftrightarrow> length b = 32 \<and> s = hexDigest b"
  by (auto simp: ParseDigest_def hexDigest_def strictHex_def split: option.splits)

lemma decodeIssue_iff: "decodeIssue s = Inr b \<longleftrightarrow> length b = 32 \<and> s = hexEncode b"
  by (auto simp: decodeIssue_def strictHex_def split: option.splits)

lemma decodeB64_iff: "decodeB64 s = Inr b \<longleftrightarrow> s = b64Encode b"
  by (auto simp: decodeB64_def split: option.splits)

interpretation digest_codec: codec "\<lambda>h. Inr (hexDigest h)" ParseDigest "\<lambda>h. length h = 32"
  by unfold_locales (auto simp: ParseDigest_iff)

interpretation issue_codec: codec "\<lambda>h. Inr (hexEncode h)" decodeIssue "\<lambda>h. length h = 32"
  by unfold_locales (auto simp: decodeIssue_iff)

interpretation b64_codec: codec "\<lambda>b. Inr (b64Encode b)" decodeB64 "\<lambda>b. True"
  by unfold_locales (auto simp: decodeB64_iff)

text \<open>
  C28: the text decoders are strict.  \<open>ParseDigest\<close> and \<open>decodeIssue\<close> accept exactly the
  lowercase hexadecimal form of 32 bytes, \<open>decodeB64\<close> exactly the standard padded base64 form,
  and each returns the bytes that were encoded.
\<close>

theorem text_decoders_strict:
  "(ParseDigest s = Inr b \<longleftrightarrow> length b = 32 \<and> s = hexEncode b) \<and>
   (decodeIssue s = Inr b \<longleftrightarrow> length b = 32 \<and> s = hexEncode b) \<and>
   (decodeB64 s = Inr b \<longleftrightarrow> s = b64Encode b)"
  using digest_codec.dec_iff [of s b] issue_codec.dec_iff [of s b] b64_codec.dec_iff [of s b]
  by (auto simp: hexDigest_def)

end
