(* ===== verification/Wire.thy ===== *)
theory Wire
  imports Backend Encoding
begin

text \<open>
  \<open>src/nativeproof/wire.go\<close>: the fixed-width binary envelope of a signature.  A reader is
  the list of unread bytes.  \<open>MarshalSigned\<close> and \<open>UnmarshalSigned\<close> form a strict codec: what
  was written is read back, and nothing else is accepted, so a signature has one encoding.
\<close>

section \<open>Readers\<close>

text \<open>\<open>io.ReadFull\<close>; \<open>readInto\<close> is a call whose error is ignored: the buffer keeps its zeros.\<close>

definition readFull :: "nat \<Rightarrow> bytes \<Rightarrow> (bytes \<times> bytes) result" where
  "readFull n r =
     (if n \<le> length r then Inr (take n r, drop n r)
      else Inl (if r = [] then ''EOF'' else ''unexpected EOF''))"

definition readInto :: "nat \<Rightarrow> bytes \<Rightarrow> bytes \<times> bytes" where
  "readInto n r = (take n r @ replicate (n - length r) 0, drop n r)"

text \<open>\<open>binary.Read\<close> of an unsigned integer of \<open>n\<close> bytes, its error ignored.\<close>

definition readUint :: "nat \<Rightarrow> bytes \<Rightarrow> nat \<times> bytes" where
  "readUint n r = (if n \<le> length r then be_nat (take n r) else 0, drop n r)"

section \<open>The envelope\<close>

definition signatureMagic :: string where "signatureMagic = ''LKTRSN01''"

abbreviation statementWireBytes :: nat where "statementWireBytes \<equiv> 32 * 3 + 64 * 4 + 8 + 4 + 32"
abbreviation signaturePrefixBytes :: nat where
  "signaturePrefixBytes \<equiv> 8 + statementWireBytes + 32 * 2 + 4"

definition MarshalSigned :: "env \<Rightarrow> Signed \<Rightarrow> bytes result" where
  "MarshalSigned E s =
     (let st = sgStatement s; p = sgProof s in
      if prVersion p \<noteq> CircuitVersion \<or> length (prData p) = 0 \<or> length (prData p) > maxProofBytes
      then Inl ''invalid proof envelope''
      else if \<not> goodBN E (stV st) \<or> \<not> goodBN E (stNym st) \<or> \<not> goodSecp E (stS st) \<or> \<not> goodSecp E (stT st)
         \<or> \<not> canonicalNonzero (stR st) (cOrder (SECP E)) \<or> stK st = 0
      then Inl ''invalid signature fields''
      else Inr (str_bytes signatureMagic @ stIssue st @ stRingDigest st @ stMessageDigest st @
        EncodeBNPoint (stV st) @ EncodeBNPoint (stNym st) @ EncodeSecpPoint (stS st) @
        EncodeSecpPoint (stT st) @ u64_bytes (stTimestamp st) @ u32_bytes (stK st) @
        be_bytes 32 (nat (the (stR st))) @ prCircuitHash p @ prKeyID p @
        be_bytes 4 (length (prData p)) @ prData p))"

definition setBytesCanonical :: "nat \<Rightarrow> bytes \<Rightarrow> nat result" where
  "setBytesCanonical modulus b =
     (if be_nat b < modulus then Inr (be_nat b) else Inl ''invalid fp.Element encoding'')"

definition readBN :: "env \<Rightarrow> bytes \<Rightarrow> (affine \<times> bytes) result" where
  "readBN E r =
     andThen (readFull 64 r) (\<lambda>(enc, rest).
     andThen (setBytesCanonical (bnFp E) (take 32 enc)) (\<lambda>x.
     andThen (setBytesCanonical (bnFp E) (drop 32 enc)) (\<lambda>y.
     let p = \<lparr>pX = x, pY = y\<rparr> in
     if \<not> goodBN E p then Inl ''invalid BN254 point'' else Inr (p, rest))))"

definition readSecp :: "env \<Rightarrow> bytes \<Rightarrow> (affine \<times> bytes) result" where
  "readSecp E r =
     andThen (readFull 64 r) (\<lambda>(enc, rest).
     andThen (setBytesCanonical (secpFp E) (take 32 enc)) (\<lambda>x.
     andThen (setBytesCanonical (secpFp E) (drop 32 enc)) (\<lambda>y.
     let p = \<lparr>pX = x, pY = y\<rparr> in
     if \<not> goodSecp E p then Inl ''invalid secp256k1 point'' else Inr (p, rest))))"

text \<open>The part of \<open>UnmarshalSigned\<close> after the points.\<close>

definition unmarshalTail ::
  "env \<Rightarrow> (64 word \<Rightarrow> 32 word \<Rightarrow> int option \<Rightarrow> Statement) \<Rightarrow> bytes \<Rightarrow> Signed result" where
  "unmarshalTail E mk r =
     (let (ts, r) = readUint 8 r;
          (k, r) = readUint 4 r;
          (rb, r) = readInto 32 r;
          R = int (be_nat rb)
      in if \<not> canonicalNonzero (Some R) (cOrder (SECP E)) \<or> (of_nat k :: 32 word) = 0
         then Inl ''noncanonical challenge or quota''
         else
      let (ch, r) = readInto 32 r;
          (kid, r) = readInto 32 r;
          (n, r) = readUint 4 r
      in if n = 0 \<or> n \<noteq> length r then Inl ''truncated or trailing proof''
         else
      let (data, r) = readInto n r
      in Inr \<lparr>sgStatement = mk (of_nat ts) (of_nat k) (Some R),
              sgProof = \<lparr>prVersion = CircuitVersion, prCircuitHash = ch, prKeyID = kid, prData = data\<rparr>\<rparr>)"

definition UnmarshalSigned :: "env \<Rightarrow> bytes \<Rightarrow> Signed result" where
  "UnmarshalSigned E raw =
     (if length raw < signaturePrefixBytes \<or> length raw > signaturePrefixBytes + maxProofBytes
      then Inl ''invalid signature length''
      else
      let (magic, r) = readInto 8 raw in
      if magic \<noteq> str_bytes signatureMagic then Inl ''invalid profile magic/version''
      else
      let (issue, r) = readInto 32 r;
          (ring, r) = readInto 32 r;
          (msg, r) = readInto 32 r
      in andThen (readBN E r) (\<lambda>(v, r).
         andThen (readBN E r) (\<lambda>(nym, r).
         andThen (readSecp E r) (\<lambda>(s, r).
         andThen (readSecp E r) (\<lambda>(t, r).
         unmarshalTail E (\<lambda>ts k R. \<lparr>stV = v, stNym = nym, stS = s, stT = t, stIssue = issue,
             stRingDigest = ring, stMessageDigest = msg, stTimestamp = ts, stK = k, stR = R\<rparr>) r)))))"

section \<open>The codec\<close>

text \<open>What Go's types guarantee of a value: digests are \<open>[32]byte\<close>, coordinates are reduced.\<close>

definition reduced :: "nat \<Rightarrow> affine \<Rightarrow> bool" where
  "reduced m p \<longleftrightarrow> pX p < m \<and> pY p < m \<and> pX p < 256 ^ 32 \<and> pY p < 256 ^ 32"

definition wf_signed :: "env \<Rightarrow> Signed \<Rightarrow> bool" where
  "wf_signed E s \<longleftrightarrow>
     (let st = sgStatement s; p = sgProof s in
      length (stIssue st) = 32 \<and> length (stRingDigest st) = 32 \<and> length (stMessageDigest st) = 32 \<and>
      length (prCircuitHash p) = 32 \<and> length (prKeyID p) = 32 \<and>
      reduced (bnFp E) (stV st) \<and> reduced (bnFp E) (stNym st) \<and>
      reduced (secpFp E) (stS st) \<and> reduced (secpFp E) (stT st) \<and>
      the (stR st) < 256 ^ 32)"

lemma readInto_append [simp]: "length b = n \<Longrightarrow> readInto n (b @ r) = (b, r)"
  by (simp add: readInto_def)

lemma readUint_append [simp]: "length b = n \<Longrightarrow> readUint n (b @ r) = (be_nat b, r)"
  by (simp add: readUint_def)

lemma readInto_all [simp]: "length b = n \<Longrightarrow> readInto n b = (b, [])"
  by (simp add: readInto_def)

lemma readInto_split: "readInto n r = (b, r') \<Longrightarrow> n \<le> length r \<Longrightarrow> r = b @ r' \<and> length b = n"
  by (auto simp: readInto_def)

lemma readUint_split:
  "readUint n r = (k, r') \<Longrightarrow> n \<le> length r \<Longrightarrow> r = be_bytes n k @ r' \<and> k < 256 ^ n"
  using be_nat_less [of "take n r"] by (auto simp: readUint_def be_bytes_be_nat)

lemma length_EncodePoint [simp]: "length (EncodeBNPoint p) = 64" "length (EncodeSecpPoint p) = 64"
  by (simp_all add: EncodeBNPoint_def EncodeSecpPoint_def)

lemma readBN_append:
  "goodBN E p \<Longrightarrow> reduced (bnFp E) p \<Longrightarrow> readBN E (EncodeBNPoint p @ r) = Inr (p, r)"
  by (cases p) (simp add: readBN_def readFull_def EncodeBNPoint_def reduced_def setBytesCanonical_def Let_def)

lemma readSecp_append:
  "goodSecp E p \<Longrightarrow> reduced (secpFp E) p \<Longrightarrow> readSecp E (EncodeSecpPoint p @ r) = Inr (p, r)"
  by (cases p) (simp add: readSecp_def readFull_def EncodeSecpPoint_def reduced_def setBytesCanonical_def Let_def)

lemma point_split:
  assumes "64 \<le> length r"
  shows "r = be_bytes 32 (be_nat (take 32 r)) @ be_bytes 32 (be_nat (drop 32 (take 64 r))) @ drop 64 r"
    and "be_nat (take 32 r) < 256 ^ 32" and "be_nat (drop 32 (take 64 r)) < 256 ^ 32"
proof -
  have "take 32 r @ drop 32 (take 64 r) = take 64 r"
    using append_take_drop_id [of 32 "take 64 r"] by simp
  then have "take 32 r @ drop 32 (take 64 r) @ drop 64 r = r"
    by (metis append.assoc append_take_drop_id)
  then show "r = be_bytes 32 (be_nat (take 32 r)) @ be_bytes 32 (be_nat (drop 32 (take 64 r))) @ drop 64 r"
    using assms by (simp add: be_bytes_be_nat)
  show "be_nat (take 32 r) < 256 ^ 32" and "be_nat (drop 32 (take 64 r)) < 256 ^ 32"
    using assms be_nat_less [of "take 32 r"] be_nat_less [of "drop 32 (take 64 r)"] by simp_all
qed

lemma readBN_ok:
  assumes "readBN E r = Inr (p, r')"
  shows "r = EncodeBNPoint p @ r' \<and> goodBN E p \<and> reduced (bnFp E) p"
proof -
  have len: "64 \<le> length r" using assms by (auto simp: readBN_def readFull_def split: if_splits)
  have "p = \<lparr>pX = be_nat (take 32 r), pY = be_nat (drop 32 (take 64 r))\<rparr>" "r' = drop 64 r"
    "goodBN E p" "pX p < bnFp E" "pY p < bnFp E"
    using assms len by (auto simp: readBN_def readFull_def setBytesCanonical_def Let_def split: if_splits)
  with point_split [OF len] show ?thesis by (simp add: reduced_def EncodeBNPoint_def)
qed

lemma readSecp_ok:
  assumes "readSecp E r = Inr (p, r')"
  shows "r = EncodeSecpPoint p @ r' \<and> goodSecp E p \<and> reduced (secpFp E) p"
proof -
  have len: "64 \<le> length r" using assms by (auto simp: readSecp_def readFull_def split: if_splits)
  have "p = \<lparr>pX = be_nat (take 32 r), pY = be_nat (drop 32 (take 64 r))\<rparr>" "r' = drop 64 r"
    "goodSecp E p" "pX p < secpFp E" "pY p < secpFp E"
    using assms len by (auto simp: readSecp_def readFull_def setBytesCanonical_def Let_def split: if_splits)
  with point_split [OF len] show ?thesis by (simp add: reduced_def EncodeSecpPoint_def)
qed

lemma UnmarshalSigned_MarshalSigned:
  assumes wf: "wf_signed E s" and enc: "MarshalSigned E s = Inr raw"
  shows "UnmarshalSigned E raw = Inr s"
proof -
  obtain v nym ss t issue ring md ts k r where st: "sgStatement s =
      \<lparr>stV = v, stNym = nym, stS = ss, stT = t, stIssue = issue, stRingDigest = ring,
       stMessageDigest = md, stTimestamp = ts, stK = k, stR = r\<rparr>" by (cases "sgStatement s")
  obtain ver ch kid data where pr: "sgProof s =
      \<lparr>prVersion = ver, prCircuitHash = ch, prKeyID = kid, prData = data\<rparr>" by (cases "sgProof s")
  have s: "s = \<lparr>sgStatement = \<lparr>stV = v, stNym = nym, stS = ss, stT = t, stIssue = issue,
        stRingDigest = ring, stMessageDigest = md, stTimestamp = ts, stK = k, stR = r\<rparr>,
      sgProof = \<lparr>prVersion = ver, prCircuitHash = ch, prKeyID = kid, prData = data\<rparr>\<rparr>"
    using st pr by (cases s) simp
  from enc obtain R where g: "ver = CircuitVersion" "data \<noteq> []" "length data \<le> 1048576"
    "goodBN E v" "goodBN E nym" "goodSecp E ss" "goodSecp E t" "k \<noteq> 0" "r = Some R" "0 < R" "R < cOrder (SECP E)"
    and raw: "raw = str_bytes signatureMagic @ issue @ ring @ md @
        EncodeBNPoint v @ EncodeBNPoint nym @ EncodeSecpPoint ss @ EncodeSecpPoint t @ u64_bytes ts @ u32_bytes k @
        be_bytes 32 (nat R) @ ch @ kid @ be_bytes 4 (length data) @ data"
    by (auto simp: MarshalSigned_def s canonicalNonzero_iff Let_def)
  have w: "length issue = 32" "length ring = 32" "length md = 32" "length ch = 32" "length kid = 32"
    "reduced (bnFp E) v" "reduced (bnFp E) nym" "reduced (secpFp E) ss" "reduced (secpFp E) t" "R < 256 ^ 32"
    using wf by (simp_all add: wf_signed_def s g)
  have "be_nat (be_bytes 32 (nat R)) = nat R" using w(10) g(10) by (intro be_nat_be_bytes_id) (simp add: nat_less_iff)
  moreover have "be_nat (be_bytes 4 (length data)) = length data" using g(3) by (intro be_nat_be_bytes_id) simp
  moreover have magic: "length (str_bytes signatureMagic) = 8" by (simp add: signatureMagic_def)
  ultimately show ?thesis
    unfolding raw s using w g
    by (simp add: UnmarshalSigned_def unmarshalTail_def readBN_append readSecp_append Let_def)
qed

lemma unmarshalTail_ok:
  assumes "unmarshalTail E mk raw = Inr s" and "112 \<le> length raw"
  obtains ts k R ch kid data where
    "raw = u64_bytes ts @ u32_bytes k @ be_bytes 32 (nat R) @ ch @ kid @ be_bytes 4 (length data) @ data"
    "k \<noteq> 0" "0 < R" "R < cOrder (SECP E)" "R < 256 ^ 32" "length ch = 32" "length kid = 32" "data \<noteq> []"
    "s = \<lparr>sgStatement = mk ts k (Some R),
          sgProof = \<lparr>prVersion = CircuitVersion, prCircuitHash = ch, prKeyID = kid, prData = data\<rparr>\<rparr>"
proof -
  obtain ts r1 k r2 rb r3 ch r4 kid r5 n r6 where r: "readUint 8 raw = (ts, r1)" "readUint 4 r1 = (k, r2)"
    "readInto 32 r2 = (rb, r3)" "readInto 32 r3 = (ch, r4)" "readInto 32 r4 = (kid, r5)" "readUint 4 r5 = (n, r6)"
    by (meson surj_pair)
  have 1: "raw = be_bytes 8 ts @ r1" "ts < 256 ^ 8" using readUint_split [OF r(1)] assms(2) by auto
  then have 2: "r1 = be_bytes 4 k @ r2" "k < 256 ^ 4" using readUint_split [OF r(2)] assms(2) by auto
  with 1 have 3: "r2 = rb @ r3" "length rb = 32" using readInto_split [OF r(3)] assms(2) by auto
  with 1 2 have 4: "r3 = ch @ r4" "length ch = 32" using readInto_split [OF r(4)] assms(2) by auto
  with 1 2 3 have 5: "r4 = kid @ r5" "length kid = 32" using readInto_split [OF r(5)] assms(2) by auto
  with 1 2 3 4 have 6: "r5 = be_bytes 4 n @ r6" using readUint_split [OF r(6)] assms(2) by auto
  have rd: "readInto (length r6) r6 = (r6, [])" by simp
  from assms(1) have f: "0 < int (be_nat rb)" "int (be_nat rb) < cOrder (SECP E)" "(of_nat k :: 32 word) \<noteq> 0"
    "n = length r6" "n \<noteq> 0"
    "s = \<lparr>sgStatement = mk (of_nat ts) (of_nat k) (Some (int (be_nat rb))),
          sgProof = \<lparr>prVersion = CircuitVersion, prCircuitHash = ch, prKeyID = kid, prData = r6\<rparr>\<rparr>"
    by (auto simp: unmarshalTail_def r rd Let_def)
  have "u64_bytes (of_nat ts) = be_bytes 8 ts" "u32_bytes (of_nat k) = be_bytes 4 k"
    using 1(2) 2(2) by (simp_all add: unat_of_nat)
  moreover have "be_nat rb < 256 ^ 32" using be_nat_less [of rb] 3(2) by simp
  moreover have "be_bytes 32 (be_nat rb) = rb" using 3(2) by (rule be_bytes_be_nat)
  ultimately show thesis
    using f 1 2 3 4 5 6 by (intro that [of "of_nat ts" "of_nat k" "int (be_nat rb)" ch kid r6]) auto
qed

lemma MarshalSigned_UnmarshalSigned:
  assumes "UnmarshalSigned E raw = Inr s"
  shows "wf_signed E s \<and> MarshalSigned E s = Inr raw"
proof -
  have len: "472 \<le> length raw" "length raw \<le> 1049048" using assms by (auto simp: UnmarshalSigned_def)
  obtain magic r1 issue r2 ring r3 md r4 where r: "readInto 8 raw = (magic, r1)" "readInto 32 r1 = (issue, r2)"
    "readInto 32 r2 = (ring, r3)" "readInto 32 r3 = (md, r4)"
    by (meson surj_pair)
  have 1: "raw = magic @ r1" "length magic = 8" using readInto_split [OF r(1)] len by auto
  then have 2: "r1 = issue @ r2" "length issue = 32" using readInto_split [OF r(2)] len by auto
  with 1 have 3: "r2 = ring @ r3" "length ring = 32" using readInto_split [OF r(3)] len by auto
  with 1 2 have 4: "r3 = md @ r4" "length md = 32" using readInto_split [OF r(4)] len by auto
  from assms obtain v r5 nym r6 ss r7 t r8 where p: "readBN E r4 = Inr (v, r5)" "readBN E r5 = Inr (nym, r6)"
    "readSecp E r6 = Inr (ss, r7)" "readSecp E r7 = Inr (t, r8)" and magic: "magic = str_bytes signatureMagic"
    and tail: "unmarshalTail E (\<lambda>ts k R. \<lparr>stV = v, stNym = nym, stS = ss, stT = t, stIssue = issue,
         stRingDigest = ring, stMessageDigest = md, stTimestamp = ts, stK = k, stR = R\<rparr>) r8 = Inr s"
    by (auto simp: UnmarshalSigned_def r)
  note q = readBN_ok [OF p(1)] readBN_ok [OF p(2)] readSecp_ok [OF p(3)] readSecp_ok [OF p(4)]
  have raw: "raw = magic @ issue @ ring @ md @ EncodeBNPoint v @ EncodeBNPoint nym @ EncodeSecpPoint ss @
      EncodeSecpPoint t @ r8"
    using 1 2 3 4 q by simp
  then have l: "112 \<le> length r8" "length r8 \<le> 1048688" using len 1 2 3 4 by simp_all
  obtain ts k R ch kid data where
    tl: "r8 = u64_bytes ts @ u32_bytes k @ be_bytes 32 (nat R) @ ch @ kid @ be_bytes 4 (length data) @ data"
    "k \<noteq> 0" "0 < R" "R < cOrder (SECP E)" "R < 256 ^ 32" "length ch = 32" "length kid = 32" "data \<noteq> []"
    and s: "s = \<lparr>sgStatement = \<lparr>stV = v, stNym = nym, stS = ss, stT = t, stIssue = issue,
         stRingDigest = ring, stMessageDigest = md, stTimestamp = ts, stK = k, stR = Some R\<rparr>,
          sgProof = \<lparr>prVersion = CircuitVersion, prCircuitHash = ch, prKeyID = kid, prData = data\<rparr>\<rparr>"
    using unmarshalTail_ok [OF tail l(1)] .
  have "length data \<le> 1048576" using l(2) tl(1,6,7) by simp
  then have "MarshalSigned E s = Inr raw"
    unfolding raw magic tl(1) using q tl(2-4,8)
    by (simp add: s MarshalSigned_def Let_def)
  moreover have "wf_signed E s"
    using q tl(5-7) 2(2) 3(2) 4(2) by (simp add: s wf_signed_def Let_def)
  ultimately show ?thesis by simp
qed

interpretation signed_codec: codec "MarshalSigned E" "UnmarshalSigned E" "wf_signed E" for E
  by unfold_locales (erule (1) UnmarshalSigned_MarshalSigned, erule MarshalSigned_UnmarshalSigned)

text \<open>
  C8: the wire format is canonical.  \<open>UnmarshalSigned\<close> accepts a byte string exactly when it
  is what \<open>MarshalSigned\<close> writes for the signature it returns; decoding inverts encoding,
  and no signature has two accepted encodings.
\<close>

theorem signature_encoding_canonical:
  "(UnmarshalSigned E raw = Inr s \<longleftrightarrow> wf_signed E s \<and> MarshalSigned E s = Inr raw) \<and>
   \<not> (raw \<noteq> raw' \<and> UnmarshalSigned E raw = Inr s \<and> UnmarshalSigned E raw' = Inr s)"
  using signed_codec.dec_iff signed_codec.unique_encoding by blast

end
