(* ===== verification/SetupEncoding.thy ===== *)
theory SetupEncoding
  imports Wire
begin

text \<open>
  \<open>src/nativeproof/setup_encoding.go\<close>: the portable encoding of the public parameters, and
  the preflight that checks every length field of a proving key against the compiled circuit
  before gnark's decoder allocates.  The compressed point encodings and the FFT domain belong
  to gnark-crypto: they are the parameter records \<open>pointcodec\<close> and \<open>fft\<close>.
\<close>

section \<open>Parameters of the model\<close>

text \<open>
  \<open>Bytes\<close> and \<open>SetBytes\<close> of the two pairing groups.  The law: a group element is written in
  32 (64) bytes from which \<open>SetBytes\<close> reads it back.
\<close>

record pointcodec =
  pcG1Bytes :: "affine \<Rightarrow> bytes"
  pcG1Set :: "bytes \<Rightarrow> affine result"
  pcG2Bytes :: "affine2 \<Rightarrow> bytes"
  pcG2Set :: "bytes \<Rightarrow> affine2 result"

definition g1_encodes :: "pointcodec \<Rightarrow> affine \<Rightarrow> bool" where
  "g1_encodes P p \<longleftrightarrow> length (pcG1Bytes P p) = 32 \<and> pcG1Set P (pcG1Bytes P p) = Inr p"

definition g2_encodes :: "pointcodec \<Rightarrow> affine2 \<Rightarrow> bool" where
  "g2_encodes P p \<longleftrightarrow> length (pcG2Bytes P p) = 64 \<and> pcG2Set P (pcG2Bytes P p) = Inr p"

definition point_laws :: "env \<Rightarrow> pointcodec \<Rightarrow> bool" where
  "point_laws E P \<longleftrightarrow>
     (\<forall>p. in_group (BN E) p \<longrightarrow> g1_encodes P p) \<and> (\<forall>p. in_group (BN2 E) p \<longrightarrow> g2_encodes P p)"

text \<open>\<open>fft.NewDomain\<close> for a number of constraints: its cardinality and what \<open>WriteTo\<close> writes.\<close>

record fft =
  fdCardinality :: "64 word \<Rightarrow> 64 word"
  fdWrite :: "64 word \<Rightarrow> bytes result"
  fdNextPowerOfTwo :: "64 word \<Rightarrow> 64 word"

section \<open>Public parameters\<close>

definition paramsMagic :: string where "paramsMagic = ''LKTRSP01''"

abbreviation (input) maxParamsBytes :: nat where "maxParamsBytes \<equiv> 12 + 32 + 64 * 2 + (65536 + 1) * 32"

definition MarshalParams :: "env \<Rightarrow> pointcodec \<Rightarrow> Params \<Rightarrow> bytes result" where
  "MarshalParams E P p =
     andThen (ValidateParams E p) (\<lambda>_.
       Inr (str_bytes paramsMagic @ be_bytes 4 (length (parPowers p)) @
         pcG1Bytes P (parG p) @ pcG2Bytes P (parH p) @ pcG2Bytes P (parHTau p) @
         concat (map (pcG1Bytes P) (parPowers p))))"

text \<open>The closures \<open>g1\<close> and \<open>g2\<close>: read at the cursor, re-encode, compare.\<close>

definition paramG1 :: "env \<Rightarrow> pointcodec \<Rightarrow> bytes \<Rightarrow> nat \<Rightarrow> (affine \<times> nat) result" where
  "paramG1 E P raw pos =
     (let data = take 32 (drop pos raw) in
      andThen (pcG1Set P data) (\<lambda>out.
        if data \<noteq> pcG1Bytes P out \<or> \<not> goodBN E out then Inl ''noncanonical public G1''
        else Inr (out, pos + 32)))"

definition paramG2 :: "env \<Rightarrow> pointcodec \<Rightarrow> bytes \<Rightarrow> nat \<Rightarrow> (affine2 \<times> nat) result" where
  "paramG2 E P raw pos =
     (let data = take 64 (drop pos raw) in
      andThen (pcG2Set P data) (\<lambda>out.
        if data \<noteq> pcG2Bytes P out \<or> \<not> goodBN2 E out then Inl ''noncanonical public G2''
        else Inr (out, pos + 64)))"

fun paramPowers :: "env \<Rightarrow> pointcodec \<Rightarrow> bytes \<Rightarrow> nat \<Rightarrow> nat \<Rightarrow> affine list result" where
  "paramPowers E P raw 0 pos = Inr []"
| "paramPowers E P raw (Suc n) pos =
     andThen (paramG1 E P raw pos) (\<lambda>(p, pos).
     andThen (paramPowers E P raw n pos) (\<lambda>ps. Inr (p # ps)))"

definition UnmarshalParams :: "env \<Rightarrow> pointcodec \<Rightarrow> bytes \<Rightarrow> Params result" where
  "UnmarshalParams E P raw =
     (if length raw < 12 \<or> length raw > maxParamsBytes \<or> take 8 raw \<noteq> str_bytes paramsMagic
      then Inl ''invalid public parameter header''
      else let cnt = be_nat (take 4 (drop 8 raw)) in
      if cnt < 2 \<or> cnt > 65536 + 1 \<or> length raw \<noteq> 12 + 32 + 128 + cnt * 32
      then Inl ''invalid public power count or size''
      else
        andThen (paramG1 E P raw 12) (\<lambda>(g, pos).
        andThen (paramG2 E P raw pos) (\<lambda>(h, pos).
        andThen (paramG2 E P raw pos) (\<lambda>(hTau, pos).
        andThen (paramPowers E P raw cnt pos) (\<lambda>powers.
        let p = \<lparr>parG = g, parH = h, parHTau = hTau, parPowers = powers\<rparr> in
        andThen (ValidateParams E p) (\<lambda>_. Inr p))))))"

section \<open>Preflight of a proving key\<close>

text \<open>The closures share the cursor \<open>pos\<close>; here each takes it and returns it advanced.\<close>

definition pkTake :: "bytes \<Rightarrow> int \<Rightarrow> nat \<Rightarrow> (bytes \<times> nat) result" where
  "pkTake raw n pos =
     (if n < 0 \<or> n > int (length raw) - int pos then Inl ''truncated proving key''
      else Inr (take (nat n) (drop pos raw), pos + nat n))"

definition pkU32 :: "bytes \<Rightarrow> nat \<Rightarrow> (int \<times> nat) result" where
  "pkU32 raw pos = andThen (pkTake raw 4 pos) (\<lambda>(b, pos). Inr (int (be_nat b), pos))"

definition pkU64 :: "bytes \<Rightarrow> nat \<Rightarrow> (64 word \<times> nat) result" where
  "pkU64 raw pos = andThen (pkTake raw 8 pos) (\<lambda>(b, pos). Inr (of_nat (be_nat b), pos))"

definition pkPoints :: "bytes \<Rightarrow> int \<Rightarrow> nat \<Rightarrow> nat \<Rightarrow> nat result" where
  "pkPoints raw n width pos =
     (if n < 0 \<or> n > (int (length raw) - int pos) div int width then Inl ''unsafe PK point count''
      else andThen (pkTake raw (n * int width) pos) (\<lambda>(b, pos).
        if list_ex (\<lambda>i. \<not> compressedFlag (b ! (i * width))) [0..<nat n]
        then Inl ''uncompressed PK point forbidden''
        else Inr pos))"

definition pkVector :: "bytes \<Rightarrow> nat \<Rightarrow> int \<Rightarrow> nat \<Rightarrow> (int \<times> nat) result" where
  "pkVector raw width lim pos =
     (case pkU32 raw pos of
        Inl e \<Rightarrow> Inl ''unsafe PK vector length''
      | Inr (n, pos) \<Rightarrow>
          if n > lim then Inl ''unsafe PK vector length''
          else andThen (pkPoints raw n width pos) (\<lambda>pos. Inr (n, pos)))"

text \<open>A \<open>u64\<close> whose failure and whose failed check give the same error.\<close>

definition pkChecked :: "bytes \<Rightarrow> (64 word \<Rightarrow> bool) \<Rightarrow> string \<Rightarrow> nat \<Rightarrow> (64 word \<times> nat) result" where
  "pkChecked raw good msg pos =
     (case pkU64 raw pos of
        Inl e \<Rightarrow> Inl msg
      | Inr (n, pos) \<Rightarrow> if good n then Inr (n, pos) else Inl msg)"

fun pkCountFlags :: "bytes \<Rightarrow> 64 word \<Rightarrow> (64 word) result" where
  "pkCountFlags [] cnt = Inr cnt"
| "pkCountFlags (v # b) cnt =
     (if v > 1 then Inl ''invalid PK infinity flag'' else pkCountFlags b (cnt + ucast v))"

fun pkInfinities :: "bytes \<Rightarrow> int \<Rightarrow> (64 word) list \<Rightarrow> nat \<Rightarrow> nat result" where
  "pkInfinities raw wires [] pos = Inr pos"
| "pkInfinities raw wires (n # ns) pos =
     andThen (pkTake raw wires pos) (\<lambda>(b, pos).
     andThen (pkCountFlags b 0) (\<lambda>cnt.
     if cnt \<noteq> n then Inl ''PK infinity flags mismatch'' else pkInfinities raw wires ns pos))"

fun pkBases :: "bytes \<Rightarrow> int \<Rightarrow> nat \<Rightarrow> int list list \<Rightarrow> nat \<Rightarrow> nat result" where
  "pkBases raw wires i [] pos = Inr pos"
| "pkBases raw wires i (c # cs) pos =
     andThen (pkVector raw 32 wires pos) (\<lambda>(a, pos).
     andThen (pkVector raw 32 wires pos) (\<lambda>(b, pos).
     if a \<noteq> b \<or> a \<noteq> int (length c)
     then Inl (''PK commitment basis '' @ dec_nat i @ '' differs from circuit'')
     else pkBases raw wires (i + 1) cs pos))"

definition pkWires :: "ConstraintSystem \<Rightarrow> int" where
  "pkWires cs = csNbPublic cs + csNbSecret cs + csNbInternal cs"

definition pkPrivate :: "ConstraintSystem \<Rightarrow> int" where
  "pkPrivate cs = foldl (\<lambda>private c. private - int (length c))
     (csNbSecret cs + csNbInternal cs - int (length (csPrivateCommitted cs))) (csPrivateCommitted cs)"

text \<open>The \<open>G1\<close> and \<open>G2\<close> vectors, then the infinity counts and flags, then the commitment bases.\<close>

definition pkVectors ::
  "fft \<Rightarrow> bytes \<Rightarrow> ConstraintSystem \<Rightarrow> nat \<Rightarrow> (int \<times> int \<times> int \<times> nat) result" where
  "pkVectors F raw cs pos =
     (let wires = pkWires cs; nbc = of_int (csNbConstraints cs) in
      andThen (pkPoints raw 3 32 pos) (\<lambda>pos.
      andThen (pkVector raw 32 wires pos) (\<lambda>(na, pos).
      andThen (pkVector raw 32 wires pos) (\<lambda>(nb, pos).
      andThen (pkVector raw 32 (sint (fdNextPowerOfTwo F nbc)) pos) (\<lambda>(nz, pos).
      andThen (pkVector raw 32 wires pos) (\<lambda>(nk, pos).
      if nk \<noteq> pkPrivate cs \<or> nz \<noteq> sint (fdCardinality F nbc) - 1
      then Inl ''PK private or quotient vector differs from circuit''
      else andThen (pkPoints raw 2 64 pos) (\<lambda>pos.
      andThen (pkVector raw 64 wires pos) (\<lambda>(nb2, pos). Inr (na, nb, nb2, pos)))))))))"

definition pkCommitments :: "bytes \<Rightarrow> ConstraintSystem \<Rightarrow> nat \<Rightarrow> nat result" where
  "pkCommitments raw cs pos =
     (case pkU32 raw pos of
        Inl e \<Rightarrow> Inl ''PK commitment count differs from circuit''
      | Inr (nc, pos) \<Rightarrow>
          if nc \<noteq> int (length (csPrivateCommitted cs)) then Inl ''PK commitment count differs from circuit''
          else pkBases raw (pkWires cs) 0 (csPrivateCommitted cs) pos)"

definition pkTail :: "bytes \<Rightarrow> ConstraintSystem \<Rightarrow> int \<Rightarrow> int \<Rightarrow> int \<Rightarrow> nat \<Rightarrow> nat result" where
  "pkTail raw cs na nb nb2 pos =
     (let wires = pkWires cs in
      andThen (pkChecked raw (\<lambda>nw. nw = of_int wires) ''PK wire count differs from circuit'' pos) (\<lambda>(nw, pos).
      andThen (pkChecked raw (\<lambda>ia. ia \<le> nw) ''invalid PK infinity count'' pos) (\<lambda>(ia, pos).
      andThen (pkChecked raw (\<lambda>ib. ib \<le> nw) ''invalid PK infinity count'' pos) (\<lambda>(ib, pos).
      if na \<noteq> wires - sint ia \<or> nb \<noteq> wires - sint ib \<or> nb2 \<noteq> nb then Inl ''inconsistent PK point vectors''
      else andThen (pkInfinities raw wires [ia, ib] pos) (pkCommitments raw cs)))))"

definition preflightProvingKey :: "fft \<Rightarrow> bytes \<Rightarrow> ConstraintSystem \<Rightarrow> unit result" where
  "preflightProvingKey F raw cs =
     (let domainSize = 8 + 5 * 32 + 1 in
      andThen (fdWrite F (of_int (csNbConstraints cs))) (\<lambda>expected.
      if length raw < domainSize \<or> take (domainSize - 1) raw \<noteq> take (domainSize - 1) expected
         \<or> raw ! (domainSize - 1) > 1
      then Inl ''PK FFT domain differs from circuit''
      else if \<not> csGroth16 cs then Inl ''unsupported commitments''
      else andThen (pkVectors F raw cs domainSize) (\<lambda>(na, nb, nb2, pos).
      andThen (pkTail raw cs na nb nb2 pos) (\<lambda>pos.
      if pos \<noteq> length raw then Inl ''trailing proving key bytes'' else Inr ()))))"

section \<open>The parameter codec\<close>

text \<open>Points that \<open>SetBytes\<close> reads back from what \<open>Bytes\<close> writes.\<close>

definition wf_params :: "pointcodec \<Rightarrow> Params \<Rightarrow> bool" where
  "wf_params P p \<longleftrightarrow>
     g1_encodes P (parG p) \<and> g2_encodes P (parH p) \<and> g2_encodes P (parHTau p) \<and>
     (\<forall>q \<in> set (parPowers p). g1_encodes P q)"

lemma paramG1_ok:
  assumes "paramG1 E P raw pos = Inr (p, pos')" and "pos + 32 \<le> length raw"
  shows "pos' = pos + 32 \<and> drop pos raw = pcG1Bytes P p @ drop pos' raw \<and> g1_encodes P p"
proof -
  from assms have "pos' = pos + 32" and d: "take 32 (drop pos raw) = pcG1Bytes P p"
    and "pcG1Set P (take 32 (drop pos raw)) = Inr p"
    by (auto simp: paramG1_def Let_def)
  moreover have "drop pos raw = take 32 (drop pos raw) @ drop (pos + 32) raw"
    by (metis append_take_drop_id drop_drop add.commute)
  moreover have "length (pcG1Bytes P p) = 32" using assms(2) by (simp flip: d)
  ultimately show ?thesis by (simp add: g1_encodes_def)
qed

lemma paramG2_ok:
  assumes "paramG2 E P raw pos = Inr (p, pos')" and "pos + 64 \<le> length raw"
  shows "pos' = pos + 64 \<and> drop pos raw = pcG2Bytes P p @ drop pos' raw \<and> g2_encodes P p"
proof -
  from assms have "pos' = pos + 64" and d: "take 64 (drop pos raw) = pcG2Bytes P p"
    and "pcG2Set P (take 64 (drop pos raw)) = Inr p"
    by (auto simp: paramG2_def Let_def)
  moreover have "drop pos raw = take 64 (drop pos raw) @ drop (pos + 64) raw"
    by (metis append_take_drop_id drop_drop add.commute)
  moreover have "length (pcG2Bytes P p) = 64" using assms(2) by (simp flip: d)
  ultimately show ?thesis by (simp add: g2_encodes_def)
qed

lemma paramPowers_ok:
  "paramPowers E P raw n pos = Inr ps \<Longrightarrow> pos + 32 * n \<le> length raw \<Longrightarrow>
     drop pos raw = concat (map (pcG1Bytes P) ps) @ drop (pos + 32 * n) raw \<and>
     length ps = n \<and> (\<forall>q \<in> set ps. g1_encodes P q)"
proof (induction n arbitrary: pos ps)
  case (Suc n)
  from Suc.prems(1) obtain p pos' qs where s: "paramG1 E P raw pos = Inr (p, pos')"
    "paramPowers E P raw n pos' = Inr qs" "ps = p # qs" by auto
  from paramG1_ok [OF s(1)] Suc.prems(2) have p: "pos' = pos + 32"
    "drop pos raw = pcG1Bytes P p @ drop pos' raw" "g1_encodes P p" by auto
  from Suc.IH [OF s(2)] Suc.prems(2) p(1) have
    "drop pos' raw = concat (map (pcG1Bytes P) qs) @ drop (pos' + 32 * n) raw \<and>
     length qs = n \<and> (\<forall>q \<in> set qs. g1_encodes P q)" by simp
  with p s(3) show ?case by (simp add: add.assoc)
qed simp

lemma paramG1_append:
  "g1_encodes P p \<Longrightarrow> goodBN E p \<Longrightarrow> length pre = pos \<Longrightarrow>
     paramG1 E P (pre @ pcG1Bytes P p @ rest) pos = Inr (p, pos + 32)"
  by (simp add: paramG1_def g1_encodes_def Let_def)

lemma paramG2_append:
  "g2_encodes P p \<Longrightarrow> goodBN2 E p \<Longrightarrow> length pre = pos \<Longrightarrow>
     paramG2 E P (pre @ pcG2Bytes P p @ rest) pos = Inr (p, pos + 64)"
  by (simp add: paramG2_def g2_encodes_def Let_def)

lemma paramPowers_append:
  "\<forall>q \<in> set ps. g1_encodes P q \<and> goodBN E q \<Longrightarrow> length pre = pos \<Longrightarrow>
     paramPowers E P (pre @ concat (map (pcG1Bytes P) ps)) (length ps) pos = Inr ps"
proof (induction ps arbitrary: pre pos)
  case (Cons p ps)
  have l: "length (pre @ pcG1Bytes P p) = pos + 32" using Cons.prems by (simp add: g1_encodes_def)
  have "paramG1 E P (pre @ pcG1Bytes P p @ concat (map (pcG1Bytes P) ps)) pos = Inr (p, pos + 32)"
    using Cons.prems by (intro paramG1_append) auto
  moreover have "paramPowers E P ((pre @ pcG1Bytes P p) @ concat (map (pcG1Bytes P) ps)) (length ps) (pos + 32) = Inr ps"
    using Cons.prems by (intro Cons.IH l) auto
  ultimately show ?case by simp
qed simp

lemma length_concat_g1:
  "\<forall>q \<in> set ps. g1_encodes P q \<Longrightarrow> length (concat (map (pcG1Bytes P) ps)) = 32 * length ps"
  by (induction ps) (auto simp: g1_encodes_def)

lemma UnmarshalParams_ok:
  fixes raw :: bytes
  defines "n \<equiv> be_nat (take 4 (drop 8 raw))"
  assumes "UnmarshalParams E P raw = Inr p"
  obtains g p1 h p2 ht p3 ps where
    "take 8 raw = str_bytes paramsMagic" "length raw = 12 + 32 + 128 + n * 32"
    "paramG1 E P raw 12 = Inr (g, p1)" "paramG2 E P raw p1 = Inr (h, p2)" "paramG2 E P raw p2 = Inr (ht, p3)"
    "paramPowers E P raw n p3 = Inr ps" "p = \<lparr>parG = g, parH = h, parHTau = ht, parPowers = ps\<rparr>"
    "ValidateParams E p = Inr ()"
proof -
  note ok = assms(2) [unfolded UnmarshalParams_def Let_def if_Inl_eq_Inr de_Morgan_disj not_not, folded n_def]
  note hd = ok [THEN conjunct1, THEN conjunct2, THEN conjunct2]
    ok [THEN conjunct2, THEN conjunct1, THEN conjunct2, THEN conjunct2]
  show thesis using ok [THEN conjunct2, THEN conjunct2] by (auto intro: that [OF hd])
qed

lemma MarshalParams_UnmarshalParams:
  assumes "UnmarshalParams E P raw = Inr p"
  shows "wf_params P p \<and> MarshalParams E P p = Inr raw"
proof -
  define n where "n = be_nat (take 4 (drop 8 raw))"
  obtain g p1 h p2 ht p3 ps where m: "take 8 raw = str_bytes paramsMagic"
    and l: "length raw = 12 + 32 + 128 + n * 32" and s: "paramG1 E P raw 12 = Inr (g, p1)"
    "paramG2 E P raw p1 = Inr (h, p2)" "paramG2 E P raw p2 = Inr (ht, p3)" "paramPowers E P raw n p3 = Inr ps"
    and p: "p = \<lparr>parG = g, parH = h, parHTau = ht, parPowers = ps\<rparr>" and v: "ValidateParams E p = Inr ()"
    using UnmarshalParams_ok [OF assms, folded n_def] .
  have len: "length raw = 172 + n * 32" using l by linarith
  from paramG1_ok [OF s(1)] len have 1: "p1 = 44" "drop 12 raw = pcG1Bytes P g @ drop 44 raw" "g1_encodes P g" by simp_all
  from paramG2_ok [OF s(2)] len 1(1) have 2: "p2 = 108" "drop 44 raw = pcG2Bytes P h @ drop 108 raw" "g2_encodes P h" by simp_all
  from paramG2_ok [OF s(3)] len 2(1) have 3: "p3 = 172" "drop 108 raw = pcG2Bytes P ht @ drop 172 raw" "g2_encodes P ht" by simp_all
  from paramPowers_ok [OF s(4)] len 3(1) have 4: "drop 172 raw = concat (map (pcG1Bytes P) ps)" "length ps = n"
    "\<forall>q \<in> set ps. g1_encodes P q" by (auto simp: mult.commute)
  have "be_bytes 4 n = take 4 (drop 8 raw)" unfolding n_def using len by (intro be_bytes_be_nat) simp
  moreover have "drop 12 raw = drop 4 (drop 8 raw)" by simp
  then have "take 8 raw @ take 4 (drop 8 raw) @ drop 12 raw = raw" by (simp only: append_take_drop_id)
  ultimately have "str_bytes paramsMagic @ be_bytes 4 (length ps) @ drop 12 raw = raw"
    unfolding m 4(2) by simp
  moreover have "drop 12 raw = pcG1Bytes P g @ pcG2Bytes P h @ pcG2Bytes P ht @ concat (map (pcG1Bytes P) ps)"
    by (simp only: 1(2) 2(2) 3(2) 4(1))
  ultimately have "MarshalParams E P p = Inr raw"
    using v by (simp add: MarshalParams_def p)
  then show ?thesis using 1 2 3 4 by (simp add: wf_params_def p)
qed

lemma validatePower_good: "validatePower E p i = Inr () \<Longrightarrow> goodBN E (parPowers p ! i)"
  by (auto simp: validatePower_def split: if_splits)

lemma ValidateParams_good:
  assumes "ValidateParams E p = Inr ()"
  shows "2 \<le> length (parPowers p)" "length (parPowers p) \<le> 65537"
    and "goodBN E (parG p)" "goodBN2 E (parH p)" "goodBN2 E (parHTau p)"
    and "\<forall>q \<in> set (parPowers p). goodBN E q"
proof -
  note v = assms [unfolded ValidateParams_ok_iff]
  show "2 \<le> length (parPowers p)" "length (parPowers p) \<le> 65537"
    "goodBN E (parG p)" "goodBN2 E (parH p)" "goodBN2 E (parHTau p)" using v by blast+
  show "\<forall>q \<in> set (parPowers p). goodBN E q"
  proof
    fix q assume "q \<in> set (parPowers p)"
    then obtain i where "i < length (parPowers p)" "q = parPowers p ! i" by (metis in_set_conv_nth)
    with v validatePower_good [of E p i] show "goodBN E q" by blast
  qed
qed

lemma UnmarshalParams_MarshalParams:
  assumes wf: "wf_params P p" and enc: "MarshalParams E P p = Inr raw"
  shows "UnmarshalParams E P raw = Inr p"
proof -
  obtain g h ht ps where p: "p = \<lparr>parG = g, parH = h, parHTau = ht, parPowers = ps\<rparr>" by (cases p)
  let ?hd = "str_bytes paramsMagic @ be_bytes 4 (length ps)"
  let ?ps = "concat (map (pcG1Bytes P) ps)"
  from enc have v: "ValidateParams E p = Inr ()"
    and raw: "raw = ?hd @ pcG1Bytes P g @ pcG2Bytes P h @ pcG2Bytes P ht @ ?ps"
    by (simp_all add: MarshalParams_def p)
  note v' = ValidateParams_good [OF v]
  have n: "2 \<le> length ps" "length ps \<le> 65537" and good: "goodBN E g" "goodBN2 E h" "goodBN2 E ht"
    using v' by (simp_all add: p)
  have gp: "\<forall>q \<in> set ps. g1_encodes P q \<and> goodBN E q"
    using v'(6) wf by (simp add: p wf_params_def)
  have w: "g1_encodes P g" "g2_encodes P h" "g2_encodes P ht" using wf by (simp_all add: wf_params_def p)
  then have l: "length (pcG1Bytes P g) = 32" "length (pcG2Bytes P h) = 64" "length (pcG2Bytes P ht) = 64"
    by (simp_all add: g1_encodes_def g2_encodes_def)
  have lhd: "length ?hd = 12" by (simp add: paramsMagic_def)
  have "paramG1 E P raw 12 = Inr (g, 44)"
    unfolding raw using paramG1_append [OF w(1) good(1) lhd] by simp
  moreover have "paramG2 E P raw 44 = Inr (h, 108)"
    unfolding raw using paramG2_append [OF w(2) good(2), of "?hd @ pcG1Bytes P g" 44] l lhd by simp
  moreover have "paramG2 E P raw 108 = Inr (ht, 172)"
    unfolding raw using paramG2_append [OF w(3) good(3), of "?hd @ pcG1Bytes P g @ pcG2Bytes P h" 108] l lhd by simp
  moreover have "paramPowers E P raw (length ps) 172 = Inr ps"
    unfolding raw using paramPowers_append [OF gp, of "?hd @ pcG1Bytes P g @ pcG2Bytes P h @ pcG2Bytes P ht" 172] l lhd by simp
  moreover have "length raw = 172 + length ps * 32"
    using gp length_concat_g1 [of ps P] l lhd unfolding raw by simp
  moreover have "take 8 raw = str_bytes paramsMagic" "be_nat (take 4 (drop 8 raw)) = length ps"
    using n unfolding raw by (simp_all add: paramsMagic_def)
  ultimately show ?thesis using v n unfolding UnmarshalParams_def Let_def p by simp
qed

interpretation params_codec: codec "MarshalParams E P" "UnmarshalParams E P" "wf_params P" for E P
  by unfold_locales (erule (1) UnmarshalParams_MarshalParams, erule MarshalParams_UnmarshalParams)

lemma MarshalParams_wf:
  assumes "point_laws E P" and "MarshalParams E P p = Inr raw"
  shows "wf_params P p"
proof -
  have "ValidateParams E p = Inr ()" using assms(2) by (simp add: MarshalParams_def)
  from ValidateParams_good [OF this] assms(1) show ?thesis
    unfolding wf_params_def point_laws_def goodBN_iff goodBN2_iff by blast
qed

section \<open>What an accepted proving key is\<close>

lemma pkTake_ok:
  "pkTake raw n pos = Inr (b, pos') \<Longrightarrow> pos \<le> length raw \<Longrightarrow>
     0 \<le> n \<and> int pos' = int pos + n \<and> pos' \<le> length raw \<and> int (length b) = n"
  by (auto simp: pkTake_def)

lemma pkU32_ok:
  "pkU32 raw pos = Inr (n, pos') \<Longrightarrow> pos \<le> length raw \<Longrightarrow> 0 \<le> n \<and> pos' = pos + 4 \<and> pos' \<le> length raw"
  by (auto simp: pkU32_def dest!: pkTake_ok)

lemma pkChecked_ok:
  assumes "pkChecked raw good msg pos = Inr (n, pos')" and "pos \<le> length raw"
  shows "good n \<and> pos' = pos + 8 \<and> pos' \<le> length raw"
  using assms by (auto simp: pkChecked_def pkU64_def split: sum.splits if_splits dest!: pkTake_ok)

lemma pkPoints_ok:
  assumes "pkPoints raw n width pos = Inr pos'" and "pos \<le> length raw"
  shows "int pos' = int pos + n * int width \<and> pos' \<le> length raw"
proof -
  from assms(1) obtain b where "pkTake raw (n * int width) pos = Inr (b, pos')"
    by (auto simp: pkPoints_def split: if_splits)
  from pkTake_ok [OF this assms(2)] show ?thesis by simp
qed

lemma pkVector_ok:
  assumes "pkVector raw width lim pos = Inr (n, pos')" and "pos \<le> length raw"
  shows "0 \<le> n \<and> n \<le> lim \<and> int pos' = int pos + 4 + n * int width \<and> pos' \<le> length raw"
proof -
  from assms(1) obtain q where q: "pkU32 raw pos = Inr (n, q)" "n \<le> lim" "pkPoints raw n width q = Inr pos'"
    by (auto simp: pkVector_def split: sum.splits if_splits)
  from pkU32_ok [OF q(1) assms(2)] have u: "0 \<le> n" "q = pos + 4" "q \<le> length raw" by auto
  from pkPoints_ok [OF q(3) u(3)] u q(2) show ?thesis by simp
qed

lemma pkInfinities_ok:
  "pkInfinities raw wires ns pos = Inr pos' \<Longrightarrow> pos \<le> length raw \<Longrightarrow>
     int pos' = int pos + int (length ns) * wires \<and> pos' \<le> length raw \<and> (ns \<noteq> [] \<longrightarrow> 0 \<le> wires)"
proof (induction ns arbitrary: pos)
  case (Cons n ns)
  from Cons.prems(1) obtain b q where q: "pkTake raw wires pos = Inr (b, q)" "pkInfinities raw wires ns q = Inr pos'"
    by (auto split: if_splits)
  from pkTake_ok [OF q(1) Cons.prems(2)] have u: "0 \<le> wires" "int q = int pos + wires" "q \<le> length raw" by auto
  from Cons.IH [OF q(2) u(3)] u show ?case by (simp add: algebra_simps)
qed simp

definition basesSize :: "int list list \<Rightarrow> int" where
  "basesSize cs = sum_list (map (\<lambda>c. 2 * (4 + 32 * int (length c))) cs)"

lemma pkBases_ok:
  "pkBases raw wires i cs pos = Inr pos' \<Longrightarrow> pos \<le> length raw \<Longrightarrow>
     int pos' = int pos + basesSize cs \<and> pos' \<le> length raw"
proof (induction cs arbitrary: i pos)
  case (Cons c cs)
  from Cons.prems(1) obtain a p1 p2 where q: "pkVector raw 32 wires pos = Inr (a, p1)"
    "pkVector raw 32 wires p1 = Inr (a, p2)" "a = int (length c)" "pkBases raw wires (i + 1) cs p2 = Inr pos'"
    by (auto split: if_splits)
  from pkVector_ok [OF q(1) Cons.prems(2)] have 1: "int p1 = int pos + 4 + a * 32" "p1 \<le> length raw" by auto
  from pkVector_ok [OF q(2) 1(2)] have 2: "int p2 = int p1 + 4 + a * 32" "p2 \<le> length raw" by auto
  from Cons.IH [OF q(4) 2(2)] 1 2 q(3) show ?case by (simp add: basesSize_def)
qed (simp add: basesSize_def)

lemma pkVectors_ok:
  assumes "pkVectors F raw cs pos = Inr (na, nb, nb2, pos')" and "pos \<le> length raw"
  shows "int pos' = int pos + 96 + (4 + 32 * na) + (4 + 32 * nb) +
      (4 + 32 * (sint (fdCardinality F (of_int (csNbConstraints cs))) - 1)) + (4 + 32 * pkPrivate cs) + 128 +
      (4 + 64 * nb2) \<and> pos' \<le> length raw \<and> na \<le> pkWires cs \<and> nb \<le> pkWires cs"
proof -
  from assms(1) obtain p1 p2 p3 nz p4 nk p5 p6 where s: "pkPoints raw 3 32 pos = Inr p1"
    "pkVector raw 32 (pkWires cs) p1 = Inr (na, p2)" "pkVector raw 32 (pkWires cs) p2 = Inr (nb, p3)"
    "pkVector raw 32 (sint (fdNextPowerOfTwo F (of_int (csNbConstraints cs)))) p3 = Inr (nz, p4)"
    "pkVector raw 32 (pkWires cs) p4 = Inr (nk, p5)"
    "nk = pkPrivate cs" "nz = sint (fdCardinality F (of_int (csNbConstraints cs))) - 1"
    "pkPoints raw 2 64 p5 = Inr p6" "pkVector raw 64 (pkWires cs) p6 = Inr (nb2, pos')"
    by (auto simp: pkVectors_def Let_def)
  note 1 = pkPoints_ok [OF s(1) assms(2)]
  note 2 = pkVector_ok [OF s(2) conjunct2 [OF 1]]
  note 3 = pkVector_ok [OF s(3)] 2
  then have 3: "nb \<le> pkWires cs" "int p3 = int p2 + 4 + nb * 32" "p3 \<le> length raw" by auto
  have 4: "int p4 = int p3 + 4 + nz * 32" "p4 \<le> length raw" using pkVector_ok [OF s(4) 3(3)] by auto
  have 5: "int p5 = int p4 + 4 + nk * 32" "p5 \<le> length raw" using pkVector_ok [OF s(5) 4(2)] by auto
  note 6 = pkPoints_ok [OF s(8) 5(2)]
  note 7 = pkVector_ok [OF s(9) conjunct2 [OF 6]]
  show ?thesis using 1 2 3 4 5 6 7 s(6,7) by simp
qed

lemma pkCommitments_ok:
  assumes "pkCommitments raw cs pos = Inr pos'" and "pos \<le> length raw"
  shows "int pos' = int pos + 4 + basesSize (csPrivateCommitted cs) \<and> pos' \<le> length raw"
proof -
  from assms(1) obtain nc q where q: "pkU32 raw pos = Inr (nc, q)"
    "pkBases raw (pkWires cs) 0 (csPrivateCommitted cs) q = Inr pos'"
    by (auto simp: pkCommitments_def split: sum.splits if_splits)
  from pkU32_ok [OF q(1) assms(2)] have "q = pos + 4" "q \<le> length raw" by auto
  with pkBases_ok [OF q(2)] show ?thesis by simp
qed

lemma pkTail_ok:
  assumes "pkTail raw cs na nb nb2 pos = Inr pos'" and "pos \<le> length raw"
  obtains ia ib :: "64 word" where "ia \<le> of_int (pkWires cs)" "ib \<le> of_int (pkWires cs)" "0 \<le> pkWires cs"
    "na = pkWires cs - sint ia" "nb = pkWires cs - sint ib" "nb2 = nb"
    "int pos' = int pos + 24 + 2 * pkWires cs + 4 + basesSize (csPrivateCommitted cs)" "pos' \<le> length raw"
proof -
  from assms(1) obtain nw p1 ia p2 ib p3 p4 where s:
    "pkChecked raw (\<lambda>nw. nw = of_int (pkWires cs)) ''PK wire count differs from circuit'' pos = Inr (nw, p1)"
    "pkChecked raw (\<lambda>ia. ia \<le> nw) ''invalid PK infinity count'' p1 = Inr (ia, p2)"
    "pkChecked raw (\<lambda>ib. ib \<le> nw) ''invalid PK infinity count'' p2 = Inr (ib, p3)"
    "na = pkWires cs - sint ia" "nb = pkWires cs - sint ib" "nb2 = nb"
    "pkInfinities raw (pkWires cs) [ia, ib] p3 = Inr p4" "pkCommitments raw cs p4 = Inr pos'"
    by (auto simp: pkTail_def Let_def simp del: pkInfinities.simps)
  from pkChecked_ok [OF s(1) assms(2)] have 1: "nw = of_int (pkWires cs)" "p1 = pos + 8" "p1 \<le> length raw" by auto
  from pkChecked_ok [OF s(2) 1(3)] have 2: "ia \<le> nw" "p2 = p1 + 8" "p2 \<le> length raw" by auto
  from pkChecked_ok [OF s(3) 2(3)] have 3: "ib \<le> nw" "p3 = p2 + 8" "p3 \<le> length raw" by auto
  from pkInfinities_ok [OF s(7) 3(3)] have 4: "int p4 = int p3 + 2 * pkWires cs" "p4 \<le> length raw" "0 \<le> pkWires cs" by auto
  note 5 = pkCommitments_ok [OF s(8) 4(2)]
  show thesis using 1 2 3 4 5 s(4-6) by (intro that [of ia ib]) auto
qed

text \<open>The number of bytes of a proving key for a circuit with \<open>ia\<close> and \<open>ib\<close> points at infinity.\<close>

definition pkSize :: "fft \<Rightarrow> ConstraintSystem \<Rightarrow> int \<Rightarrow> int \<Rightarrow> int" where
  "pkSize F cs ia ib =
     169 + 96 + (4 + 32 * (pkWires cs - ia)) + (4 + 32 * (pkWires cs - ib)) +
     (4 + 32 * (sint (fdCardinality F (of_int (csNbConstraints cs))) - 1)) + (4 + 32 * pkPrivate cs) + 128 +
     (4 + 64 * (pkWires cs - ib)) + 24 + 2 * pkWires cs + 4 + basesSize (csPrivateCommitted cs)"

lemma sint_bounded:
  assumes "w \<le> (of_int n :: 64 word)" and "0 \<le> n" and "n < 2 ^ 62"
  shows "0 \<le> sint w \<and> sint w \<le> n"
proof -
  have "uint (of_int n :: 64 word) = n" using assms(2,3) by (simp add: uint_word_of_int_eq take_bit_eq_mod)
  then have "uint w \<le> n" using assms(1) by (simp add: word_le_def)
  moreover from this have "sint w = uint w"
    unfolding sint_uint using assms(3) by (intro signed_take_bit_int_eq_self) (simp_all add: order_trans [OF _ uint_ge_0])
  ultimately show ?thesis by simp
qed

lemma preflightProvingKey_accepts:
  assumes ok: "preflightProvingKey F raw cs = Inr ()" and len: "length raw \<le> 2 ^ 30"
  obtains ia ib where "0 \<le> ia" "ia \<le> pkWires cs" "0 \<le> ib" "ib \<le> pkWires cs"
    "int (length raw) = pkSize F cs ia ib"
proof -
  from ok obtain na nb nb2 pos where l: "169 \<le> length raw"
    and v: "pkVectors F raw cs 169 = Inr (na, nb, nb2, pos)" and t: "pkTail raw cs na nb nb2 pos = Inr (length raw)"
    by (auto simp: preflightProvingKey_def)
  from pkVectors_ok [OF v l] have p: "pos \<le> length raw"
    "int pos = 169 + 96 + (4 + 32 * na) + (4 + 32 * nb) +
      (4 + 32 * (sint (fdCardinality F (of_int (csNbConstraints cs))) - 1)) + (4 + 32 * pkPrivate cs) + 128 +
      (4 + 64 * nb2)" by simp_all
  obtain ia ib :: "64 word" where
    s: "ia \<le> of_int (pkWires cs)" "ib \<le> of_int (pkWires cs)" "0 \<le> pkWires cs"
    "na = pkWires cs - sint ia" "nb = pkWires cs - sint ib" "nb2 = nb"
    "int (length raw) = int pos + 24 + 2 * pkWires cs + 4 + basesSize (csPrivateCommitted cs)"
    using pkTail_ok [OF t p(1)] by metis
  have "0 \<le> basesSize (csPrivateCommitted cs)" unfolding basesSize_def by (intro sum_list_nonneg) auto
  then have "pkWires cs \<le> int (length raw)" using s(3,7) by linarith
  then have w: "pkWires cs < 2 ^ 62" using len by simp
  from sint_bounded [OF s(1,3) w] sint_bounded [OF s(2,3) w] p(2) s(4-7) show thesis
    by (intro that [of "sint ia" "sint ib"]) (simp_all add: pkSize_def)
qed

end
