(* ===== verification/Ceremony.thy ===== *)
theory Ceremony
  imports SetupEncoding "HOL-Library.While_Combinator"
begin

text \<open>
  \<open>src/nativeproof/ceremony.go\<close>: the bounded chain of q-SDH parameter contributions.  The
  Phase 1 protocol itself is gnark's: its objects are the type \<open>'ph\<close> and its operations the
  record \<open>'ph mpc\<close>.  Modelled here: the choice of the domain, the strict decoder of a
  contribution, the check of a whole chain, adding a contribution and the final receipt.
\<close>

section \<open>gnark's Phase 1\<close>

text \<open>\<open>mpContribute\<close> takes the randomness it consumes; \<open>mpSeal\<close> returns \<open>G1.Tau\<close> and \<open>G2.Tau\<close>.\<close>

record 'ph mpc =
  mpNew :: "64 word \<Rightarrow> 'ph"
  mpRead :: "bytes \<Rightarrow> ('ph \<times> nat) result"
  mpWrite :: "'ph \<Rightarrow> bytes result"
  mpVerify :: "'ph \<Rightarrow> 'ph \<Rightarrow> unit result"
  mpContribute :: "'ph \<Rightarrow> bytes \<Rightarrow> 'ph"
  mpSeal :: "'ph \<Rightarrow> bytes \<Rightarrow> affine list \<times> affine2 list"

section \<open>The domain\<close>

abbreviation (input) maxQSDHContributions :: nat where "maxQSDHContributions \<equiv> 64"
abbreviation (input) maxQSDHTranscriptBytes :: nat where "maxQSDHTranscriptBytes \<equiv> 67108864"

text \<open>The loop keeps its shape; a loop that does not end would be \<open>None\<close>.\<close>

definition domainLoop :: "int \<Rightarrow> 64 word option" where
  "domainLoop capacity = while_option (\<lambda>n. 2 * n - 1 < of_int (capacity + 1)) (\<lambda>n. n * 2) 2"

definition ceremonyDomain :: "int \<Rightarrow> (64 word) result" where
  "ceremonyDomain capacity =
     (if capacity < 1 \<or> capacity > 65536 then Inl ''ceremony capacity must be in [1,65536]''
      else case domainLoop capacity of None \<Rightarrow> Inl ''loop does not end'' | Some n \<Rightarrow> Inr n)"

section \<open>Decoding a contribution\<close>

definition phasePoint :: "bytes \<Rightarrow> nat \<Rightarrow> nat \<Rightarrow> nat result" where
  "phasePoint raw w pos =
     (if pos + w > length raw \<or> \<not> compressedFlag (raw ! pos) then Inl ''contribution requires compressed points''
      else Inr (pos + w))"

fun phasePoints :: "bytes \<Rightarrow> nat list \<Rightarrow> nat \<Rightarrow> nat result" where
  "phasePoints raw [] pos = Inr pos"
| "phasePoints raw (w # ws) pos = andThen (phasePoint raw w pos) (phasePoints raw ws)"

text \<open>The widths of the points before the domain size: three times \<open>G1\<close> then \<open>G2\<close>.\<close>

definition phaseProofs :: "nat list" where "phaseProofs = concat (replicate 3 [32, 64])"

text \<open>The checks made before gnark's decoder runs.\<close>

definition phasePreflight :: "bytes \<Rightarrow> 64 word \<Rightarrow> unit result" where
  "phasePreflight raw n =
     (if (of_nat (length raw) :: 64 word) \<noteq> 192 * n + 265 then Inl ''invalid compressed contribution length''
      else andThen (phasePoints raw phaseProofs 0) (\<lambda>pos.
        if (of_nat (be_nat (take 8 (drop pos raw))) :: 64 word) \<noteq> n
        then Inl ''contribution domain differs from trusted capacity''
        else
        andThen (phasePoints raw [64] (pos + 8)) (\<lambda>pos.
        andThen (phasePoints raw (replicate (unat (2 * n - 2)) 32) pos) (\<lambda>pos.
        andThen (phasePoints raw (replicate (unat (n - 1)) 64) pos) (\<lambda>pos.
        andThen (phasePoints raw (replicate (unat (2 * n)) 32) pos) (\<lambda>pos.
        if pos + 33 \<noteq> length raw \<or> raw ! pos \<noteq> 32
        then Inl ''contribution must contain a complete predecessor challenge''
        else Inr ()))))))"

definition decodeQSDHContribution :: "'ph mpc \<Rightarrow> bytes \<Rightarrow> 64 word \<Rightarrow> 'ph result" where
  "decodeQSDHContribution M raw n =
     andThen (phasePreflight raw n) (\<lambda>_.
     andThen (mpRead M raw) (\<lambda>(p, rest).
     if rest \<noteq> 0 then Inl ''trailing contribution''
     else andThen (mpWrite M p) (\<lambda>canonical.
       if raw \<noteq> canonical then Inl ''noncanonical contribution'' else Inr p)))"

section \<open>The chain\<close>

fun chainLoop :: "'ph mpc \<Rightarrow> 64 word \<Rightarrow> nat \<Rightarrow> bytes list \<Rightarrow> 'ph \<Rightarrow> 'ph result" where
  "chainLoop M n i [] previous = Inr previous"
| "chainLoop M n i (raw # raws) previous =
     andThen (wrapErr (''contribution '' @ dec_nat i @ '': '') (decodeQSDHContribution M raw n)) (\<lambda>nxt.
     andThen (wrapErr (''contribution '' @ dec_nat i @ '': '') (mpVerify M previous nxt)) (\<lambda>_.
     chainLoop M n (i + 1) raws nxt))"

definition checkedQSDHChain :: "'ph mpc \<Rightarrow> int \<Rightarrow> bytes list \<Rightarrow> ('ph \<times> 64 word) result" where
  "checkedQSDHChain M capacity contributions =
     andThen (ceremonyDomain capacity) (\<lambda>n.
       if length contributions > maxQSDHContributions then Inl ''too many contributions''
       else if sum_list (map length contributions) > maxQSDHTranscriptBytes then Inl ''oversized ceremony transcript''
       else andThen (chainLoop M n 0 contributions (mpNew M n)) (\<lambda>p. Inr (p, n)))"

definition ContributeQSDH :: "'ph mpc \<Rightarrow> int \<Rightarrow> bytes list \<Rightarrow> bytes \<Rightarrow> bytes result" where
  "ContributeQSDH M capacity previous entropy =
     (if length previous \<ge> maxQSDHContributions then Inl ''contribution limit reached''
      else andThen (ceremonyDomain capacity) (\<lambda>n.
        if (of_nat (length previous + 1) :: 64 word) * (192 * n + 265) > of_nat maxQSDHTranscriptBytes
        then Inl ''next contribution would exceed transcript budget''
        else andThen (checkedQSDHChain M capacity previous) (\<lambda>(state, _).
          mpWrite M (mpContribute M state entropy))))"

record QSDHCeremonyReceipt =
  qrFormat :: string
  qrGnark :: string
  qrGnarkCrypto :: string
  qrCapacity :: int
  qrDomain :: "64 word"
  qrContributionSHA256 :: "string list"
  qrBeacon :: string
  qrParametersSHA256 :: string

definition gnarkVersion :: string where "gnarkVersion = ''v0.16.3''"
definition cryptoVersion :: string where "cryptoVersion = ''v0.21.0''"

definition finalizeChain ::
  "env \<Rightarrow> pointcodec \<Rightarrow> 'ph mpc \<Rightarrow> int \<Rightarrow> bytes list \<Rightarrow> bytes \<Rightarrow> 'ph \<times> 64 word
     \<Rightarrow> (Params \<times> QSDHCeremonyReceipt) result" where
  "finalizeChain E P M capacity contributions beacon chain =
     (let (state, n) = chain; (g1Tau, g2Tau) = mpSeal M state beacon in
      if length g2Tau < 2 \<or> int (length g1Tau) < capacity + 1 then Inl ''panic: slice bounds out of range''
      else
      let params = \<lparr>parG = cGen (BN E), parH = cGen (BN2 E), parHTau = g2Tau ! 1,
                    parPowers = take (nat (capacity + 1)) g1Tau\<rparr> in
      andThen (ValidateParams E params) (\<lambda>_.
      andThen (MarshalParams E P params) (\<lambda>raw.
      Inr (params,
        \<lparr>qrFormat = ''lktrs/qsdh-ceremony-receipt/v1'', qrGnark = gnarkVersion, qrGnarkCrypto = cryptoVersion,
         qrCapacity = capacity, qrDomain = n,
         qrContributionSHA256 = map (\<lambda>b. hexDigest (Sum256 E b)) contributions,
         qrBeacon = hexDigest beacon, qrParametersSHA256 = hexDigest (Sum256 E raw)\<rparr>))))"

definition FinalizeQSDHCeremony ::
  "env \<Rightarrow> pointcodec \<Rightarrow> 'ph mpc \<Rightarrow> int \<Rightarrow> bytes list \<Rightarrow> bytes
     \<Rightarrow> (Params \<times> QSDHCeremonyReceipt) result" where
  "FinalizeQSDHCeremony E P M capacity contributions beacon =
     (if length contributions < 2 \<or> beacon = replicate 32 0
      then Inl ''need at least two contributions and an externally authenticated beacon''
      else andThen (checkedQSDHChain M capacity contributions)
        (finalizeChain E P M capacity contributions beacon))"

section \<open>The domain loop ends\<close>

text \<open>The states of the loop.\<close>

definition loop_states :: "64 word list" where
  "loop_states = [2, 4, 8, 16, 32, 64, 128, 256, 512, 1024, 2048, 4096, 8192, 16384, 32768, 65536]"

definition loop_inv :: "int \<Rightarrow> 64 word \<Rightarrow> bool" where
  "loop_inv c n \<longleftrightarrow> n \<in> set loop_states \<and> (n = 2 \<or> uint n - 1 < c + 1)"

lemma capacity_word: "1 \<le> c \<Longrightarrow> c \<le> 65536 \<Longrightarrow> uint (of_int (c + 1) :: 64 word) = c + 1"
  by (simp only: uint_word_of_int_eq take_bit_eq_mod) simp

lemma loop_state_guard:
  assumes "n \<in> set loop_states" and "1 \<le> c" and "c \<le> 65536"
  shows "2 * n - 1 < of_int (c + 1) \<longleftrightarrow> 2 * uint n - 1 < c + 1"
  using assms(1) unfolding word_less_def capacity_word [OF assms(2,3)] loop_states_def by auto

lemma loop_step:
  assumes "loop_inv c n" and "2 * n - 1 < of_int (c + 1)" and c: "1 \<le> c" "c \<le> 65536"
  shows "loop_inv c (n * 2) \<and> uint (n * 2) = 2 * uint n"
proof -
  have n: "n \<in> set loop_states" using assms(1) by (simp add: loop_inv_def)
  have g: "2 * uint n - 1 < c + 1" using assms(2) loop_state_guard [OF n c] by simp
  have "n \<noteq> 65536" using g c(2) by auto
  then have "n * 2 \<in> set loop_states \<and> uint (n * 2) = 2 * uint n"
    using n unfolding loop_states_def by auto
  with g show ?thesis by (simp add: loop_inv_def)
qed

lemma domainLoop_Some:
  assumes c: "1 \<le> c" "c \<le> 65536"
  obtains n where "domainLoop c = Some n" "n \<in> set loop_states" "c + 1 \<le> 2 * uint n - 1"
    "n = 2 \<or> uint n - 1 < c + 1"
proof -
  let ?b = "\<lambda>n. 2 * n - 1 < (of_int (c + 1) :: 64 word)" and ?c = "\<lambda>n :: 64 word. n * 2"
  have le: "uint n \<le> 65536" if "loop_inv c n" for n
    using that by (auto simp: loop_inv_def loop_states_def)
  have init: "loop_inv c 2" by (simp add: loop_inv_def loop_states_def)
  have "loop_inv c (?c n) \<and> nat (65537 - uint (?c n)) < nat (65537 - uint n)" if "loop_inv c n" "?b n" for n
  proof -
    have "0 < uint n" using that(1) by (auto simp: loop_inv_def loop_states_def)
    with loop_step [OF that c] le [OF that(1)] show ?thesis by simp
  qed
  from measure_while_option_Some [of "loop_inv c" ?b ?c "\<lambda>n. nat (65537 - uint n)", OF this init]
  obtain n where n: "while_option ?b ?c 2 = Some n" by blast
  have inv: "loop_inv c n"
    using while_option_rule [of "loop_inv c" ?b ?c 2 n] loop_step [OF _ _ c] n init by blast
  have "\<not> ?b n" using while_option_stop [OF n] .
  then have "c + 1 \<le> 2 * uint n - 1" using loop_state_guard [of n c] inv c by (simp add: loop_inv_def)
  with n inv show thesis by (intro that [of n]) (auto simp: domainLoop_def loop_inv_def)
qed

lemma ceremonyDomain_ok:
  assumes "ceremonyDomain c = Inr n"
  shows "1 \<le> c" "c \<le> 65536" "domainLoop c = Some n" "1 < unat n" "unat n \<le> 65536"
proof -
  show c: "1 \<le> c" "c \<le> 65536" and n: "domainLoop c = Some n"
    using assms by (auto simp: ceremonyDomain_def split: if_splits option.splits)
  from domainLoop_Some [OF c] n have "n \<in> set loop_states" by force
  then show "1 < unat n" "unat n \<le> 65536" by (auto simp: loop_states_def)
qed

section \<open>The layout of a contribution\<close>

text \<open>A byte string that is a sequence of compressed points of the given widths.\<close>

fun compressedPoints :: "nat list \<Rightarrow> bytes \<Rightarrow> bool" where
  "compressedPoints [] b \<longleftrightarrow> b = []"
| "compressedPoints (w # ws) b \<longleftrightarrow> w \<le> length b \<and> compressedFlag (hd b) \<and> compressedPoints ws (drop w b)"

text \<open>
  gnark's compressed Phase 1: three pairs of a \<open>G1\<close> and a \<open>G2\<close> point, the domain size,
  \<open>[beta]2\<close>, the powers of tau, the two scaled vectors, and the predecessor's challenge.
\<close>

definition phaseVectors :: "64 word \<Rightarrow> nat list" where
  "phaseVectors n = [64] @ replicate (unat (2 * n - 2)) 32 @ replicate (unat (n - 1)) 64 @ replicate (unat (2 * n)) 32"

definition phase1_layout :: "64 word \<Rightarrow> bytes \<Rightarrow> bool" where
  "phase1_layout n raw \<longleftrightarrow> (\<exists>proofs vectors challenge.
     raw = proofs @ u64_bytes n @ vectors @ [32] @ challenge \<and>
     compressedPoints phaseProofs proofs \<and> compressedPoints (phaseVectors n) vectors \<and>
     length challenge = 32)"

lemma compressedPoints_length: "compressedPoints ws b \<Longrightarrow> length b = sum_list ws"
  by (induction ws b rule: compressedPoints.induct) auto

lemma compressedPoints_append:
  "compressedPoints (vs @ ws) b \<longleftrightarrow> compressedPoints vs (take (sum_list vs) b) \<and> compressedPoints ws (drop (sum_list vs) b)"
  if "\<forall>w \<in> set vs. 0 < w"
  using that
proof (induction vs arbitrary: b)
  case (Cons v vs)
  have "drop v (take (v + sum_list vs) b) = take (sum_list vs) (drop v b)" by (simp add: drop_take)
  moreover have "hd (take (v + sum_list vs) b) = hd b" using Cons.prems by (simp add: hd_take)
  moreover have "v \<le> length b \<Longrightarrow> v \<le> length (take (v + sum_list vs) b)" by simp
  ultimately show ?case using Cons by (auto simp: add.commute)
qed simp

lemma phasePoints_iff:
  "pos \<le> length raw \<Longrightarrow> \<forall>w \<in> set ws. 0 < w \<Longrightarrow>
     phasePoints raw ws pos = Inr pos' \<longleftrightarrow>
       pos' = pos + sum_list ws \<and> pos' \<le> length raw \<and> compressedPoints ws (take (sum_list ws) (drop pos raw))"
proof (induction ws arbitrary: pos)
  case Nil
  then show ?case by auto
next
  case (Cons w ws)
  have hd: "hd (take (w + sum_list ws) (drop pos raw)) = raw ! pos" if "pos + w \<le> length raw"
    using that Cons.prems by (simp add: hd_take hd_drop_conv_nth)
  have dr: "drop w (take (w + sum_list ws) (drop pos raw)) = take (sum_list ws) (drop (pos + w) raw)"
    by (simp add: drop_take add.commute)
  show ?case
  proof (cases "pos + w \<le> length raw")
    case True
    from Cons.IH [OF True] Cons.prems hd [OF True] dr True show ?thesis
      by (auto simp: phasePoint_def split: if_splits)
  next
    case False
    then show ?thesis by (auto simp: phasePoint_def)
  qed
qed

lemma andThen_assoc: "andThen (andThen r f) g = andThen r (\<lambda>x. andThen (f x) g)"
  by (cases r) simp_all

lemma phasePoints_append:
  "phasePoints raw (vs @ ws) = (\<lambda>pos. andThen (phasePoints raw vs pos) (phasePoints raw ws))"
proof
  show "phasePoints raw (vs @ ws) pos = andThen (phasePoints raw vs pos) (phasePoints raw ws)" for pos
    by (induction vs arbitrary: pos) (simp_all add: andThen_assoc cong: andThen_cong)
qed

lemma phaseProofs_sum: "sum_list phaseProofs = 288" "\<forall>w \<in> set phaseProofs. 0 < w"
  by (simp_all add: phaseProofs_def numeral_3_eq_3)

lemma domain_words:
  assumes "1 \<le> unat (n :: 64 word)" and "unat n \<le> 65536"
  shows "unat (2 * n - 2) = 2 * unat n - 2" "unat (n - 1) = unat n - 1" "unat (2 * n) = 2 * unat n"
    "unat (192 * n + 265) = 192 * unat n + 265"
proof -
  have mul: "unat (k * n) = unat k * unat n" if "unat k \<le> 192" for k :: "64 word"
    using that assms(2) mult_le_mono [OF that assms(2)] by (intro unat_mult_lem [THEN iffD1]) simp
  show two: "unat (2 * n) = 2 * unat n" using mul [of 2] by simp
  have "unat (192 * n) = 192 * unat n" using mul [of 192] by simp
  then show "unat (192 * n + 265) = 192 * unat n + 265"
    using assms(2) by (subst unat_add_lem [THEN iffD1]) simp_all
  have "2 \<le> 2 * n" using assms(1) two by (simp add: word_le_nat_alt)
  then show "unat (2 * n - 2) = 2 * unat n - 2" using two by (simp add: unat_sub)
  have "1 \<le> n" using assms(1) by (simp add: word_le_nat_alt)
  then show "unat (n - 1) = unat n - 1" by (simp add: unat_sub)
qed

lemma phaseVectors_sum:
  "1 \<le> unat n \<Longrightarrow> unat n \<le> 65536 \<Longrightarrow> sum_list (phaseVectors n) = 192 * unat n - 64"
  by (simp add: phaseVectors_def domain_words sum_list_replicate)

lemma phaseVectors_pos: "\<forall>w \<in> set (phaseVectors n). 0 < w"
  by (auto simp: phaseVectors_def)

lemma phasePreflight_alt:
  "phasePreflight raw n =
     (if (of_nat (length raw) :: 64 word) \<noteq> 192 * n + 265 then Inl ''invalid compressed contribution length''
      else andThen (phasePoints raw phaseProofs 0) (\<lambda>pos.
        if (of_nat (be_nat (take 8 (drop pos raw))) :: 64 word) \<noteq> n
        then Inl ''contribution domain differs from trusted capacity''
        else andThen (phasePoints raw (phaseVectors n) (pos + 8)) (\<lambda>pos.
          if pos + 33 \<noteq> length raw \<or> raw ! pos \<noteq> 32
          then Inl ''contribution must contain a complete predecessor challenge'' else Inr ())))"
  by (simp only: phasePreflight_def phaseVectors_def phasePoints_append andThen_assoc)

lemma u64_of_nat_eq_iff:
  assumes "length b = 8"
  shows "(of_nat (be_nat b) :: 64 word) = n \<longleftrightarrow> b = u64_bytes n"
  using u64_bytes_of_nat [OF assms] u64_roundtrip [of n] by metis

lemma phasePreflight_conds:
  assumes n: "1 \<le> unat n" "unat n \<le> 65536" and len: "length raw < 2 ^ 64"
  shows "phasePreflight raw n = Inr () \<longleftrightarrow>
    length raw = 192 * unat n + 265 \<and> compressedPoints phaseProofs (take 288 raw) \<and>
    take 8 (drop 288 raw) = u64_bytes n \<and>
    compressedPoints (phaseVectors n) (take (192 * unat n - 64) (drop 296 raw)) \<and> raw ! (192 * unat n + 232) = 32"
proof -
  have l: "(of_nat (length raw) :: 64 word) = 192 * n + 265 \<longleftrightarrow> length raw = 192 * unat n + 265"
    using len domain_words(4) [OF n] by (simp add: word_unat_eq_iff unat_of_nat)
  show ?thesis
  proof (cases "length raw = 192 * unat n + 265")
    case True
    have "length (take 8 (drop 288 raw)) = 8" using True n(1) by simp
    then have N: "(of_nat (be_nat (take 8 (drop 288 raw))) :: 64 word) = n \<longleftrightarrow> take 8 (drop 288 raw) = u64_bytes n"
      by (rule u64_of_nat_eq_iff)
    have A: "phasePoints raw phaseProofs 0 = Inr pos \<longleftrightarrow>
        pos = 288 \<and> compressedPoints phaseProofs (take 288 raw)" for pos
      using phasePoints_iff [of 0 raw phaseProofs pos] True n(1) by (auto simp: phaseProofs_sum)
    have B: "phasePoints raw (phaseVectors n) 296 = Inr pos \<longleftrightarrow>
        pos = 192 * unat n + 232 \<and> compressedPoints (phaseVectors n) (take (192 * unat n - 64) (drop 296 raw))" for pos
      using phasePoints_iff [of 296 raw "phaseVectors n" pos] True n phaseVectors_pos
      by (auto simp: phaseVectors_sum)
    have "phasePreflight raw n = Inr () \<longleftrightarrow> (\<exists>pos. phasePoints raw phaseProofs 0 = Inr pos \<and>
        (of_nat (be_nat (take 8 (drop pos raw))) :: 64 word) = n \<and>
        (\<exists>q. phasePoints raw (phaseVectors n) (pos + 8) = Inr q \<and> q + 33 = length raw \<and> raw ! q = 32))"
      unfolding phasePreflight_alt l by (simp only: True not_True_eq_False if_False andThen_eq_Inr if_Inl_eq_Inr) blast
    also have "\<dots> \<longleftrightarrow> compressedPoints phaseProofs (take 288 raw) \<and> take 8 (drop 288 raw) = u64_bytes n \<and>
        compressedPoints (phaseVectors n) (take (192 * unat n - 64) (drop 296 raw)) \<and> raw ! (192 * unat n + 232) = 32"
      unfolding A by (simp add: N B True cong: conj_cong)
    finally show ?thesis using True by blast
  next
    case False
    then show ?thesis unfolding phasePreflight_alt l by simp
  qed
qed

lemma phasePreflight_iff:
  assumes n: "1 \<le> unat n" "unat n \<le> 65536" and len: "length raw < 2 ^ 64"
  shows "phasePreflight raw n = Inr () \<longleftrightarrow> phase1_layout n raw"
proof
  let ?m = "192 * unat n"
  assume "phasePreflight raw n = Inr ()"
  then have c: "length raw = ?m + 265" "compressedPoints phaseProofs (take 288 raw)"
    "take 8 (drop 288 raw) = u64_bytes n" "compressedPoints (phaseVectors n) (take (?m - 64) (drop 296 raw))"
    "raw ! (?m + 232) = 32"
    using phasePreflight_conds [OF assms] by simp_all
  have "raw = take 288 raw @ drop 288 raw" by simp
  also have "drop 288 raw = take 8 (drop 288 raw) @ drop 296 raw"
    using append_take_drop_id [of 8 "drop 288 raw"] by simp
  also have "drop 296 raw = take (?m - 64) (drop 296 raw) @ drop (?m + 232) raw"
    using append_take_drop_id [of "?m - 64" "drop 296 raw"] n(1) by (simp add: add.commute)
  also have "drop (?m + 232) raw = [32] @ drop (?m + 233) raw"
  proof -
    have i: "Suc (?m + 232) = ?m + 233" "?m + 232 < length raw" using c(1) by simp_all
    from Cons_nth_drop_Suc [OF i(2)] show ?thesis unfolding i(1) c(5) by (simp only: append.simps)
  qed
  finally show "phase1_layout n raw"
    unfolding phase1_layout_def using c by (intro exI conjI) (assumption | simp)+
next
  assume "phase1_layout n raw"
  then obtain p v ch where r: "raw = p @ u64_bytes n @ v @ [32] @ ch"
    "compressedPoints phaseProofs p" "compressedPoints (phaseVectors n) v" "length ch = 32"
    by (auto simp: phase1_layout_def)
  have l: "length p = 288" "length v = 192 * unat n - 64"
    using compressedPoints_length [OF r(2)] compressedPoints_length [OF r(3)] phaseVectors_sum [OF n] phaseProofs_sum by simp_all
  have "192 * unat n + 232 = length (p @ u64_bytes n @ v)" using l n(1) by simp
  then have "raw ! (192 * unat n + 232) = 32" unfolding r(1) by (simp only: nth_append append_assoc [symmetric]) simp
  then show "phasePreflight raw n = Inr ()"
    unfolding phasePreflight_conds [OF assms] using l r n(1) by simp
qed

section \<open>Chains grow\<close>

text \<open>
  What gnark documents of Phase 1: a phase has a domain size, which a contribution keeps and
  the serialised form carries; a contribution verifies against its predecessor, is written
  in the compressed layout and read back from it.
\<close>

definition phase1_laws :: "'ph mpc \<Rightarrow> ('ph \<Rightarrow> 64 word) \<Rightarrow> bool" where
  "phase1_laws M dm \<longleftrightarrow>
     (\<forall>n. dm (mpNew M n) = n) \<and>
     (\<forall>p r. dm (mpContribute M p r) = dm p \<and> mpVerify M p (mpContribute M p r) = Inr ()) \<and>
     (\<forall>p r. 1 < unat (dm p) \<longrightarrow> unat (dm p) \<le> 65536 \<longrightarrow>
        (\<exists>b. mpWrite M (mpContribute M p r) = Inr b \<and> mpRead M b = Inr (mpContribute M p r, 0) \<and>
             phase1_layout (dm p) b)) \<and>
     (\<forall>b p k. mpRead M b = Inr (p, k) \<longrightarrow> u64_bytes (dm p) = take 8 (drop 288 b))"

text \<open>Contributors one after the other, each extending the chain published so far.\<close>

fun contributeAll :: "'ph mpc \<Rightarrow> int \<Rightarrow> bytes list \<Rightarrow> bytes list \<Rightarrow> bytes list result" where
  "contributeAll M capacity chain [] = Inr chain"
| "contributeAll M capacity chain (r # rs) =
     andThen (ContributeQSDH M capacity chain r) (\<lambda>raw. contributeAll M capacity (chain @ [raw]) rs)"

lemma chainLoop_append:
  "chainLoop M n i (as @ bs) p = andThen (chainLoop M n i as p) (chainLoop M n (i + length as) bs)"
  by (induction as arbitrary: i p) (simp_all add: andThen_assoc cong: andThen_cong)

lemma u64_bytes_inject: "u64_bytes m = u64_bytes n \<Longrightarrow> m = n"
  by (metis u64_roundtrip)

lemma layout_length:
  assumes "phase1_layout n raw" and n: "1 < unat n" "unat n \<le> 65536"
  shows "length raw = 192 * unat n + 265"
proof -
  from assms(1) obtain p v ch where r: "raw = p @ u64_bytes n @ v @ [32] @ ch"
    "compressedPoints phaseProofs p" "compressedPoints (phaseVectors n) v" "length ch = 32"
    by (auto simp: phase1_layout_def)
  from compressedPoints_length [OF r(2)] compressedPoints_length [OF r(3)] r(4) n show ?thesis
    by (simp add: r(1) phaseProofs_sum phaseVectors_sum)
qed

lemma chainLoop_domain:
  assumes "phase1_laws M dm" and n: "1 < unat n" "unat n \<le> 65536"
  shows "chainLoop M n i raws p = Inr q \<Longrightarrow> dm p = n \<Longrightarrow> \<forall>raw \<in> set raws. length raw < 2 ^ 64 \<Longrightarrow>
    dm q = n \<and> (\<forall>raw \<in> set raws. length raw = 192 * unat n + 265)"
proof (induction raws arbitrary: i p)
  case (Cons raw raws)
  from Cons.prems(1) obtain nxt where s: "decodeQSDHContribution M raw n = Inr nxt"
    "chainLoop M n (i + 1) raws nxt = Inr q" by auto
  from s(1) have pf: "phasePreflight raw n = Inr ()" and rd: "mpRead M raw = Inr (nxt, 0)"
    by (auto simp: decodeQSDHContribution_def split: if_splits)
  have n1: "1 \<le> unat n" and l: "length raw < 2 ^ 64" using n Cons.prems(3) by simp_all
  from pf have c: "length raw = 192 * unat n + 265" "take 8 (drop 288 raw) = u64_bytes n"
    unfolding phasePreflight_conds [OF n1 n(2) l] by simp_all
  have "u64_bytes (dm nxt) = take 8 (drop 288 raw)"
    using assms(1) rd unfolding phase1_laws_def by blast
  then have "dm nxt = n" using c(2) u64_bytes_inject by simp
  from Cons.IH [OF s(2) this] Cons.prems(3) c(1) show ?case by simp
qed simp

lemma sum_list_const: "\<forall>x \<in> set xs. f x = c \<Longrightarrow> sum_list (map f xs) = length xs * (c :: nat)"
  by (induction xs) simp_all

lemma checkedQSDHChain_iff:
  "checkedQSDHChain M capacity raws = Inr (q, n) \<longleftrightarrow>
     ceremonyDomain capacity = Inr n \<and> length raws \<le> 64 \<and> sum_list (map length raws) \<le> 67108864 \<and>
     chainLoop M n 0 raws (mpNew M n) = Inr q"
  by (auto simp: checkedQSDHChain_def)

lemma checkedQSDHChain_ok:
  assumes laws: "phase1_laws M dm" and ok: "checkedQSDHChain M capacity raws = Inr (q, n)"
  shows "dm q = n \<and> (\<forall>raw \<in> set raws. length raw = 192 * unat n + 265)"
proof -
  from ok have s: "ceremonyDomain capacity = Inr n" "sum_list (map length raws) \<le> 67108864"
    "chainLoop M n 0 raws (mpNew M n) = Inr q" unfolding checkedQSDHChain_iff by blast+
  have "\<forall>raw \<in> set raws. length raw < 2 ^ 64"
    using s(2) member_le_sum_list [of _ "map length raws"] by fastforce
  with chainLoop_domain [OF laws ceremonyDomain_ok(4,5) [OF s(1)] s(3)] laws show ?thesis
    by (simp add: phase1_laws_def)
qed

lemma ContributeQSDH_extends:
  assumes laws: "phase1_laws M dm" and ok: "checkedQSDHChain M capacity prev = Inr (q, n)"
    and room: "(length prev + 1) * (192 * unat n + 265) \<le> 67108864" "length prev < 64"
  obtains raw q' where "ContributeQSDH M capacity prev r = Inr raw"
    "checkedQSDHChain M capacity (prev @ [raw]) = Inr (q', n)"
proof -
  let ?p = "mpContribute M q r"
  note chain = ok [unfolded checkedQSDHChain_iff]
  have D: "ceremonyDomain capacity = Inr n" using chain by blast
  note n = ceremonyDomain_ok(4,5) [OF D]
  note dq = checkedQSDHChain_ok [OF laws ok]
  from laws n dq obtain raw where raw: "mpWrite M ?p = Inr raw" "mpRead M raw = Inr (?p, 0)" "phase1_layout n raw"
    unfolding phase1_laws_def by metis
  have len: "length raw = 192 * unat n + 265" using layout_length [OF raw(3) n] .
  have n1: "1 \<le> unat n" and len64: "length raw < 2 ^ 64" using n len by simp_all
  have "phasePreflight raw n = Inr ()" using raw(3) phasePreflight_iff [OF n1 n(2) len64] by blast
  then have dec: "decodeQSDHContribution M raw n = Inr ?p" using raw by (simp add: decodeQSDHContribution_def)
  have ver: "mpVerify M q ?p = Inr ()" using laws unfolding phase1_laws_def by blast
  have "sum_list (map length prev) = length prev * (192 * unat n + 265)"
    using dq by (intro sum_list_const) blast
  then have "sum_list (map length (prev @ [raw])) \<le> 67108864" using room(1) len by simp
  then have ext: "checkedQSDHChain M capacity (prev @ [raw]) = Inr (?p, n)"
    unfolding checkedQSDHChain_iff using chain room(2) dec ver by (simp add: chainLoop_append)
  have "unat ((of_nat (length prev + 1) :: 64 word) * (192 * n + 265)) = (length prev + 1) * (192 * unat n + 265)"
    using room domain_words(4) [OF n1 n(2)] by (simp only: unat_word_ariths unat_of_nat) simp
  then have "\<not> (of_nat (length prev + 1) :: 64 word) * (192 * n + 265) > of_nat 67108864"
    using room(1) by (simp add: word_less_nat_alt)
  then have "ContributeQSDH M capacity prev r = Inr raw"
    using room(2) D ok raw(1) by (simp add: ContributeQSDH_def)
  with ext show thesis by (rule that [rotated])
qed

lemma contributeAll_ok:
  assumes laws: "phase1_laws M dm"
  shows "checkedQSDHChain M capacity chain = Inr (q, n) \<Longrightarrow>
    (length chain + length rs) * (192 * unat n + 265) \<le> 67108864 \<Longrightarrow> length chain + length rs \<le> 64 \<Longrightarrow>
    \<exists>out q'. contributeAll M capacity chain rs = Inr out \<and> length out = length chain + length rs \<and>
      checkedQSDHChain M capacity out = Inr (q', n)"
proof (induction rs arbitrary: chain q)
  case (Cons r rs)
  have "(length chain + 1) * (192 * unat n + 265) \<le> (length chain + length (r # rs)) * (192 * unat n + 265)"
    by (intro mult_right_mono) simp_all
  then have room: "(length chain + 1) * (192 * unat n + 265) \<le> 67108864" using Cons.prems(2) by (rule le_trans)
  have "length chain < 64" using Cons.prems(3) by simp
  from ContributeQSDH_extends [OF laws Cons.prems(1) room this] obtain raw q' where
    "ContributeQSDH M capacity chain r = Inr raw" "checkedQSDHChain M capacity (chain @ [raw]) = Inr (q', n)" .
  moreover from Cons.IH [OF this(2)] Cons.prems(2,3) have "\<exists>out q'. contributeAll M capacity (chain @ [raw]) rs = Inr out \<and>
      length out = length (chain @ [raw]) + length rs \<and> checkedQSDHChain M capacity out = Inr (q', n)" by simp
  ultimately show ?case by simp
qed auto

section \<open>The receipt\<close>

lemma FinalizeQSDHCeremony_ok:
  assumes "FinalizeQSDHCeremony E P M capacity contributions beacon = Inr (params, receipt)"
  obtains q raw where "checkedQSDHChain M capacity contributions = Inr (q, qrDomain receipt)"
    "2 \<le> length contributions" "beacon \<noteq> replicate 32 0"
    "ValidateParams E params = Inr ()" "int (length (parPowers params)) = capacity + 1"
    "MarshalParams E P params = Inr raw" "qrParametersSHA256 receipt = hexDigest (Sum256 E raw)"
    "qrContributionSHA256 receipt = map (\<lambda>b. hexDigest (Sum256 E b)) contributions"
    "qrCapacity receipt = capacity" "qrBeacon receipt = hexDigest beacon"
proof -
  from assms obtain q n where g: "2 \<le> length contributions" "beacon \<noteq> replicate 32 0"
    and c: "checkedQSDHChain M capacity contributions = Inr (q, n)"
    and f: "finalizeChain E P M capacity contributions beacon (q, n) = Inr (params, receipt)"
    by (auto simp: FinalizeQSDHCeremony_def)
  have cap: "1 \<le> capacity" using c ceremonyDomain_ok(1) unfolding checkedQSDHChain_iff by blast
  obtain g1 g2 where seal: "mpSeal M q beacon = (g1, g2)" by fastforce
  from f obtain raw where "capacity + 1 \<le> int (length g1)"
    and p: "params = \<lparr>parG = cGen (BN E), parH = cGen (BN2 E), parHTau = g2 ! 1,
                    parPowers = take (nat (capacity + 1)) g1\<rparr>"
    "ValidateParams E params = Inr ()" "MarshalParams E P params = Inr raw"
    and r: "receipt = \<lparr>qrFormat = ''lktrs/qsdh-ceremony-receipt/v1'', qrGnark = gnarkVersion,
         qrGnarkCrypto = cryptoVersion, qrCapacity = capacity, qrDomain = n,
         qrContributionSHA256 = map (\<lambda>b. hexDigest (Sum256 E b)) contributions,
         qrBeacon = hexDigest beacon, qrParametersSHA256 = hexDigest (Sum256 E raw)\<rparr>"
    by (auto simp: finalizeChain_def seal Let_def)
  then have "int (length (parPowers params)) = capacity + 1" using cap by simp
  with g c p(2,3) show thesis by (intro that) (simp_all add: r)
qed

end
