(* ===== verification/SetupProps.thy ===== *)
theory SetupProps
  imports RingProps Ceremony
begin

text \<open>
  The properties of the setup encodings and of the q-SDH ceremony, with concrete instances of
  the parameters they depend on.
\<close>

section \<open>Concrete parameters\<close>

text \<open>A point codec for the sample groups, which writes the exponent.\<close>

definition sample_points :: pointcodec where
  "sample_points =
     \<lparr>pcG1Bytes = (\<lambda>p. be_bytes 32 (pX p)), pcG1Set = (\<lambda>b. Inr (pt (be_nat b))),
      pcG2Bytes = (\<lambda>p. be_bytes 64 (pXA0 p)), pcG2Set = (\<lambda>b. Inr (pt2 (be_nat b)))\<rparr>"

lemma sample_point_laws: "point_laws sample_env sample_points"
proof -
  have "(100 :: nat) < 256 ^ 32" "(100 :: nat) < 256 ^ 64" by simp_all
  then have "be_nat (be_bytes 32 n) = n" "be_nat (be_bytes 64 n) = n" if "int n < 101" for n
    using that by (intro be_nat_be_bytes_id; linarith)+
  then show ?thesis
    by (auto simp: point_laws_def g1_encodes_def g2_encodes_def sample_points_def sample_in_group)
qed

text \<open>A Phase 1 whose state is the domain size and the number of contributions.\<close>

definition sample_point_bytes :: "nat list \<Rightarrow> bytes" where
  "sample_point_bytes ws = concat (map (\<lambda>w. replicate w 0x80) ws)"

definition sample_phase :: "64 word \<times> nat \<Rightarrow> bytes" where
  "sample_phase p = sample_point_bytes phaseProofs @ u64_bytes (fst p) @
     sample_point_bytes (phaseVectors (fst p)) @ [32] @ be_bytes 32 (snd p)"


lemma sample_point_bytes_ok: "\<forall>w \<in> set ws. 0 < w \<Longrightarrow> compressedPoints ws (sample_point_bytes ws)"
proof (induction ws)
  case (Cons w ws)
  have "compressedFlag (0x80 :: byte)" by (simp add: compressedFlag_def)
  with Cons show ?case by (cases w) (auto simp: sample_point_bytes_def)
qed (simp add: sample_point_bytes_def)

lemma sample_phase_layout: "phase1_layout (fst p) (sample_phase p)"
  unfolding phase1_layout_def sample_phase_def
  using sample_point_bytes_ok [OF phaseProofs_sum(2)] sample_point_bytes_ok [OF phaseVectors_pos [of "fst p"]]
  by (intro exI conjI) (assumption | simp)+






lemma sample_domain: "domainLoop 1 = Some 2" "ceremonyDomain 1 = Inr 2"
  by (simp_all add: ceremonyDomain_def domainLoop_def while_option_unfold)


lemma loop_states_power: "n \<in> set loop_states \<Longrightarrow> \<exists>j \<in> {1..16}. uint n = 2 ^ j"
proof -
  have "list_all (\<lambda>n. list_ex (\<lambda>j. uint n = 2 ^ j) [1..<17]) loop_states" by code_simp
  then show "n \<in> set loop_states \<Longrightarrow> \<exists>j \<in> {1..16}. uint n = 2 ^ j"
    unfolding list_all_iff list_ex_iff by fastforce
qed

lemma sample_marshal: "\<exists>raw. MarshalParams sample_env sample_points sample_params = Inr raw"
  by (simp add: MarshalParams_def sample_params_valid)

section \<open>Properties\<close>

text \<open>
  C20: the encoding of the public parameters is canonical.  \<open>UnmarshalParams\<close> accepts a byte
  string exactly when it is what \<open>MarshalParams\<close> writes for the parameters it returns.
\<close>

theorem params_encoding_canonical:
  assumes "point_laws E P"
  shows "UnmarshalParams E P raw = Inr p \<longleftrightarrow> MarshalParams E P p = Inr raw"
  using params_codec.dec_iff MarshalParams_wf [OF assms] by blast

theorem params_encoding_canonical_witness:
  "\<exists>raw. UnmarshalParams sample_env sample_points raw = Inr sample_params"
  using params_encoding_canonical [OF sample_point_laws] sample_marshal by blast



text \<open>
  C21: the loop of \<open>ceremonyDomain\<close> ends for every capacity the function admits, and its
  result is the smallest power of two, at least 2, that leaves room for all the powers.
\<close>

theorem ceremonyDomain_terminates:
  assumes "1 \<le> capacity" and "capacity \<le> 65536"
  shows "\<exists>n. domainLoop capacity = Some n \<and> ceremonyDomain capacity = Inr n \<and>
    (\<exists>j \<in> {1..16}. uint n = 2 ^ j) \<and> capacity + 1 \<le> 2 * uint n - 1 \<and>
    (uint n = 2 \<or> \<not> capacity + 1 \<le> 2 * (uint n div 2) - 1)"
proof -
  from domainLoop_Some [OF assms] obtain n where n: "domainLoop capacity = Some n" "n \<in> set loop_states"
    "capacity + 1 \<le> 2 * uint n - 1" "n = 2 \<or> uint n - 1 < capacity + 1" by blast
  obtain j where j: "j \<in> {1..16}" "uint n = 2 ^ j" using loop_states_power [OF n(2)] by blast
  then have "2 * (uint n div 2) = uint n" by (cases j) simp_all
  moreover have "uint n = 2" if "n = 2" using that by simp
  ultimately show ?thesis using n assms j by (auto simp: ceremonyDomain_def)
qed

theorem ceremonyDomain_terminates_witness: "\<exists>n. domainLoop 1 = Some n \<and> 1 + 1 \<le> 2 * uint n - 1"
  using ceremonyDomain_terminates [of 1] by auto

text \<open>
  C23: the checks made on a contribution before gnark decodes it accept exactly the layout
  of a compressed Phase 1 for the trusted domain: the right number of points, each of them
  compressed, the domain size, and a complete predecessor challenge, with nothing left over.
\<close>

theorem contribution_layout_exact:
  assumes "ceremonyDomain capacity = Inr n" and "length raw < 2 ^ 64"
  shows "phasePreflight raw n = Inr () \<longleftrightarrow> phase1_layout n raw"
  using phasePreflight_iff [OF _ ceremonyDomain_ok(5) [OF assms(1)] assms(2)] ceremonyDomain_ok(4) [OF assms(1)] by simp

theorem contribution_layout_exact_witness: "phasePreflight (sample_phase (2, 7)) 2 = Inr ()"
proof -
  have "length (sample_phase (2, 7)) = 649"
    using layout_length [OF sample_phase_layout [of "(2, 7)"]] by simp
  with contribution_layout_exact [OF sample_domain(2), of "sample_phase (2, 7)"] sample_phase_layout [of "(2, 7)"]
  show ?thesis by simp
qed





end
