(* ===== verification/Json.thy ===== *)
theory Json
  imports Encoding
begin

text \<open>
  The part of Go's \<open>encoding/json\<close> and \<open>unicode/utf8\<close> the program uses, with
  \<open>rejectDuplicateJSON\<close> of \<open>src/nativeproof/service.go\<close> on top of it: the scanner, the token
  state machine of a \<open>json.Decoder\<close>, and the printer behind \<open>json.Marshal\<close> and
  \<open>json.MarshalIndent\<close>.  The texts of the errors \<open>encoding/json\<close> reports are not modelled:
  they are all \<open>jsonErr\<close>.
\<close>

section \<open>UTF-8\<close>

abbreviation code :: "char \<Rightarrow> nat" where "code c \<equiv> of_char c"

definition contByte :: "char \<Rightarrow> bool" where
  "contByte c \<longleftrightarrow> 0x80 \<le> code c \<and> code c \<le> 0xBF"

text \<open>The range of the second byte after a lead byte of a sequence of three or four.\<close>

definition secondByte :: "char \<Rightarrow> char \<Rightarrow> bool" where
  "secondByte a b \<longleftrightarrow> (
     if code a = 0xE0 then 0xA0 \<le> code b \<and> code b \<le> 0xBF
     else if code a = 0xED then 0x80 \<le> code b \<and> code b \<le> 0x9F
     else if code a = 0xF0 then 0x90 \<le> code b \<and> code b \<le> 0xBF
     else if code a = 0xF4 then 0x80 \<le> code b \<and> code b \<le> 0x8F
     else contByte b)"

text \<open>The number of bytes of the first rune, zero when it is invalid (\<open>utf8.DecodeRune\<close>).\<close>

definition runeLen :: "string \<Rightarrow> nat" where
  "runeLen s = (case s of [] \<Rightarrow> 0 | a # t \<Rightarrow>
     if code a < 0x80 then 1
     else if 0xC2 \<le> code a \<and> code a \<le> 0xDF then
       (case t of b # _ \<Rightarrow> if contByte b then 2 else 0 | _ \<Rightarrow> 0)
     else if 0xE0 \<le> code a \<and> code a \<le> 0xEF then
       (case t of b # c # _ \<Rightarrow> if secondByte a b \<and> contByte c then 3 else 0 | _ \<Rightarrow> 0)
     else if 0xF0 \<le> code a \<and> code a \<le> 0xF4 then
       (case t of b # c # d # _ \<Rightarrow> if secondByte a b \<and> contByte c \<and> contByte d then 4 else 0 | _ \<Rightarrow> 0)
     else 0)"

lemma runeLen_le: "runeLen s \<le> length s"
  by (auto simp: runeLen_def split: list.splits)

lemma runeLen_Nil [simp]: "runeLen [] = 0"
  by (simp add: runeLen_def)

text \<open>\<open>utf8.Valid\<close>, and the copy of a string with every invalid byte replaced by U+FFFD.\<close>

function validUtf8 :: "string \<Rightarrow> bool" where
  "validUtf8 s = (if s = [] then True else if runeLen s = 0 then False else validUtf8 (drop (runeLen s) s))"
  by pat_completeness auto
termination
  by (relation "measure length") (auto simp: neq_Nil_conv)

declare validUtf8.simps [simp del]

definition replacement :: string where
  "replacement = [CHR 0xEF, CHR 0xBF, CHR 0xBD]"

function sanitize :: "string \<Rightarrow> string" where
  "sanitize s = (if s = [] then []
     else if runeLen s = 0 then replacement @ sanitize (tl s)
     else take (runeLen s) s @ sanitize (drop (runeLen s) s))"
  by pat_completeness auto
termination
  by (relation "measure length") (auto simp: neq_Nil_conv)

declare sanitize.simps [simp del]

lemma sanitize_valid: "validUtf8 s \<Longrightarrow> sanitize s = s"
proof (induction s rule: validUtf8.induct)
  case (1 s)
  from "1.prems" have "s = [] \<or> (runeLen s \<noteq> 0 \<and> validUtf8 (drop (runeLen s) s))"
    by (subst (asm) validUtf8.simps) (auto split: if_splits)
  with "1.IH" show ?case by (subst sanitize.simps) auto
qed

text \<open>\<open>utf8.AppendRune\<close>: surrogates and values out of range give U+FFFD.\<close>

definition utf8Encode :: "nat \<Rightarrow> string" where
  "utf8Encode r =
     (if r < 0x80 then [char_of r]
      else if r < 0x800 then [char_of (0xC0 + r div 64), char_of (0x80 + r mod 64)]
      else if (0xD800 \<le> r \<and> r < 0xE000) \<or> 0x10FFFF < r then replacement
      else if r < 0x10000 then
        [char_of (0xE0 + r div 4096), char_of (0x80 + r div 64 mod 64), char_of (0x80 + r mod 64)]
      else [char_of (0xF0 + r div 262144), char_of (0x80 + r div 4096 mod 64),
            char_of (0x80 + r div 64 mod 64), char_of (0x80 + r mod 64)])"

section \<open>The scanner\<close>

datatype Json = JNull | JBool bool | JNum string | JStr string | JArr "Json list" | JObj "(string \<times> Json) list"

datatype token = TDelim char | TVal Json | TErr

definition jsonErr :: string where "jsonErr = ''invalid JSON''"

definition isSpace :: "char \<Rightarrow> bool" where
  "isSpace c \<longleftrightarrow> code c = 32 \<or> code c = 9 \<or> code c = 10 \<or> code c = 13"

definition isDelim :: "char \<Rightarrow> bool" where
  "isDelim c \<longleftrightarrow> c \<in> set ''{}[]:,''"

definition isDigit :: "char \<Rightarrow> bool" where
  "isDigit c \<longleftrightarrow> 48 \<le> code c \<and> code c \<le> 57"

text \<open>The bytes a literal or a number can consist of.\<close>

definition isWord :: "char \<Rightarrow> bool" where
  "isWord c \<longleftrightarrow> isDigit c \<or> (97 \<le> code c \<and> code c \<le> 122) \<or> (65 \<le> code c \<and> code c \<le> 90) \<or> c \<in> set ''+-.''"

definition numExp :: "string \<Rightarrow> bool" where
  "numExp s \<longleftrightarrow> (case s of [] \<Rightarrow> True
     | c # t \<Rightarrow> (c = CHR ''e'' \<or> c = CHR ''E'') \<and>
         (let d = (case t of x # u \<Rightarrow> if x = CHR ''+'' \<or> x = CHR ''-'' then u else t | [] \<Rightarrow> [])
          in d \<noteq> [] \<and> list_all isDigit d))"

definition numFrac :: "string \<Rightarrow> bool" where
  "numFrac s \<longleftrightarrow> (case s of c # t \<Rightarrow>
       if c = CHR ''.'' then takeWhile isDigit t \<noteq> [] \<and> numExp (dropWhile isDigit t) else numExp s
     | [] \<Rightarrow> True)"

definition isNumber :: "string \<Rightarrow> bool" where
  "isNumber s \<longleftrightarrow>
     (case (case s of c # t \<Rightarrow> if c = CHR ''-'' then t else s | [] \<Rightarrow> []) of
        [] \<Rightarrow> False
      | c # t \<Rightarrow> if c = CHR ''0'' then numFrac t else isDigit c \<and> numFrac (dropWhile isDigit t))"

definition primitive :: "string \<Rightarrow> Json option" where
  "primitive w =
     (if w = ''true'' then Some (JBool True) else if w = ''false'' then Some (JBool False)
      else if w = ''null'' then Some JNull else if isNumber w then Some (JNum w) else None)"

definition simpleEscape :: "char \<Rightarrow> char option" where
  "simpleEscape c = map_of
     [(CHR 34, CHR 34), (CHR 92, CHR 92), (CHR ''/'', CHR ''/''), (CHR ''b'', CHR 8), (CHR ''f'', CHR 12),
      (CHR ''n'', CHR 10), (CHR ''r'', CHR 13), (CHR ''t'', CHR 9)] c"

definition getu4 :: "string \<Rightarrow> nat option" where
  "getu4 s = (case s of a # b # c # d # _ \<Rightarrow>
       (case (hexVal a, hexVal b, hexVal c, hexVal d) of
          (Some w, Some x, Some y, Some z) \<Rightarrow> Some (((w * 16 + x) * 16 + y) * 16 + z)
        | _ \<Rightarrow> None)
     | _ \<Rightarrow> None)"

text \<open>The low surrogate of a following escape, when it completes the pair.\<close>

definition lowSurrogate :: "nat \<Rightarrow> string \<Rightarrow> nat option" where
  "lowSurrogate hi s = (case s of a # u # t \<Rightarrow>
       if a = CHR 92 \<and> u = CHR ''u'' then (case getu4 t of
           Some lo \<Rightarrow> if hi < 0xDC00 \<and> 0xDC00 \<le> lo \<and> lo < 0xE000 then Some lo else None
         | None \<Rightarrow> None)
       else None
     | _ \<Rightarrow> None)"

text \<open>The rest of a string literal: its unquoted bytes and what follows the closing quote.\<close>

function lexStr :: "string \<Rightarrow> string \<Rightarrow> (string \<times> string) option" where
  "lexStr acc [] = None"
| "lexStr acc (c # s) =
     (if c = CHR 34 then Some (rev acc, s)
      else if c = CHR 92 then
        (case s of [] \<Rightarrow> None
         | e # t \<Rightarrow>
           if e = CHR ''u'' then
             (case getu4 t of None \<Rightarrow> None
              | Some v \<Rightarrow>
                if 0xD800 \<le> v \<and> v < 0xE000 then
                  (case lowSurrogate v (drop 4 t) of
                     Some lo \<Rightarrow> lexStr (rev (utf8Encode (0x10000 + (v - 0xD800) * 1024 + (lo - 0xDC00))) @ acc) (drop 10 t)
                   | None \<Rightarrow> lexStr (rev replacement @ acc) (drop 4 t))
                else lexStr (rev (utf8Encode v) @ acc) (drop 4 t))
           else (case simpleEscape e of None \<Rightarrow> None | Some x \<Rightarrow> lexStr (x # acc) t))
      else if code c < 32 then None
      else lexStr (c # acc) s)"
  by pat_completeness auto
termination
  by (relation "measure (\<lambda>(acc, s). length s)") auto

declare lexStr.simps [simp del]

lemma lexStr_shorter: "lexStr acc s = Some (x, r) \<Longrightarrow> length r < length s"
proof (induction s arbitrary: acc rule: length_induct)
  case (1 s)
  then have IH: "lexStr a u = Some (x, r) \<Longrightarrow> length u < length s \<Longrightarrow> length r < length s" for a u
    using less_trans by blast
  show ?case
  proof (cases s)
    case Nil
    then show ?thesis using "1.prems" by (simp add: lexStr.simps)
  next
    case (Cons c t)
    from "1.prems" show ?thesis
      unfolding Cons lexStr.simps(2) [of acc c t]
      by (auto simp: Cons split: if_splits list.splits option.splits dest!: IH [unfolded Cons])
  qed
qed

lemma primitive_not_Nil: "primitive w = Some j \<Longrightarrow> w \<noteq> []"
  by (auto simp: primitive_def isNumber_def)

text \<open>The token stream of a text; it ends with \<open>TErr\<close> where no token can be read.\<close>

function lexJson :: "string \<Rightarrow> token list" where
  "lexJson [] = []"
| "lexJson (c # s) =
     (if isSpace c then lexJson s
      else if isDelim c then TDelim c # lexJson s
      else if c = CHR 34 then
        (case lexStr [] s of None \<Rightarrow> [TErr] | Some (x, r) \<Rightarrow> TVal (JStr (sanitize x)) # lexJson r)
      else (case primitive (takeWhile isWord (c # s)) of
          None \<Rightarrow> [TErr] | Some j \<Rightarrow> TVal j # lexJson (dropWhile isWord (c # s))))"
  by pat_completeness auto
termination
proof (relation "measure length", goal_cases)
  case (5 c s j)
  then have "takeWhile isWord (c # s) \<noteq> []" by (metis primitive_not_Nil)
  then show ?case using length_dropWhile_le [of isWord s] by (auto split: if_splits simp: le_imp_less_Suc)
qed (auto dest: lexStr_shorter)

declare lexJson.simps [simp del]

section \<open>The token state machine\<close>

text \<open>
  \<open>frame\<close> is an open array or object with what was read of it, last first; an object keeps the
  key whose value is pending.  \<open>expect\<close> are the token states of a \<open>json.Decoder\<close>.
\<close>

datatype frame = FArr "Json list" | FObj "(string \<times> Json) list" string

datatype expect = EValue | EArrStart | EArrComma | EObjStart | EObjKey | EObjColon | EObjComma

datatype progress = Done Json | Open expect "frame list"

fun complete :: "frame list \<Rightarrow> Json \<Rightarrow> progress" where
  "complete [] j = Done j"
| "complete (FArr js # fs) j = Open EArrComma (FArr (j # js) # fs)"
| "complete (FObj ms k # fs) j = Open EObjComma (FObj ((k, j) # ms) [] # fs)"

text \<open>
  A number is decoded into a \<open>float64\<close> by \<open>Token\<close>, which fails when it is out of range.  The
  value is \<open>m * 10 ^ e\<close>; the bound is where rounding gives infinity.
\<close>

definition numParts :: "string \<Rightarrow> nat \<times> int" where
  "numParts w =
     (let u = (case w of c # t \<Rightarrow> if c = CHR ''-'' then t else w | [] \<Rightarrow> []);
          i = takeWhile isDigit u; r = dropWhile isDigit u;
          (f, r) = (case r of c # t \<Rightarrow> if c = CHR ''.'' then (takeWhile isDigit t, dropWhile isDigit t) else ([], r)
                             | [] \<Rightarrow> ([], []));
          e = (case r of [] \<Rightarrow> 0 | _ # t \<Rightarrow>
                (case t of x # v \<Rightarrow> if x = CHR ''-'' then - int (dec_val v)
                                     else if x = CHR ''+'' then int (dec_val v) else int (dec_val t)
                 | [] \<Rightarrow> 0))
      in (dec_val (i @ f), e - int (length f)))"

definition floatLimit :: nat where "floatLimit = 2 ^ 1024 - 2 ^ 970"

definition floatFits :: "string \<Rightarrow> bool" where
  "floatFits w \<longleftrightarrow> (case numParts w of (m, e) \<Rightarrow> m * 10 ^ nat e < floatLimit * 10 ^ nat (- e))"

text \<open>
  One token.  With \<open>strict\<close> the machine is the loop of \<open>rejectDuplicateJSON\<close> over \<open>Token\<close>: an
  object must not repeat a key.  Without it, it is \<open>Decode\<close>, which limits the nesting depth.
\<close>

definition keyToken :: "bool \<Rightarrow> frame list \<Rightarrow> Json \<Rightarrow> progress result" where
  "keyToken strict fs v =
     (case v of
        JStr k \<Rightarrow> (case fs of
            FObj ms _ # r \<Rightarrow>
              if strict \<and> k \<in> set (map fst ms) then Inl (''duplicate JSON key '' @ k)
              else Inr (Open EObjColon (FObj ms k # r))
          | _ \<Rightarrow> Inl jsonErr)
      | _ \<Rightarrow> Inl jsonErr)"

definition valueToken :: "bool \<Rightarrow> frame list \<Rightarrow> Json \<Rightarrow> progress result" where
  "valueToken strict fs v =
     (case v of
        JNum w \<Rightarrow> if strict \<and> \<not> floatFits w then Inl jsonErr else Inr (complete fs v)
      | _ \<Rightarrow> Inr (complete fs v))"

definition openToken :: "bool \<Rightarrow> expect \<Rightarrow> frame \<Rightarrow> frame list \<Rightarrow> progress result" where
  "openToken strict ex f fs =
     (if \<not> strict \<and> length fs \<ge> 10000 then Inl jsonErr else Inr (Open ex (f # fs)))"

definition delimToken :: "bool \<Rightarrow> expect \<Rightarrow> frame list \<Rightarrow> char \<Rightarrow> progress result" where
  "delimToken strict ex fs c =
     (if c = CHR ''['' \<and> (ex = EValue \<or> ex = EArrStart) then openToken strict EArrStart (FArr []) fs
      else if c = CHR ''{'' \<and> (ex = EValue \<or> ex = EArrStart) then openToken strict EObjStart (FObj [] []) fs
      else if c = CHR '']'' \<and> (ex = EArrStart \<or> ex = EArrComma) then
        (case fs of FArr js # r \<Rightarrow> Inr (complete r (JArr (rev js))) | _ \<Rightarrow> Inl jsonErr)
      else if c = CHR ''}'' \<and> (ex = EObjStart \<or> ex = EObjComma) then
        (case fs of FObj ms _ # r \<Rightarrow> Inr (complete r (JObj (rev ms))) | _ \<Rightarrow> Inl jsonErr)
      else if c = CHR '':'' \<and> ex = EObjColon then Inr (Open EValue fs)
      else if c = CHR '','' \<and> ex = EArrComma then Inr (Open EValue fs)
      else if c = CHR '','' \<and> ex = EObjComma then Inr (Open EObjKey fs)
      else Inl jsonErr)"

definition stepTok :: "bool \<Rightarrow> expect \<Rightarrow> frame list \<Rightarrow> token \<Rightarrow> progress result" where
  "stepTok strict ex fs t =
     (case t of
        TErr \<Rightarrow> Inl jsonErr
      | TDelim c \<Rightarrow> delimToken strict ex fs c
      | TVal v \<Rightarrow>
          if ex = EValue \<or> ex = EArrStart then valueToken strict fs v
          else if ex = EObjStart \<or> ex = EObjKey then keyToken strict fs v
          else Inl jsonErr)"

fun runTok :: "bool \<Rightarrow> expect \<Rightarrow> frame list \<Rightarrow> token list \<Rightarrow> (Json \<times> token list) result" where
  "runTok strict ex fs [] = Inl jsonErr"
| "runTok strict ex fs (t # ts) =
     andThen (stepTok strict ex fs t) (\<lambda>p. case p of Done j \<Rightarrow> Inr (j, ts) | Open ex' fs' \<Rightarrow> runTok strict ex' fs' ts)"

definition rejectDuplicateJSON :: "bytes \<Rightarrow> unit result" where
  "rejectDuplicateJSON raw =
     andThen (runTok True EValue [] (lexJson (bytes_str raw))) (\<lambda>(_, rest).
       if rest \<noteq> [] then Inl ''trailing JSON'' else Inr ())"

section \<open>The printer\<close>

text \<open>Strings are quoted with HTML escaping on, as \<open>json.Marshal\<close> does.\<close>

definition shortEscape :: "char \<Rightarrow> char option" where
  "shortEscape c = map_of
     [(CHR 34, CHR 34), (CHR 92, CHR 92), (CHR 8, CHR ''b''), (CHR 12, CHR ''f''),
      (CHR 10, CHR ''n''), (CHR 13, CHR ''r''), (CHR 9, CHR ''t'')] c"

definition escAscii :: "char \<Rightarrow> string" where
  "escAscii c =
     (case shortEscape c of Some e \<Rightarrow> [CHR 92, e]
      | None \<Rightarrow> if code c < 32 \<or> c \<in> set ''<>&''
                then CHR 92 # ''u00'' @ [hexDigit (code c div 16), hexDigit (code c mod 16)]
                else [c])"

definition lineSeparator :: string where "lineSeparator = [CHR 0xE2, CHR 0x80, CHR 0xA8]"
definition paragraphSeparator :: string where "paragraphSeparator = [CHR 0xE2, CHR 0x80, CHR 0xA9]"

definition escRune :: "string \<Rightarrow> string" where
  "escRune r = (if r = lineSeparator then CHR 92 # ''u2028''
                else if r = paragraphSeparator then CHR 92 # ''u2029'' else r)"

function escStr :: "string \<Rightarrow> string" where
  "escStr [] = []"
| "escStr (c # s) =
     (if code c < 128 then escAscii c @ escStr s
      else if runeLen (c # s) = 0 then (CHR 92 # ''ufffd'') @ escStr s
      else escRune (take (runeLen (c # s)) (c # s)) @ escStr (drop (runeLen (c # s)) (c # s)))"
  by pat_completeness auto
termination
  by (relation "measure length") auto

declare escStr.simps [simp del]

definition quote :: "string \<Rightarrow> string" where
  "quote s = CHR 34 # escStr s @ [CHR 34]"

text \<open>
  \<open>nl l\<close> is what separates the entries at nesting level \<open>l\<close> and \<open>colon\<close> what follows a key:
  nothing and \<open>":"\<close> for \<open>Marshal\<close>, a new line with indentation and \<open>": "\<close> for \<open>MarshalIndent\<close>.
\<close>

fun render :: "(nat \<Rightarrow> string) \<Rightarrow> string \<Rightarrow> nat \<Rightarrow> Json \<Rightarrow> string" where
  "render nl colon l JNull = ''null''"
| "render nl colon l (JBool b) = (if b then ''true'' else ''false'')"
| "render nl colon l (JNum w) = w"
| "render nl colon l (JStr s) = quote s"
| "render nl colon l (JArr []) = ''[]''"
| "render nl colon l (JArr (j # js)) =
     ''['' @ nl (l + 1) @ render nl colon (l + 1) j @
     concat (map (\<lambda>i. '','' @ nl (l + 1) @ render nl colon (l + 1) i) js) @ nl l @ '']''"
| "render nl colon l (JObj []) = ''{}''"
| "render nl colon l (JObj ((k, j) # ms)) =
     ''{'' @ nl (l + 1) @ quote k @ colon @ render nl colon (l + 1) j @
     concat (map (\<lambda>(k, i). '','' @ nl (l + 1) @ quote k @ colon @ render nl colon (l + 1) i) ms) @ nl l @ ''}''"

definition printCompact :: "Json \<Rightarrow> bytes" where
  "printCompact j = str_bytes (render (\<lambda>l. []) '':'' 0 j)"

definition printIndent :: "Json \<Rightarrow> bytes" where
  "printIndent j = str_bytes (render (\<lambda>l. CHR 10 # replicate (2 * l) (CHR '' '')) '': '' 0 j)"

section \<open>Reading back what was printed\<close>

lemma lexStr_ascii:
  assumes "code c < 128"
  shows "lexStr acc (escAscii c @ t) = lexStr (c # acc) t"
proof (cases "shortEscape c")
  case (Some e)
  then have "simpleEscape e = Some c" "e \<noteq> CHR ''u''"
    by (auto simp: shortEscape_def simpleEscape_def split: if_splits)
  then show ?thesis by (simp add: escAscii_def Some lexStr.simps)
next
  case None
  then have n: "c \<noteq> CHR 34" "c \<noteq> CHR 92" by (auto simp: shortEscape_def)
  show ?thesis
  proof (cases "code c < 32 \<or> c \<in> set ''<>&''")
    case True
    have "hexVal (CHR ''0'') = Some 0" by (simp add: hexVal_def)
    then have "getu4 (''00'' @ [hexDigit (code c div 16), hexDigit (code c mod 16)] @ t) = Some (code c)"
      using assms by (simp add: getu4_def hexVal_hexDigit)
    moreover have "utf8Encode (code c) = [c]" using assms by (simp add: utf8Encode_def)
    ultimately show ?thesis
      using assms True by (simp add: escAscii_def None lexStr.simps)
  next
    case False
    then show ?thesis using n by (simp add: escAscii_def None lexStr.simps)
  qed
qed

lemma lexStr_high: "\<forall>b \<in> set u. 128 \<le> code b \<Longrightarrow> lexStr acc (u @ t) = lexStr (rev u @ acc) t"
proof (induction u arbitrary: acc)
  case (Cons b u)
  then have "b \<noteq> CHR 34" "b \<noteq> CHR 92" "\<not> code b < 32" by auto
  then show ?case using Cons by (simp add: lexStr.simps)
qed simp

lemma runeLen_high:
  assumes "\<not> code c < 128" and "runeLen (c # s) = n" and "n \<noteq> 0"
  shows "\<forall>b \<in> set (take n (c # s)). 128 \<le> code b"
proof -
  have "128 \<le> code b" if "secondByte c b \<or> contByte b" for b
    using that by (auto simp: secondByte_def contByte_def split: if_splits)
  with assms show ?thesis
    by (auto simp: runeLen_def numeral_2_eq_2 numeral_3_eq_3 eval_nat_numeral split: list.splits if_splits)
qed

lemma lexStr_rune:
  assumes "\<forall>b \<in> set u. 128 \<le> code b"
  shows "lexStr acc (escRune u @ t) = lexStr (rev u @ acc) t"
proof -
  have "getu4 (''2028'' @ t) = Some 0x2028" "getu4 (''2029'' @ t) = Some 0x2029"
    by (simp_all add: getu4_def hexVal_def)
  moreover have "utf8Encode 0x2028 = lineSeparator" "utf8Encode 0x2029 = paragraphSeparator"
    by (simp_all add: utf8Encode_def lineSeparator_def paragraphSeparator_def char_of_eq_iff)
  ultimately have "lexStr acc (CHR 92 # ''u2028'' @ t) = lexStr (rev lineSeparator @ acc) t"
    "lexStr acc (CHR 92 # ''u2029'' @ t) = lexStr (rev paragraphSeparator @ acc) t"
    by (simp_all add: lexStr.simps)
  then show ?thesis using lexStr_high [OF assms] by (simp add: escRune_def)
qed

lemma validUtf8_Cons_ascii: "code c < 128 \<Longrightarrow> validUtf8 (c # s) \<longleftrightarrow> validUtf8 s"
  by (subst validUtf8.simps) (simp add: runeLen_def)

lemma lexStr_escStr: "validUtf8 s \<Longrightarrow> lexStr acc (escStr s @ CHR 34 # t) = Some (rev acc @ s, t)"
proof (induction s arbitrary: acc rule: escStr.induct)
  case 1
  then show ?case by (simp add: escStr.simps lexStr.simps)
next
  case (2 c s)
  show ?case
  proof (cases "code c < 128")
    case True
    then have "lexStr (c # acc) (escStr s @ CHR 34 # t) = Some (rev (c # acc) @ s, t)"
      using 2 by (intro "2.IH"(1)) (simp_all add: validUtf8_Cons_ascii)
    then show ?thesis using True lexStr_ascii [OF True] by (simp add: escStr.simps)
  next
    case False
    let ?n = "runeLen (c # s)"
    have v: "?n \<noteq> 0" "validUtf8 (drop ?n (c # s))"
      using "2.prems" by (auto simp: validUtf8.simps [of "c # s"] split: if_splits)
    have "lexStr acc (escRune (take ?n (c # s)) @ escStr (drop ?n (c # s)) @ CHR 34 # t) =
        lexStr (rev (take ?n (c # s)) @ acc) (escStr (drop ?n (c # s)) @ CHR 34 # t)"
      by (rule lexStr_rune [OF runeLen_high [OF False refl v(1)]])
    also have "\<dots> = Some (rev (rev (take ?n (c # s)) @ acc) @ drop ?n (c # s), t)"
      using False v by (intro "2.IH"(3))
    finally show ?thesis using False v(1) by (simp add: escStr.simps(2) [of c s] del: take_Cons' drop_Cons')
  qed
qed

lemma lex_quote: "validUtf8 s \<Longrightarrow> lexJson (quote s @ t) = TVal (JStr s) # lexJson t"
  by (simp add: quote_def lexJson.simps isSpace_def isDelim_def lexStr_escStr sanitize_valid)

lemma lex_spaces: "list_all isSpace u \<Longrightarrow> lexJson (u @ t) = lexJson t"
  by (induction u) (simp_all add: lexJson.simps)

lemma lex_delim: "isDelim c \<Longrightarrow> lexJson (c # t) = TDelim c # lexJson t"
  by (auto simp: lexJson.simps isDelim_def isSpace_def)

text \<open>A word is followed by something that does not continue it.\<close>

definition wordEnd :: "string \<Rightarrow> bool" where
  "wordEnd t \<longleftrightarrow> t = [] \<or> \<not> isWord (hd t)"

lemma lex_word:
  assumes "list_all isWord w" and "primitive w = Some j" and "wordEnd t"
  shows "lexJson (w @ t) = TVal j # lexJson t"
proof -
  obtain c u where w: "w = c # u" using primitive_not_Nil [OF assms(2)] by (cases w) auto
  have "takeWhile isWord (w @ t) = w" "dropWhile isWord (w @ t) = t"
    using assms(1,3) by (cases t; auto simp: wordEnd_def list_all_iff takeWhile_append dropWhile_append)+
  moreover have "isWord c" using assms(1) w by simp
  then have "\<not> isSpace c" "\<not> isDelim c" "c \<noteq> CHR 34"
    by (auto simp: isWord_def isDigit_def isSpace_def isDelim_def)
  ultimately show ?thesis using assms(2) by (simp add: w lexJson.simps)
qed

text \<open>Values whose strings are valid UTF-8 and whose numbers follow the grammar.\<close>

fun wfText :: "Json \<Rightarrow> bool" where
  "wfText JNull \<longleftrightarrow> True"
| "wfText (JBool b) \<longleftrightarrow> True"
| "wfText (JNum w) \<longleftrightarrow> isNumber w"
| "wfText (JStr s) \<longleftrightarrow> validUtf8 s"
| "wfText (JArr js) \<longleftrightarrow> list_all wfText js"
| "wfText (JObj ms) \<longleftrightarrow> list_all (\<lambda>(k, j). validUtf8 k \<and> wfText j) ms"

fun toks :: "Json \<Rightarrow> token list" where
  "toks (JArr []) = [TDelim (CHR ''[''), TDelim (CHR '']'')]"
| "toks (JArr (j # js)) =
     TDelim (CHR ''['') # toks j @ concat (map (\<lambda>i. TDelim (CHR '','') # toks i) js) @ [TDelim (CHR '']'')]"
| "toks (JObj []) = [TDelim (CHR ''{''), TDelim (CHR ''}'')]"
| "toks (JObj ((k, j) # ms)) =
     TDelim (CHR ''{'') # TVal (JStr k) # TDelim (CHR '':'') # toks j @
     concat (map (\<lambda>(k, i). TDelim (CHR '','') # TVal (JStr k) # TDelim (CHR '':'') # toks i) ms) @ [TDelim (CHR ''}'')]"
| "toks j = [TVal j]"

lemma digits_word: "list_all isDigit s \<Longrightarrow> list_all isWord s"
  by (auto simp: list_all_iff isWord_def)

lemma takeWhile_digits: "list_all isDigit (takeWhile isDigit s)"
  by (auto simp: list_all_iff dest: set_takeWhileD)

lemma word_chars [simp]:
  "isWord (CHR ''e'')" "isWord (CHR ''E'')" "isWord (CHR ''+'')" "isWord (CHR ''-'')" "isWord (CHR ''.'')"
  "isWord (CHR ''0'')" "isDigit c \<Longrightarrow> isWord c"
  by (simp_all add: isWord_def isDigit_def)

lemma numExp_word: "numExp s \<Longrightarrow> list_all isWord s"
  by (auto simp: numExp_def Let_def split: list.splits if_splits dest!: digits_word)

lemma split_digits_word: "list_all isWord (dropWhile isDigit s) \<Longrightarrow> list_all isWord s"
  using digits_word [OF takeWhile_digits, of s] list_all_append [of isWord "takeWhile isDigit s" "dropWhile isDigit s"]
  by simp

lemma numFrac_word: "numFrac s \<Longrightarrow> list_all isWord s"
  by (auto simp: numFrac_def split: list.splits if_splits dest!: numExp_word split_digits_word)

lemma isNumber_word: "isNumber w \<Longrightarrow> list_all isWord w"
  by (auto simp: isNumber_def split: list.splits if_splits dest!: numFrac_word intro: split_digits_word)

lemma primitive_number: "isNumber w \<Longrightarrow> primitive w = Some (JNum w)"
  by (auto simp: primitive_def isNumber_def isDigit_def)

lemma lex_literal:
  "wordEnd t \<Longrightarrow> lexJson (''null'' @ t) = TVal JNull # lexJson t"
  "wordEnd t \<Longrightarrow> lexJson (''true'' @ t) = TVal (JBool True) # lexJson t"
  "wordEnd t \<Longrightarrow> lexJson (''false'' @ t) = TVal (JBool False) # lexJson t"
  by (rule lex_word; simp add: isWord_def primitive_def)+

lemma wordEnd_delim: "isDelim c \<Longrightarrow> wordEnd (c # t)"
  by (auto simp: wordEnd_def isDelim_def isWord_def isDigit_def)

lemma space_not_word: "isSpace c \<Longrightarrow> \<not> isWord c"
  by (auto simp: isSpace_def isWord_def isDigit_def)

lemma wordEnd_spaces: "list_all isSpace u \<Longrightarrow> wordEnd t \<Longrightarrow> wordEnd (u @ t)"
  by (cases u) (simp_all add: wordEnd_def space_not_word)

lemma delims [simp]:
  "isDelim (CHR ''['')" "isDelim (CHR '']'')" "isDelim (CHR ''{'')" "isDelim (CHR ''}'')"
  "isDelim (CHR '':'')" "isDelim (CHR '','')"
  by (simp_all add: isDelim_def)

lemma wordEnd_entries: "wordEnd u \<Longrightarrow> wordEnd (concat (map (\<lambda>x. '','' @ f x) xs) @ u)"
  by (cases xs) (auto simp: wordEnd_delim)

lemma lex_entries:
  assumes "\<And>x t. x \<in> set xs \<Longrightarrow> wordEnd t \<Longrightarrow> lexJson (R x @ t) = T x @ lexJson t"
    and "list_all isSpace ws" and "wordEnd u"
  shows "lexJson (concat (map (\<lambda>x. '','' @ ws @ R x) xs) @ u) =
    concat (map (\<lambda>x. TDelim (CHR '','') # T x) xs) @ lexJson u"
  using assms(1)
proof (induction xs)
  case (Cons x xs)
  let ?rest = "concat (map (\<lambda>x. '','' @ ws @ R x) xs) @ u"
  have "wordEnd ?rest" using wordEnd_entries [OF assms(3), of "\<lambda>x. ws @ R x"] by simp
  then have "lexJson (R x @ ?rest) = T x @ lexJson ?rest" using Cons.prems by simp
  moreover have "lexJson ?rest = concat (map (\<lambda>x. TDelim (CHR '','') # T x) xs) @ lexJson u"
    using Cons.prems by (intro Cons.IH) simp
  ultimately show ?case by (simp add: lex_delim lex_spaces [OF assms(2)])
qed simp

lemma lex_render:
  assumes nl: "\<And>l. list_all isSpace (nl l)" and sp: "list_all isSpace sp"
  shows "wfText j \<Longrightarrow> wordEnd t \<Longrightarrow> lexJson (render nl (CHR '':'' # sp) l j @ t) = toks j @ lexJson t"
proof (induction j arbitrary: l t)
  case (JNum w)
  then show ?case by (simp add: lex_word [OF isNumber_word primitive_number])
next
  case (JArr js)
  have IH: "lexJson (render nl (CHR '':'' # sp) k i @ t) = toks i @ lexJson t" if "i \<in> set js" "wordEnd t" for i k t
    using JArr.IH [OF that(1) _ that(2)] JArr.prems(1) that(1) by (simp add: list_all_iff)
  show ?case
  proof (cases js)
    case Nil
    then show ?thesis by (simp add: lex_delim)
  next
    case (Cons i rest)
    let ?u = "nl l @ '']'' @ t"
    have u: "wordEnd ?u" "lexJson ?u = TDelim (CHR '']'') # lexJson t"
      by (simp_all add: wordEnd_spaces [OF nl] wordEnd_delim lex_spaces [OF nl] lex_delim)
    have "lexJson (concat (map (\<lambda>x. '','' @ nl (l + 1) @ render nl (CHR '':'' # sp) (l + 1) x) rest) @ ?u) =
        concat (map (\<lambda>x. TDelim (CHR '','') # toks x) rest) @ lexJson ?u"
      using IH Cons by (intro lex_entries nl u(1)) simp
    moreover have "wordEnd (concat (map (\<lambda>x. '','' @ nl (l + 1) @ render nl (CHR '':'' # sp) (l + 1) x) rest) @ ?u)"
      using wordEnd_entries [OF u(1), of "\<lambda>x. nl (l + 1) @ render nl (CHR '':'' # sp) (l + 1) x"] .
    ultimately show ?thesis
      using IH [of i] u(2) by (simp add: Cons lex_delim lex_spaces [OF nl])
  qed
next
  case (JObj ms)
  have IH: "lexJson (quote k @ (CHR '':'' # sp) @ render nl (CHR '':'' # sp) n i @ t) =
      [TVal (JStr k), TDelim (CHR '':'')] @ toks i @ lexJson t" if "(k, i) \<in> set ms" "wordEnd t" for k i n t
  proof -
    have v: "validUtf8 k" "wfText i" using JObj.prems(1) that(1) by (auto simp: list_all_iff)
    have "i \<in> Basic_BNFs.snds (k, i)" by simp
    from JObj.IH [OF that(1) this v(2) that(2)] v(1) show ?thesis
      by (simp add: lex_quote lex_delim lex_spaces [OF sp])
  qed
  let ?R = "\<lambda>(k, i). quote k @ (CHR '':'' # sp) @ render nl (CHR '':'' # sp) (l + 1) i"
  let ?T = "\<lambda>(k, i). [TVal (JStr k), TDelim (CHR '':'')] @ toks i"
  show ?case
  proof (cases ms)
    case Nil
    then show ?thesis by (simp add: lex_delim)
  next
    case (Cons m rest)
    obtain k i where m: "m = (k, i)" by fastforce
    let ?u = "nl l @ ''}'' @ t"
    have u: "wordEnd ?u" "lexJson ?u = TDelim (CHR ''}'') # lexJson t"
      by (simp_all add: wordEnd_spaces [OF nl] wordEnd_delim lex_spaces [OF nl] lex_delim)
    have e: "lexJson (concat (map (\<lambda>x. '','' @ nl (l + 1) @ ?R x) rest) @ ?u) =
        concat (map (\<lambda>x. TDelim (CHR '','') # ?T x) rest) @ lexJson ?u"
      using IH Cons by (intro lex_entries nl u(1)) auto
    have "wordEnd (concat (map (\<lambda>x. '','' @ nl (l + 1) @ ?R x) rest) @ ?u)"
      using wordEnd_entries [OF u(1), of "\<lambda>x. nl (l + 1) @ ?R x"] .
    from IH [of k i, OF _ this] e u(2) show ?thesis
      by (simp add: Cons m lex_delim lex_spaces [OF nl] case_prod_unfold)
  qed
qed (simp_all add: lex_literal [simplified] lex_quote)

text \<open>No object repeats a key and no number overflows: what \<open>rejectDuplicateJSON\<close> demands.\<close>

fun noDup :: "Json \<Rightarrow> bool" where
  "noDup (JNum w) \<longleftrightarrow> floatFits w"
| "noDup (JArr js) \<longleftrightarrow> list_all noDup js"
| "noDup (JObj ms) \<longleftrightarrow> distinct (map fst ms) \<and> list_all (\<lambda>(k, j). noDup j) ms"
| "noDup j \<longleftrightarrow> True"

fun depthJ :: "Json \<Rightarrow> nat" where
  "depthJ (JArr js) = Suc (foldr max (map depthJ js) 0)"
| "depthJ (JObj ms) = Suc (foldr max (map (\<lambda>(k, j). depthJ j) ms) 0)"
| "depthJ j = 0"

definition resume :: "bool \<Rightarrow> frame list \<Rightarrow> Json \<Rightarrow> token list \<Rightarrow> (Json \<times> token list) result" where
  "resume strict fs j ts = (case complete fs j of Done j \<Rightarrow> Inr (j, ts) | Open ex fs' \<Rightarrow> runTok strict ex fs' ts)"

lemma resume_simps:
  "resume strict (FArr js # fs) j ts = runTok strict EArrComma (FArr (j # js) # fs) ts"
  "resume strict (FObj ms k # fs) j ts = runTok strict EObjComma (FObj ((k, j) # ms) [] # fs) ts"
  "resume strict [] j ts = Inr (j, ts)"
  by (simp_all add: resume_def)

lemma run_elements:
  assumes "\<And>j ex ts acc. j \<in> set js \<Longrightarrow> ex = EValue \<or> ex = EArrStart \<Longrightarrow>
     runTok strict ex (FArr acc # fs) (toks j @ ts) = resume strict (FArr acc # fs) j ts"
  shows "runTok strict EArrComma (FArr acc # fs)
       (concat (map (\<lambda>i. TDelim (CHR '','') # toks i) js) @ TDelim (CHR '']'') # ts) =
     resume strict fs (JArr (rev acc @ js)) ts"
  using assms
proof (induction js arbitrary: acc)
  case Nil
  then show ?case by (simp add: stepTok_def delimToken_def resume_def)
next
  case (Cons j js)
  then have "runTok strict EArrComma (FArr (j # acc) # fs)
       (concat (map (\<lambda>i. TDelim (CHR '','') # toks i) js) @ TDelim (CHR '']'') # ts) =
     resume strict fs (JArr (rev (j # acc) @ js)) ts" by simp
  with Cons.prems [of j EValue] show ?case by (simp add: stepTok_def delimToken_def resume_simps)
qed

lemma run_members:
  assumes "\<And>k j ts acc. (k, j) \<in> set ms \<Longrightarrow>
     runTok strict EValue (FObj acc k # fs) (toks j @ ts) = resume strict (FObj acc k # fs) j ts"
    and "strict \<Longrightarrow> distinct (map fst (rev acc @ ms))"
  shows "runTok strict EObjComma (FObj acc [] # fs)
       (concat (map (\<lambda>(k, i). TDelim (CHR '','') # TVal (JStr k) # TDelim (CHR '':'') # toks i) ms) @ TDelim (CHR ''}'') # ts) =
     resume strict fs (JObj (rev acc @ ms)) ts"
  using assms
proof (induction ms arbitrary: acc)
  case Nil
  then show ?case by (simp add: stepTok_def delimToken_def resume_def)
next
  case (Cons m ms)
  obtain k j where m: "m = (k, j)" by fastforce
  have "runTok strict EObjComma (FObj ((k, j) # acc) [] # fs)
       (concat (map (\<lambda>(k, i). TDelim (CHR '','') # TVal (JStr k) # TDelim (CHR '':'') # toks i) ms) @ TDelim (CHR ''}'') # ts) =
     resume strict fs (JObj (rev ((k, j) # acc) @ ms)) ts"
    using Cons.prems m by (intro Cons.IH) auto
  moreover have "\<not> (strict \<and> k \<in> fst ` set acc)" using Cons.prems(2) m by (auto simp: rev_map [symmetric])
  ultimately show ?case
    using Cons.prems(1) [of k j acc] by (auto simp: m stepTok_def delimToken_def keyToken_def resume_simps)
qed

lemma foldr_max_ge: "x \<in> set xs \<Longrightarrow> x \<le> foldr max xs (0 :: nat)"
  by (induction xs) auto

lemma run_toks:
  "ex = EValue \<or> ex = EArrStart \<Longrightarrow> (strict \<Longrightarrow> noDup j) \<Longrightarrow> (\<not> strict \<Longrightarrow> length fs + depthJ j \<le> 10000) \<Longrightarrow>
     runTok strict ex fs (toks j @ ts) = resume strict fs j ts"
proof (induction j arbitrary: ex fs ts)
  case (JArr js)
  have IH: "runTok strict ex (FArr acc # fs) (toks j @ ts) = resume strict (FArr acc # fs) j ts"
    if "j \<in> set js" "ex = EValue \<or> ex = EArrStart" for j ex ts acc
  proof (rule JArr.IH [OF that])
    show "noDup j" if strict using JArr.prems(2) [OF that] \<open>j \<in> set js\<close> by (auto simp: list_all_iff)
    show "length (FArr acc # fs) + depthJ j \<le> 10000" if "\<not> strict"
      using JArr.prems(3) [OF that] foldr_max_ge [of "depthJ j" "map depthJ js"] \<open>j \<in> set js\<close> by simp
  qed
  have op: "\<not> (\<not> strict \<and> 10000 \<le> length fs)" using JArr.prems(3) by auto
  show ?case
  proof (cases js)
    case Nil
    then show ?thesis using JArr.prems(1) op by (auto simp: stepTok_def delimToken_def openToken_def resume_def)
  next
    case (Cons j rest)
    have "runTok strict EArrComma (FArr [j] # fs)
       (concat (map (\<lambda>i. TDelim (CHR '','') # toks i) rest) @ TDelim (CHR '']'') # ts) =
       resume strict fs (JArr (rev [j] @ rest)) ts"
      using IH Cons by (intro run_elements) auto
    with IH [of j EArrStart] Cons JArr.prems(1) op show ?thesis
      by (auto simp: stepTok_def delimToken_def openToken_def resume_simps)
  qed
next
  case (JObj ms)
  have IH: "runTok strict EValue (FObj acc k # fs) (toks j @ ts) = resume strict (FObj acc k # fs) j ts"
    if "(k, j) \<in> set ms" for k j ts acc
  proof (rule JObj.IH [OF that])
    show "noDup j" if strict using JObj.prems(2) [OF that] \<open>(k, j) \<in> set ms\<close> by (auto simp: list_all_iff)
    show "length (FObj acc k # fs) + depthJ j \<le> 10000" if "\<not> strict"
      using JObj.prems(3) [OF that] foldr_max_ge [of "depthJ j" "map (\<lambda>(k, j). depthJ j) ms"] \<open>(k, j) \<in> set ms\<close>
      by force
  qed simp_all
  have op: "\<not> (\<not> strict \<and> 10000 \<le> length fs)" using JObj.prems(3) by auto
  show ?case
  proof (cases ms)
    case Nil
    then show ?thesis using JObj.prems(1) op by (auto simp: stepTok_def delimToken_def openToken_def resume_def)
  next
    case (Cons m rest)
    obtain k j where m: "m = (k, j)" by fastforce
    have "runTok strict EObjComma (FObj [(k, j)] [] # fs)
       (concat (map (\<lambda>(k, i). TDelim (CHR '','') # TVal (JStr k) # TDelim (CHR '':'') # toks i) rest) @ TDelim (CHR ''}'') # ts) =
       resume strict fs (JObj (rev [(k, j)] @ rest)) ts"
      using IH Cons m JObj.prems(2) by (intro run_members) auto
    with IH [of k j "[]"] Cons m JObj.prems(1) op show ?thesis
      by (auto simp: stepTok_def delimToken_def openToken_def keyToken_def resume_simps)
  qed
qed (auto simp: stepTok_def valueToken_def resume_def)

section \<open>Decoding and duplicate keys\<close>

text \<open>One \<open>Decode\<close>: the value and the tokens behind it.\<close>

definition decodeNext :: "bytes \<Rightarrow> (Json \<times> token list) result" where
  "decodeNext raw = runTok False EValue [] (lexJson (bytes_str raw))"

text \<open>A printed value, possibly followed by white space.\<close>

definition prints :: "bytes \<Rightarrow> Json \<Rightarrow> bool" where
  "prints raw j \<longleftrightarrow> lexJson (bytes_str raw) = toks j"

lemma prints_compact: "wfText j \<Longrightarrow> prints (printCompact j) j"
  using lex_render [of "\<lambda>l. []" "[]" j "[]" 0]
  by (simp add: prints_def printCompact_def wordEnd_def lexJson.simps)

lemma prints_indent:
  assumes "wfText j" and "list_all isSpace sp"
  shows "prints (printIndent j @ str_bytes sp) j"
proof -
  have "lexJson sp = []" using lex_spaces [OF assms(2), of "[]"] by (simp add: lexJson.simps)
  moreover have "wordEnd sp" using wordEnd_spaces [OF assms(2), of "[]"] by (simp add: wordEnd_def)
  ultimately show ?thesis
    using lex_render [of "\<lambda>l. CHR 10 # replicate (2 * l) (CHR '' '')" "'' ''" j sp 0] assms(1)
    by (simp add: prints_def printIndent_def list_all_iff isSpace_def flip: str_bytes_append)
qed

lemma decode_printed: "prints raw j \<Longrightarrow> depthJ j \<le> 10000 \<Longrightarrow> decodeNext raw = Inr (j, [])"
  using run_toks [of EValue False j "[]" "[]"] by (simp add: prints_def decodeNext_def resume_simps)

lemma reject_printed: "prints raw j \<Longrightarrow> noDup j \<Longrightarrow> rejectDuplicateJSON raw = Inr ()"
  using run_toks [of EValue True j "[]" "[]"] by (simp add: prints_def rejectDuplicateJSON_def resume_simps)

text \<open>The invariant of the strict machine: no key twice, and a pending key is new.\<close>

fun frameOk :: "bool \<Rightarrow> frame \<Rightarrow> bool" where
  "frameOk pending (FArr js) \<longleftrightarrow> list_all noDup js"
| "frameOk pending (FObj ms k) \<longleftrightarrow> distinct (map fst ms) \<and> list_all (\<lambda>(k, j). noDup j) ms \<and>
     (pending \<longrightarrow> k \<notin> set (map fst ms))"

fun framesOk :: "expect \<Rightarrow> frame list \<Rightarrow> bool" where
  "framesOk ex [] \<longleftrightarrow> True"
| "framesOk ex (f # fs) \<longleftrightarrow> frameOk (ex = EObjColon \<or> ex = EValue \<or> ex = EArrStart \<or> ex = EArrComma) f \<and>
     list_all (frameOk True) fs"

fun progressOk :: "progress \<Rightarrow> bool" where
  "progressOk (Done j) \<longleftrightarrow> noDup j"
| "progressOk (Open ex fs) \<longleftrightarrow> framesOk ex fs"

lemma complete_ok: "list_all (frameOk True) fs \<Longrightarrow> noDup j \<Longrightarrow> progressOk (complete fs j)"
  by (cases "(fs, j)" rule: complete.cases) auto

lemma framesOk_pending:
  "ex = EObjColon \<or> ex = EValue \<or> ex = EArrStart \<or> ex = EArrComma \<Longrightarrow> framesOk ex fs \<longleftrightarrow> list_all (frameOk True) fs"
  by (cases fs) auto

lemma framesOk_obj: "framesOk EObjComma fs \<Longrightarrow> framesOk EObjKey fs"
  by (cases fs) auto

lemma close_array_ok: "framesOk ex (FArr js # fs) \<Longrightarrow> progressOk (complete fs (JArr (rev js)))"
  by (rule complete_ok) simp_all

lemma close_object_ok: "framesOk ex (FObj ms k # fs) \<Longrightarrow> progressOk (complete fs (JObj (rev ms)))"
  by (rule complete_ok) (simp_all add: rev_map [symmetric])

lemma delim_ok:
  assumes ok: "framesOk ex fs" and step: "delimToken strict ex fs c = Inr p"
  shows "progressOk p"
proof -
  consider (opens) ex' f where "ex = EValue \<or> ex = EArrStart" "p = Open ex' (f # fs)" "f = FArr [] \<or> f = FObj [] [] \<and> ex' = EObjStart"
    | (array) js r where "fs = FArr js # r" "p = complete r (JArr (rev js))"
    | (object) ms k r where "fs = FObj ms k # r" "p = complete r (JObj (rev ms))"
    | (go) "ex = EObjColon \<or> ex = EArrComma" "p = Open EValue fs"
    | (key) "ex = EObjComma" "p = Open EObjKey fs"
    using step unfolding delimToken_def openToken_def
    by (simp only: split: if_split_asm list.split_asm frame.split_asm) auto
  then show ?thesis
  proof cases
    case opens
    then have "list_all (frameOk True) fs" using ok framesOk_pending by blast
    with opens show ?thesis by auto
  next
    case array
    with ok close_array_ok show ?thesis by blast
  next
    case object
    with ok close_object_ok show ?thesis by blast
  next
    case go
    then have "list_all (frameOk True) fs" using ok framesOk_pending by blast
    with go framesOk_pending show ?thesis by simp
  next
    case key
    with ok framesOk_obj show ?thesis by simp
  qed
qed

lemma step_ok:
  assumes "framesOk ex fs" and "stepTok True ex fs t = Inr p" and "\<forall>v. t = TVal v \<longrightarrow> (\<exists>w. v = JNum w) \<or> noDup v"
  shows "progressOk p"
proof (cases t)
  case (TDelim c)
  then show ?thesis using assms delim_ok by (simp add: stepTok_def)
next
  case (TVal v)
  show ?thesis
  proof (cases "ex = EValue \<or> ex = EArrStart")
    case True
    then have "list_all (frameOk True) fs" using assms(1) framesOk_pending by blast
    moreover have "noDup v" "p = complete fs v"
      using assms(2,3) True TVal by (auto simp: stepTok_def valueToken_def split: Json.splits if_splits)
    ultimately show ?thesis by (simp add: complete_ok)
  next
    case False
    then show ?thesis
      using assms(1,2) TVal by (auto simp: stepTok_def keyToken_def split: Json.splits list.splits frame.splits if_splits)
  qed
qed (use assms(2) in \<open>simp add: stepTok_def\<close>)

lemma lex_values: "TVal v \<in> set (lexJson s) \<Longrightarrow> (\<exists>w. v = JNum w) \<or> noDup v"
proof (induction s rule: lexJson.induct)
  case (2 c s)
  have "(\<exists>w. j = JNum w) \<or> noDup j" if "primitive w = Some j" for w j
    using that by (auto simp: primitive_def split: if_splits)
  note prim = this
  consider "isSpace c" | "\<not> isSpace c" "isDelim c" | "\<not> isSpace c" "\<not> isDelim c" "c = CHR 34"
    | "\<not> isSpace c" "\<not> isDelim c" "c \<noteq> CHR 34" by blast
  then show ?case
  proof cases
    case 3
    then show ?thesis using "2.prems" "2.IH"(3) [OF 3]
      by (cases "lexStr [] s") (auto simp: lexJson.simps(2))
  next
    case 4
    then show ?thesis using "2.prems" "2.IH"(4) [OF 4] prim
      by (cases "primitive (takeWhile isWord (c # s))") (auto simp: lexJson.simps(2) [of c s] simp del: takeWhile.simps dropWhile.simps)
  qed (use "2.prems" "2.IH"(1,2) in \<open>simp_all add: lexJson.simps(2) [of c s]\<close>)
qed (simp add: lexJson.simps)

lemma run_noDup:
  "framesOk ex fs \<Longrightarrow> \<forall>v. TVal v \<in> set ts \<longrightarrow> (\<exists>w. v = JNum w) \<or> noDup v \<Longrightarrow>
     runTok True ex fs ts = Inr (j, r) \<Longrightarrow> noDup j"
proof (induction ts arbitrary: ex fs)
  case (Cons t ts)
  from Cons.prems(3) obtain p where p: "stepTok True ex fs t = Inr p" by auto
  have ok: "progressOk p" using Cons.prems by (intro step_ok [OF Cons.prems(1) p]) auto
  show ?case
  proof (cases p)
    case (Done j')
    then show ?thesis using Cons.prems(3) p ok by simp
  next
    case (Open ex' fs')
    then have "runTok True ex' fs' ts = Inr (j, r)" "framesOk ex' fs'" using Cons.prems(3) p ok by simp_all
    with Cons.IH [of ex' fs'] Cons.prems(2) show ?thesis by simp
  qed
qed simp

lemma step_weaken: "stepTok True ex fs t = Inr p \<Longrightarrow> stepTok False ex fs t = Inr p \<or> stepTok False ex fs t = Inl jsonErr"
  by (auto simp: stepTok_def delimToken_def openToken_def keyToken_def valueToken_def
      split: token.splits if_splits Json.splits list.splits frame.splits)

lemma run_weaken: "runTok True ex fs ts = Inr (j, r) \<Longrightarrow> runTok False ex fs ts = Inr (j, r) \<or> runTok False ex fs ts = Inl jsonErr"
proof (induction ts arbitrary: ex fs)
  case (Cons t ts)
  from Cons.prems obtain p where p: "stepTok True ex fs t = Inr p" by auto
  from step_weaken [OF p] show ?case
  proof
    assume "stepTok False ex fs t = Inr p"
    then show ?thesis using Cons p by (cases p) auto
  qed simp
qed simp

lemma rejectDuplicateJSON_sound:
  assumes "rejectDuplicateJSON raw = Inr ()" and "decodeNext raw = Inr (j, rest)"
  shows "noDup j \<and> rest = []"
proof -
  from assms(1) obtain i where i: "runTok True EValue [] (lexJson (bytes_str raw)) = Inr (i, [])"
    by (auto simp: rejectDuplicateJSON_def)
  have "noDup i" using run_noDup [OF _ _ i] lex_values by simp
  with run_weaken [OF i] assms(2) show ?thesis by (auto simp: decodeNext_def)
qed

end
