(* ===== verification/GoStruct.thy ===== *)
theory GoStruct
  imports Json "HOL-Library.List_Lexorder" "HOL-Library.Char_ord"
begin

text \<open>
  Decoding JSON into Go values and back, driven by a description of the Go type: \<open>Schema\<close> is
  the type with its field tags and \<open>GoVal\<close> a value of it.  \<open>decodeV\<close> is what \<open>Decode\<close> with
  \<open>DisallowUnknownFields\<close> stores into an existing value, \<open>encodeV\<close> what \<open>Marshal\<close> emits.
  \<open>strictJSON\<close> of \<open>src/nativeproof/setup.go\<close> is built on them.
\<close>

section \<open>Types and values\<close>

text \<open>
  Integers carry their range; a field carries its name and its \<open>omitempty\<close> flag.  A map is a
  list sorted by key, a nil slice or map is \<open>None\<close>.
\<close>

datatype Schema =
    SString
  | SInt int int
  | SBool
  | SStruct "(string \<times> bool \<times> Schema) list"
  | SSlice Schema
  | SMap Schema

datatype GoVal =
    VString string
  | VInt int
  | VBool bool
  | VStruct "GoVal list"
  | VSlice "GoVal list option"
  | VMap "(string \<times> GoVal) list option"

abbreviation SInt64 :: Schema where "SInt64 \<equiv> SInt (- 9223372036854775808) 9223372036854775807"
abbreviation SUint32 :: Schema where "SUint32 \<equiv> SInt 0 4294967295"
abbreviation SUint64 :: Schema where "SUint64 \<equiv> SInt 0 18446744073709551615"

fun zeroV :: "Schema \<Rightarrow> GoVal" where
  "zeroV SString = VString []"
| "zeroV (SInt lo hi) = VInt 0"
| "zeroV SBool = VBool False"
| "zeroV (SStruct fs) = VStruct (map (\<lambda>(n, om, s). zeroV s) fs)"
| "zeroV (SSlice s) = VSlice None"
| "zeroV (SMap s) = VMap None"

text \<open>Assignment to a map kept sorted.\<close>

fun mapPut :: "string \<Rightarrow> 'a \<Rightarrow> (string \<times> 'a) list \<Rightarrow> (string \<times> 'a) list" where
  "mapPut k v [] = [(k, v)]"
| "mapPut k v ((k', v') # m) =
     (if k < k' then (k, v) # (k', v') # m else if k = k' then (k, v) # m else (k', v') # mapPut k v m)"

section \<open>Decoding\<close>

text \<open>
  A key selects the field of that name, or else the first one equal under case folding.  The
  fold of an ASCII letter is the upper case one; the long s and the Kelvin sign fold to S and K.
\<close>

definition upperC :: "char \<Rightarrow> char" where
  "upperC c = (if 97 \<le> code c \<and> code c \<le> 122 then char_of (code c - 32) else c)"

fun foldName :: "string \<Rightarrow> string" where
  "foldName [] = []"
| "foldName (c # s) =
     (if code c = 0xC5 \<and> (case s of d # _ \<Rightarrow> code d = 0xBF | [] \<Rightarrow> False) then CHR ''S'' # foldName (drop 1 s)
      else if code c = 0xE2 \<and> (case s of d # e # _ \<Rightarrow> code d = 0x84 \<and> code e = 0xAA | _ \<Rightarrow> False)
      then CHR ''K'' # foldName (drop 2 s)
      else upperC c # foldName s)"

fun findIndex :: "('a \<Rightarrow> bool) \<Rightarrow> 'a list \<Rightarrow> nat option" where
  "findIndex P [] = None"
| "findIndex P (x # xs) = (if P x then Some 0 else map_option Suc (findIndex P xs))"

definition findField :: "(string \<times> bool \<times> Schema) list \<Rightarrow> string \<Rightarrow> nat option" where
  "findField fs k =
     (case findIndex (\<lambda>(n, _). n = k) fs of
        Some i \<Rightarrow> Some i
      | None \<Rightarrow> findIndex (\<lambda>(n, _). foldName n = foldName k) fs)"

text \<open>\<open>strconv.ParseInt\<close> and, for unsigned types, \<open>ParseUint\<close>, with the range of the type.\<close>

definition parseIntLit :: "int \<Rightarrow> int \<Rightarrow> string \<Rightarrow> int option" where
  "parseIntLit lo hi w =
     (let neg = (w \<noteq> [] \<and> hd w = CHR ''-''); ds = (if neg then tl w else w);
          v = (if neg then - int (dec_val ds) else int (dec_val ds))
      in if ds = [] \<or> \<not> list_all isDigit ds \<or> (neg \<and> 0 \<le> lo) \<or> v < lo \<or> hi < v then None else Some v)"

definition oldElems :: "GoVal \<Rightarrow> GoVal list" where
  "oldElems v = (case v of VSlice (Some xs) \<Rightarrow> xs | _ \<Rightarrow> [])"

definition oldEntries :: "GoVal \<Rightarrow> (string \<times> GoVal) list" where
  "oldEntries v = (case v of VMap (Some m) \<Rightarrow> m | _ \<Rightarrow> [])"

definition oldFields :: "GoVal \<Rightarrow> GoVal list" where
  "oldFields v = (case v of VStruct vs \<Rightarrow> vs | _ \<Rightarrow> [])"

fun decodeV :: "Schema \<Rightarrow> GoVal \<Rightarrow> Json \<Rightarrow> GoVal option"
  and decodeElems :: "Schema \<Rightarrow> GoVal list \<Rightarrow> Json list \<Rightarrow> GoVal list option"
  and decodeFields :: "(string \<times> bool \<times> Schema) list \<Rightarrow> GoVal list \<Rightarrow> (string \<times> Json) list \<Rightarrow> GoVal list option"
  and decodeEntries :: "Schema \<Rightarrow> (string \<times> GoVal) list \<Rightarrow> (string \<times> Json) list \<Rightarrow> (string \<times> GoVal) list option"
where
  "decodeV s v JNull = (case s of SSlice _ \<Rightarrow> Some (VSlice None) | SMap _ \<Rightarrow> Some (VMap None) | _ \<Rightarrow> Some v)"
| "decodeV s v (JBool b) = (case s of SBool \<Rightarrow> Some (VBool b) | _ \<Rightarrow> None)"
| "decodeV s v (JNum w) = (case s of SInt lo hi \<Rightarrow> map_option VInt (parseIntLit lo hi w) | _ \<Rightarrow> None)"
| "decodeV s v (JStr x) = (case s of SString \<Rightarrow> Some (VString x) | _ \<Rightarrow> None)"
| "decodeV s v (JArr js) =
     (case s of SSlice e \<Rightarrow> map_option (\<lambda>xs. VSlice (Some xs)) (decodeElems e (oldElems v) js) | _ \<Rightarrow> None)"
| "decodeV s v (JObj ms) =
     (case s of
        SStruct fs \<Rightarrow> map_option VStruct (decodeFields fs (oldFields v) ms)
      | SMap e \<Rightarrow> map_option (\<lambda>m. VMap (Some m)) (decodeEntries e (oldEntries v) ms)
      | _ \<Rightarrow> None)"
| "decodeElems e olds [] = Some []"
| "decodeElems e olds (j # js) =
     (case decodeV e (case olds of [] \<Rightarrow> zeroV e | x # _ \<Rightarrow> x) j of
        None \<Rightarrow> None
      | Some x \<Rightarrow> map_option ((#) x) (decodeElems e (tl olds) js))"
| "decodeFields fs vs [] = Some vs"
| "decodeFields fs vs ((k, j) # ms) =
     (case findField fs k of
        None \<Rightarrow> None
      | Some i \<Rightarrow> (case decodeV (snd (snd (fs ! i))) (vs ! i) j of
          None \<Rightarrow> None
        | Some x \<Rightarrow> decodeFields fs (vs[i := x]) ms))"
| "decodeEntries e m [] = Some m"
| "decodeEntries e m ((k, j) # ms) =
     (case decodeV e (zeroV e) j of
        None \<Rightarrow> None
      | Some x \<Rightarrow> decodeEntries e (mapPut k x m) ms)"

text \<open>\<open>Decode\<close> of the single value of a text, and the check that nothing follows it.\<close>

definition decodeInto :: "Schema \<Rightarrow> string \<Rightarrow> bytes \<Rightarrow> GoVal result" where
  "decodeInto schema trailing raw =
     andThen (decodeNext raw) (\<lambda>(j, rest).
       case decodeV schema (zeroV schema) j of
         None \<Rightarrow> Inl jsonErr
       | Some v \<Rightarrow> if rest \<noteq> [] then Inl trailing else Inr v)"

definition strictJSON :: "Schema \<Rightarrow> bytes \<Rightarrow> GoVal result" where
  "strictJSON schema raw =
     (if \<not> validUtf8 (bytes_str raw) then Inl ''invalid UTF-8 JSON''
      else andThen (rejectDuplicateJSON raw) (\<lambda>_. decodeInto schema ''trailing JSON'' raw))"

section \<open>Encoding\<close>

definition isEmptyV :: "GoVal \<Rightarrow> bool" where
  "isEmptyV v \<longleftrightarrow> v = VString [] \<or> v = VInt 0 \<or> v = VBool False \<or> v = VSlice None \<or> v = VSlice (Some []) \<or>
     v = VMap None \<or> v = VMap (Some [])"

fun encodeV :: "Schema \<Rightarrow> GoVal \<Rightarrow> Json"
  and encodeFields :: "(string \<times> bool \<times> Schema) list \<Rightarrow> GoVal list \<Rightarrow> (string \<times> Json) list"
  and encodeElems :: "Schema \<Rightarrow> GoVal list \<Rightarrow> Json list"
  and encodeEntries :: "Schema \<Rightarrow> (string \<times> GoVal) list \<Rightarrow> (string \<times> Json) list"
where
  "encodeV s (VString x) = JStr x"
| "encodeV s (VInt i) = JNum (dec_int i)"
| "encodeV s (VBool b) = JBool b"
| "encodeV s (VStruct vs) = (case s of SStruct fs \<Rightarrow> JObj (encodeFields fs vs) | _ \<Rightarrow> JNull)"
| "encodeV s (VSlice None) = JNull"
| "encodeV s (VSlice (Some xs)) = (case s of SSlice e \<Rightarrow> JArr (encodeElems e xs) | _ \<Rightarrow> JNull)"
| "encodeV s (VMap None) = JNull"
| "encodeV s (VMap (Some m)) = (case s of SMap e \<Rightarrow> JObj (encodeEntries e m) | _ \<Rightarrow> JNull)"
| "encodeFields fs [] = []"
| "encodeFields fs (v # vs) =
     (case fs of [] \<Rightarrow> []
      | (n, om, s) # rest \<Rightarrow> (if om \<and> isEmptyV v then [] else [(n, encodeV s v)]) @ encodeFields rest vs)"
| "encodeElems e [] = []"
| "encodeElems e (x # xs) = encodeV e x # encodeElems e xs"
| "encodeEntries e [] = []"
| "encodeEntries e ((k, x) # m) = (k, encodeV e x) # encodeEntries e m"

definition Marshal :: "Schema \<Rightarrow> GoVal \<Rightarrow> bytes" where
  "Marshal s v = printCompact (encodeV s v)"

definition MarshalIndent :: "Schema \<Rightarrow> GoVal \<Rightarrow> bytes" where
  "MarshalIndent s v = printIndent (encodeV s v)"

section \<open>Well-typed values\<close>

fun sortedKeys :: "(string \<times> 'a) list \<Rightarrow> bool" where
  "sortedKeys [] \<longleftrightarrow> True"
| "sortedKeys ((k, v) # m) \<longleftrightarrow> list_all (\<lambda>(k', _). k < k') m \<and> sortedKeys m"

fun wtV :: "Schema \<Rightarrow> GoVal \<Rightarrow> bool"
  and wtFields :: "(string \<times> bool \<times> Schema) list \<Rightarrow> GoVal list \<Rightarrow> bool"
where
  "wtV s (VString x) \<longleftrightarrow> s = SString \<and> validUtf8 x"
| "wtV s (VInt i) \<longleftrightarrow> (case s of SInt lo hi \<Rightarrow> lo \<le> i \<and> i \<le> hi | _ \<Rightarrow> False)"
| "wtV s (VBool b) \<longleftrightarrow> s = SBool"
| "wtV s (VStruct vs) \<longleftrightarrow> (case s of SStruct fs \<Rightarrow> wtFields fs vs | _ \<Rightarrow> False)"
| "wtV s (VSlice None) \<longleftrightarrow> (\<exists>e. s = SSlice e)"
| "wtV s (VSlice (Some xs)) \<longleftrightarrow> (case s of SSlice e \<Rightarrow> (\<forall>x \<in> set xs. wtV e x) | _ \<Rightarrow> False)"
| "wtV s (VMap None) \<longleftrightarrow> (\<exists>e. s = SMap e)"
| "wtV s (VMap (Some m)) \<longleftrightarrow>
     (case s of SMap e \<Rightarrow> sortedKeys m \<and> (\<forall>(k, x) \<in> set m. validUtf8 k \<and> wtV e x) | _ \<Rightarrow> False)"
| "wtFields fs [] \<longleftrightarrow> fs = []"
| "wtFields fs (v # vs) \<longleftrightarrow> (case fs of [] \<Rightarrow> False | (n, om, s) # rest \<Rightarrow> wtV s v \<and> wtFields rest vs)"

text \<open>
  Types of the program: field names are distinct ASCII names, \<open>omitempty\<close> is on scalars only,
  integers have at most 64 bits.
\<close>

definition scalarS :: "Schema \<Rightarrow> bool" where
  "scalarS s \<longleftrightarrow> (case s of SString \<Rightarrow> True | SInt _ _ \<Rightarrow> True | SBool \<Rightarrow> True | _ \<Rightarrow> False)"

fun okSchema :: "Schema \<Rightarrow> bool" where
  "okSchema SString \<longleftrightarrow> True"
| "okSchema (SInt lo hi) \<longleftrightarrow> - 9223372036854775808 \<le> lo \<and> lo \<le> 0 \<and> 0 \<le> hi \<and> hi \<le> 18446744073709551615"
| "okSchema SBool \<longleftrightarrow> True"
| "okSchema (SStruct fs) \<longleftrightarrow> distinct (map fst fs) \<and>
     list_all (\<lambda>(n, om, s). list_all (\<lambda>c. code c < 128) n \<and> okSchema s \<and> (om \<longrightarrow> scalarS s)) fs"
| "okSchema (SSlice s) \<longleftrightarrow> okSchema s"
| "okSchema (SMap s) \<longleftrightarrow> okSchema s"

fun depthS :: "Schema \<Rightarrow> nat" where
  "depthS (SStruct fs) = Suc (foldr max (map (\<lambda>(n, om, s). depthS s) fs) 0)"
| "depthS (SSlice s) = Suc (depthS s)"
| "depthS (SMap s) = Suc (depthS s)"
| "depthS s = 0"

end
