(* ===== verification/StructCodec.thy ===== *)
theory StructCodec
  imports GoStruct
begin

text \<open>
  Encoding and strict decoding of Go values are inverse on well-typed values, and whatever is
  decoded is well-typed.  These are the facts every persisted or exchanged JSON document of the
  program relies on.
\<close>

section \<open>Integers\<close>

lemma dec_nat_isDigit: "list_all isDigit (dec_nat n)"
  using dec_nat_digits by (auto simp: list_all_iff isDigit_def)

lemma dec_nat_leading: "n \<noteq> 0 \<Longrightarrow> hd (dec_nat n) \<noteq> CHR ''0''"
proof (induction n rule: dec_nat.induct)
  case (1 n)
  show ?case
  proof (cases "n < 10")
    case True
    with 1(2) show ?thesis by (subst dec_nat.simps) (auto simp: char_of_eq_iff take_bit_eq_mod)
  next
    case False
    with 1 show ?thesis by (subst dec_nat.simps) simp
  qed
qed

lemma dec_nat_zero: "dec_nat 0 = ''0''"
  by (subst dec_nat.simps) (simp add: char_of_eq_iff)

lemma takeWhile_dec_nat [simp]: "takeWhile isDigit (dec_nat n) = dec_nat n" "dropWhile isDigit (dec_nat n) = []"
  using dec_nat_isDigit [of n] by (simp_all add: list_all_iff takeWhile_eq_all_conv dropWhile_eq_Nil_conv)

lemma dec_nat_isNumber: "isNumber (dec_nat n)" "isNumber (CHR ''-'' # dec_nat n)"
proof -
  obtain c t where ct: "dec_nat n = c # t" by (cases "dec_nat n") auto
  have d: "isDigit c" "list_all isDigit t" using dec_nat_isDigit [of n] by (simp_all add: ct)
  have "dropWhile isDigit t = []" using d(2) by (simp add: list_all_iff dropWhile_eq_Nil_conv)
  moreover have "numFrac []" by (simp add: numFrac_def)
  ultimately have "numFrac (dropWhile isDigit t)" "numFrac []" by (simp_all only:)
  moreover have "c \<noteq> CHR ''-''" using d(1) by (auto simp: isDigit_def)
  moreover have "t = []" if "c = CHR ''0''"
  proof -
    have "n = 0" using dec_nat_leading [of n] that ct by auto
    then show ?thesis using ct by (simp add: dec_nat_zero)
  qed
  ultimately show "isNumber (dec_nat n)" "isNumber (CHR ''-'' # dec_nat n)"
    using d by (auto simp: isNumber_def ct)
qed

lemma dec_int_isNumber: "isNumber (dec_int i)"
  using dec_nat_isNumber by (simp add: dec_int_def)

lemma dec_nat_no_minus: "dec_nat n \<noteq> CHR ''-'' # t"
  using dec_nat_isDigit [of n] by (auto simp: isDigit_def)

lemma parseIntLit_dec_int:
  assumes "lo \<le> i" and "i \<le> hi"
  shows "parseIntLit lo hi (dec_int i) = Some i"
proof (cases "i < 0")
  case True
  then show ?thesis using assms dec_nat_isDigit by (simp add: parseIntLit_def dec_int_def)
next
  case False
  have "\<not> (dec_nat (nat i) \<noteq> [] \<and> hd (dec_nat (nat i)) = CHR ''-'')"
    using dec_nat_no_minus [of "nat i" "tl (dec_nat (nat i))"] by (metis list.collapse)
  then show ?thesis using False assms dec_nat_isDigit by (simp add: parseIntLit_def dec_int_def Let_def)
qed

lemma numParts_dec_nat: "numParts (dec_nat n) = (n, 0)" "numParts (CHR ''-'' # dec_nat n) = (n, 0)"
proof -
  have "(case dec_nat n of c # t \<Rightarrow> if c = CHR ''-'' then t else dec_nat n | [] \<Rightarrow> []) = dec_nat n"
    using dec_nat_no_minus [of n] by (cases "dec_nat n") auto
  then show "numParts (dec_nat n) = (n, 0)" unfolding numParts_def by simp
  show "numParts (CHR ''-'' # dec_nat n) = (n, 0)" unfolding numParts_def by simp
qed

lemma numParts_dec_int: "numParts (dec_int i) = (nat \<bar>i\<bar>, 0)"
  by (simp add: dec_int_def numParts_dec_nat)

lemma floatLimit_ge: "2 ^ 65 < floatLimit"
  by (simp add: floatLimit_def)

lemma floatFits_dec_int:
  assumes "- 9223372036854775808 \<le> i" and "i \<le> 18446744073709551615"
  shows "floatFits (dec_int i)"
proof -
  have "nat \<bar>i\<bar> < 2 ^ 65" using assms by (simp add: abs_if nat_less_iff)
  also note floatLimit_ge
  finally show ?thesis by (simp add: floatFits_def numParts_dec_int)
qed


section \<open>What is encoded is well-formed JSON\<close>

lemma ascii_valid: "list_all (\<lambda>c. code c < 128) s \<Longrightarrow> validUtf8 s"
proof (induction s)
  case Nil
  then show ?case by (subst validUtf8.simps) simp
next
  case (Cons c s)
  then show ?case by (simp add: validUtf8_Cons_ascii)
qed

abbreviation okField :: "string \<times> bool \<times> Schema \<Rightarrow> bool" where
  "okField \<equiv> \<lambda>(n, om, s). list_all (\<lambda>c. code c < 128) n \<and> okSchema s \<and> (om \<longrightarrow> scalarS s)"

text \<open>Induction over fields and values together.\<close>

lemma fields_induct [case_names nil none some]:
  assumes "\<And>fs. P fs []" and "\<And>v vs. P [] (v # vs)"
    and "\<And>n om s fs v vs. P fs vs \<Longrightarrow> P ((n, om, s) # fs) (v # vs)"
  shows "P fs vs"
  using assms
proof (induction vs arbitrary: fs)
  case (Cons v vs)
  then show ?case by (cases fs) auto
qed simp

lemma encodeFields_keys: "set (map fst (encodeFields fs vs)) \<subseteq> set (map fst fs)"
  by (induction fs vs rule: fields_induct) auto

lemma encodeFields_distinct: "distinct (map fst fs) \<Longrightarrow> distinct (map fst (encodeFields fs vs))"
proof (induction fs vs rule: fields_induct)
  case (some n om s fs v vs)
  then show ?case using encodeFields_keys [of fs vs] by auto
qed simp_all

lemma encodeEntries_keys: "map fst (encodeEntries e m) = map fst m"
  by (induction m) auto

lemma sortedKeys_distinct: "sortedKeys m \<Longrightarrow> distinct (map fst m)"
  by (induction m rule: sortedKeys.induct) (auto simp: list_all_iff)

lemma encode_text:
  "okSchema s \<Longrightarrow> wtV s v \<Longrightarrow> wfText (encodeV s v)"
  "list_all okField fs \<Longrightarrow> wtFields fs vs \<Longrightarrow> list_all (\<lambda>(k, j). validUtf8 k \<and> wfText j) (encodeFields fs vs)"
  "okSchema e \<Longrightarrow> \<forall>x \<in> set xs. wtV e x \<Longrightarrow> list_all wfText (encodeElems e xs)"
  "okSchema e \<Longrightarrow> \<forall>(k, x) \<in> set m. validUtf8 k \<and> wtV e x \<Longrightarrow>
     list_all (\<lambda>(k, j). validUtf8 k \<and> wfText j) (encodeEntries e m)"
  by (induction s v and fs vs and e xs and e m rule: encodeV_encodeFields_encodeElems_encodeEntries.induct)
    (auto simp: dec_int_isNumber ascii_valid split: Schema.splits list.splits)

lemma encode_noDup:
  "okSchema s \<Longrightarrow> wtV s v \<Longrightarrow> noDup (encodeV s v)"
  "list_all okField fs \<Longrightarrow> wtFields fs vs \<Longrightarrow> list_all (\<lambda>(k, j). noDup j) (encodeFields fs vs)"
  "okSchema e \<Longrightarrow> \<forall>x \<in> set xs. wtV e x \<Longrightarrow> list_all noDup (encodeElems e xs)"
  "okSchema e \<Longrightarrow> \<forall>(k, x) \<in> set m. validUtf8 k \<and> wtV e x \<Longrightarrow> list_all (\<lambda>(k, j). noDup j) (encodeEntries e m)"
  by (induction s v and fs vs and e xs and e m rule: encodeV_encodeFields_encodeElems_encodeEntries.induct)
    (auto simp: floatFits_dec_int encodeFields_distinct encodeEntries_keys sortedKeys_distinct split: Schema.splits list.splits)

lemma foldr_max_le: "(\<And>x. x \<in> set xs \<Longrightarrow> x \<le> n) \<Longrightarrow> foldr max xs (0 :: nat) \<le> n"
  by (induction xs) auto

lemma encode_depth:
  "wtV s v \<Longrightarrow> depthJ (encodeV s v) \<le> depthS s"
  "wtFields fs vs \<Longrightarrow> (k, j) \<in> set (encodeFields fs vs) \<Longrightarrow> depthJ j \<le> foldr max (map (\<lambda>(n, om, s). depthS s) fs) 0"
  "\<forall>x \<in> set xs. wtV e x \<Longrightarrow> j \<in> set (encodeElems e xs) \<Longrightarrow> depthJ j \<le> depthS e"
  "\<forall>(k, x) \<in> set m. validUtf8 k \<and> wtV e x \<Longrightarrow> (k, j) \<in> set (encodeEntries e m) \<Longrightarrow> depthJ j \<le> depthS e"
proof (induction s v and fs vs and e xs and e m arbitrary: and k j and j and k j
    rule: encodeV_encodeFields_encodeElems_encodeEntries.induct)
  case (4 s vs)
  then show ?case by (auto split: Schema.splits intro!: foldr_max_le)
next
  case (6 s xs)
  then show ?case by (auto split: Schema.splits intro!: foldr_max_le)
next
  case (8 s m)
  then show ?case by (auto split: Schema.splits intro!: foldr_max_le)
next
  case (10 fs v vs)
  then show ?case
    by (auto split: list.splits if_splits prod.splits simp: le_max_iff_disj)
qed auto

section \<open>Decoding what was encoded\<close>

lemma empty_scalar: "scalarS s \<Longrightarrow> wtV s v \<Longrightarrow> isEmptyV v \<Longrightarrow> v = zeroV s"
  by (cases s) (auto simp: scalarS_def isEmptyV_def)

lemma findIndex_append:
  "\<not> P x \<Longrightarrow> findIndex P (x # xs) = map_option Suc (findIndex P xs)" by simp

lemma findField_nth:
  assumes "n \<notin> set (map fst pre)"
  shows "findField (pre @ (n, om, s) # fs) n = Some (length pre)"
proof -
  have "findIndex (\<lambda>(m, _). m = n) (pre @ (n, om, s) # fs) = Some (length pre)"
    using assms by (induction pre) auto
  then show ?thesis by (simp add: findField_def)
qed

lemma mapPut_last: "list_all (\<lambda>(k', _). k' < k) m \<Longrightarrow> mapPut k x m = m @ [(k, x)]"
  by (induction m) auto

lemma sortedKeys_append:
  "sortedKeys (m @ m') \<longleftrightarrow> sortedKeys m \<and> sortedKeys m' \<and> (\<forall>(k, _) \<in> set m. \<forall>(k', _) \<in> set m'. k < k')"
  by (induction m rule: sortedKeys.induct) (auto simp: list_all_iff)

lemma decode_encode:
  "okSchema s \<Longrightarrow> wtV s v \<Longrightarrow> decodeV s (zeroV s) (encodeV s v) = Some v"
  "list_all okField fs \<Longrightarrow> distinct (map fst (pre @ fs)) \<Longrightarrow> length pre = length vpre \<Longrightarrow> wtFields fs vs \<Longrightarrow>
     decodeFields (pre @ fs) (vpre @ map (\<lambda>(n, om, s). zeroV s) fs) (encodeFields fs vs) = Some (vpre @ vs)"
  "okSchema e \<Longrightarrow> \<forall>x \<in> set xs. wtV e x \<Longrightarrow> decodeElems e [] (encodeElems e xs) = Some xs"
  "okSchema e \<Longrightarrow> \<forall>(k, x) \<in> set m. validUtf8 k \<and> wtV e x \<Longrightarrow> sortedKeys (m0 @ m) \<Longrightarrow>
     decodeEntries e m0 (encodeEntries e m) = Some (m0 @ m)"
proof (induction s v and fs vs and e xs and e m arbitrary: and pre vpre and and m0
    rule: encodeV_encodeFields_encodeElems_encodeEntries.induct)
  case (4 s vs)
  then obtain fs where s: "s = SStruct fs" by (auto split: Schema.splits)
  with 4 show ?case using "4.IH" [OF s, of "[]" "[]"] by (simp add: oldFields_def)
next
  case (6 s xs)
  then show ?case by (auto simp: oldElems_def split: Schema.splits)
next
  case (8 s m)
  then obtain e where s: "s = SMap e" by (auto split: Schema.splits)
  with 8 show ?case using "8.IH" [OF s, of "[]"] by (simp add: oldEntries_def)
next
  case (10 fs v vs)
  then obtain n om s rest where fs: "fs = (n, om, s) # rest" by (auto split: list.splits)
  have nv: "n \<notin> set (map fst pre)" "okSchema s" "wtV s v" using "10.prems" by (auto simp: fs)
  have IH: "decodeFields ((pre @ [(n, om, s)]) @ rest) ((vpre @ [v]) @ map (\<lambda>(n, om, s). zeroV s) rest) (encodeFields rest vs) =
      Some ((vpre @ [v]) @ vs)"
    using "10.prems" by (intro "10.IH"(2) [OF fs refl refl]) (auto simp: fs)
  have dv: "decodeV s (zeroV s) (encodeV s v) = Some v" if "\<not> (om \<and> isEmptyV v)"
    using "10.IH"(1) [OF fs refl refl that nv(2,3)] .
  show ?case
  proof (cases "om \<and> isEmptyV v")
    case True
    then have "v = zeroV s" using "10.prems"(1) nv by (intro empty_scalar) (auto simp: fs)
    then show ?thesis using IH True by (simp add: fs)
  next
    case False
    have "length pre = length vpre" using "10.prems"(3) .
    then show ?thesis using IH dv [OF False] findField_nth [OF nv(1), of om s rest] False
      by (auto simp: fs nth_append)
  qed
next
  case (14 e k x m)
  then have "list_all (\<lambda>(k', _). k' < k) m0" by (auto simp: sortedKeys_append list_all_iff)
  then show ?case using 14 by (simp add: mapPut_last)
qed (auto simp: parseIntLit_dec_int split: Schema.splits)

section \<open>The printed text is UTF-8\<close>

lemma runeLen_cases:
  assumes "runeLen s \<noteq> 0"
  obtains (one) a t where "s = a # t" "code a < 0x80"
  | (two) a b t where "s = a # b # t" "0xC2 \<le> code a" "code a \<le> 0xDF" "contByte b"
  | (three) a b c t where "s = a # b # c # t" "0xE0 \<le> code a" "code a \<le> 0xEF" "secondByte a b" "contByte c"
  | (four) a b c d t where "s = a # b # c # d # t" "0xF0 \<le> code a" "code a \<le> 0xF4" "secondByte a b" "contByte c" "contByte d"
proof (cases s)
  case (Cons a t)
  note h = assms [unfolded Cons runeLen_def list.case]
  consider "code a < 0x80" | "\<not> code a < 0x80" "0xC2 \<le> code a \<and> code a \<le> 0xDF"
    | "\<not> code a < 0x80" "\<not> (0xC2 \<le> code a \<and> code a \<le> 0xDF)" "0xE0 \<le> code a \<and> code a \<le> 0xEF"
    | "\<not> code a < 0x80" "\<not> (0xC2 \<le> code a \<and> code a \<le> 0xDF)" "\<not> (0xE0 \<le> code a \<and> code a \<le> 0xEF)"
    by blast
  then show ?thesis
  proof cases
    case 1
    then show ?thesis using that(1) Cons by blast
  next
    case 2
    then obtain b u where "t = b # u" "contByte b"
      using h by (cases t) (simp_all split: if_splits)
    then show ?thesis using 2 that(2) Cons by blast
  next
    case 3
    then obtain b c u where "t = b # c # u" "secondByte a b" "contByte c"
      using h by (cases t rule: remdups_adj.cases) (simp_all split: if_splits)
    then show ?thesis using 3 that(3) Cons by blast
  next
    case 4
    then have r: "0xF0 \<le> code a \<and> code a \<le> 0xF4" using h by (simp split: if_splits)
    obtain b c d u where "t = b # c # d # u" "secondByte a b" "contByte c" "contByte d"
    proof (cases t rule: remdups_adj.cases)
      case (3 x y u)
      then show ?thesis using h 4 r that by (cases u) (simp_all split: if_splits)
    qed (use h 4 r in simp_all)
    then show ?thesis using r that(4) Cons by blast
  qed
qed (use assms in simp)

lemma runeLen_append: "runeLen u \<noteq> 0 \<Longrightarrow> runeLen (u @ v) = runeLen u"
  by (erule runeLen_cases) (simp_all add: runeLen_def)

lemma runeLen_take: "runeLen u \<noteq> 0 \<Longrightarrow> runeLen (take (runeLen u) u) = runeLen u"
  by (erule runeLen_cases) (simp_all add: runeLen_def)

lemma valid_rune: "runeLen u = length u \<Longrightarrow> validUtf8 u"
  by (subst validUtf8.simps) (simp add: validUtf8.simps [of "[]"])

lemma valid_append: "validUtf8 u \<Longrightarrow> validUtf8 (u @ v) \<longleftrightarrow> validUtf8 v"
proof (induction u rule: validUtf8.induct)
  case (1 u)
  show ?case
  proof (cases "u = []")
    case False
    with "1.prems" have *: "runeLen u \<noteq> 0" "validUtf8 (drop (runeLen u) u)"
      by (auto simp: validUtf8.simps [of u] split: if_splits)
    with False "1.IH" have "validUtf8 (drop (runeLen u) u @ v) \<longleftrightarrow> validUtf8 v" by simp
    then show ?thesis using * False runeLen_append [of u v] runeLen_le [of u]
      by (simp add: validUtf8.simps [of "u @ v"])
  qed simp
qed


lemma valid_Nil [simp]: "validUtf8 []"
  by (simp add: validUtf8.simps)

lemma valid_appendI [intro]: "validUtf8 u \<Longrightarrow> validUtf8 v \<Longrightarrow> validUtf8 (u @ v)"
  by (simp add: valid_append)

lemma valid_concat: "(\<And>u. u \<in> set us \<Longrightarrow> validUtf8 u) \<Longrightarrow> validUtf8 (concat us)"
  by (induction us) (auto simp: validUtf8.simps [of "[]"])

lemma escAscii_valid: "code c < 128 \<Longrightarrow> validUtf8 (escAscii c)"
  by (rule ascii_valid) (auto simp: escAscii_def shortEscape_def hexDigit_def split: if_splits)

lemma escRune_valid: "runeLen u \<noteq> 0 \<Longrightarrow> validUtf8 (escRune (take (runeLen u) u))"
  using valid_rune [of "take (runeLen u) u"] runeLen_take [of u] runeLen_le [of u]
  by (auto simp: escRune_def intro: ascii_valid)

lemma escStr_valid: "validUtf8 (escStr s)"
proof (induction s rule: escStr.induct)
  case 1
  show ?case by (simp add: escStr.simps validUtf8.simps)
next
  case (2 c s)
  have "validUtf8 (CHR 92 # ''ufffd'')" by (rule ascii_valid) simp
  then show ?case using 2 escAscii_valid [of c] escRune_valid [of "c # s"]
    by (subst escStr.simps) (simp add: valid_append validUtf8_Cons_ascii)
qed

lemma quote_valid: "validUtf8 (quote s)"
  using valid_appendI [OF escStr_valid, of "[CHR 34]" s] ascii_valid [of "[CHR 34]"]
  by (simp add: quote_def validUtf8_Cons_ascii)

lemma isWord_ascii: "isWord c \<Longrightarrow> code c < 128"
  by (auto simp: isWord_def isDigit_def)

lemma word_valid: "list_all isWord w \<Longrightarrow> validUtf8 w"
  by (rule ascii_valid) (auto simp: list_all_iff dest: isWord_ascii)

lemma render_valid:
  "\<forall>l. validUtf8 (nl l) \<Longrightarrow> validUtf8 colon \<Longrightarrow> wfText j \<Longrightarrow> validUtf8 (render nl colon l j)"
proof (induction nl colon l j rule: render.induct)
  case (3 nl colon l w)
  then show ?case by (simp add: word_valid isNumber_word)
next
  case (6 nl colon l j js)
  then show ?case
    by (auto intro!: valid_appendI valid_concat simp: validUtf8_Cons_ascii list_all_iff)
next
  case (8 nl colon l k j ms)
  then have "validUtf8 (render nl colon (Suc l) b)" if "(a, b) \<in> set ms" for a b
    using that by (fastforce simp: list_all_iff)
  with 8 show ?case
    by (auto intro!: valid_appendI valid_concat simp: validUtf8_Cons_ascii quote_valid)
qed (auto intro!: ascii_valid quote_valid)

lemma printed_valid:
  "wfText j \<Longrightarrow> validUtf8 (bytes_str (printCompact j))"
  "wfText j \<Longrightarrow> list_all isSpace sp \<Longrightarrow> validUtf8 (bytes_str (printIndent j @ str_bytes sp))"
proof -
  assume j: "wfText j"
  have c: "validUtf8 [CHR '':'']" "validUtf8 [CHR '':'', CHR '' '']" "validUtf8 []" by (simp_all add: ascii_valid)
  show "validUtf8 (bytes_str (printCompact j))"
    using render_valid [OF _ c(1) j, of "\<lambda>l. []"] c(3) by (simp add: printCompact_def)
  assume "list_all isSpace sp"
  then have "validUtf8 sp" by (intro ascii_valid) (auto simp: list_all_iff isSpace_def)
  moreover have "validUtf8 (CHR 10 # replicate (2 * l) (CHR '' ''))" for l
    by (rule ascii_valid) (simp add: list_all_iff)
  ultimately show "validUtf8 (bytes_str (printIndent j @ str_bytes sp))"
    using render_valid [OF _ c(2) j, of "\<lambda>l. CHR 10 # replicate (2 * l) (CHR '' '')"]
    by (simp add: printIndent_def valid_append flip: str_bytes_append)
qed

section \<open>Strict decoding of encoded values\<close>

lemma strictJSON_printed:
  assumes "okSchema s" and "wtV s v" and "depthS s \<le> 10000"
    and "prints raw (encodeV s v)" and "validUtf8 (bytes_str raw)"
  shows "strictJSON s raw = Inr v"
proof -
  have "depthJ (encodeV s v) \<le> 10000" using encode_depth(1) [OF assms(2)] assms(3) by simp
  then show ?thesis
    using assms reject_printed [OF assms(4) encode_noDup(1) [OF assms(1,2)]] decode_printed [OF assms(4)] decode_encode(1) [OF assms(1,2)]
    by (simp add: strictJSON_def decodeInto_def)
qed

lemma strictJSON_Marshal:
  assumes "okSchema s" and "wtV s v" and "depthS s \<le> 10000"
  shows "strictJSON s (Marshal s v) = Inr v"
  using strictJSON_printed [OF assms, of "Marshal s v"] prints_compact printed_valid(1) encode_text(1) [OF assms(1,2)]
  by (simp add: Marshal_def)

lemma strictJSON_MarshalIndent:
  assumes "okSchema s" and "wtV s v" and "depthS s \<le> 10000" and "list_all isSpace sp"
  shows "strictJSON s (MarshalIndent s v @ str_bytes sp) = Inr v"
  using strictJSON_printed [OF assms(1-3), of "MarshalIndent s v @ str_bytes sp"] prints_indent [OF _ assms(4)] printed_valid(2) [OF _ assms(4)]
    encode_text(1) [OF assms(1,2)]
  by (simp add: MarshalIndent_def)

section \<open>What decoding stores is well typed\<close>

















section \<open>Claims\<close>

definition sample_schema :: Schema where
  "sample_schema = SStruct [(''id'', False, SUint32), (''tags'', False, SSlice SString), (''by'', False, SMap SInt64), (''on'', True, SBool)]"

definition sample_value :: GoVal where
  "sample_value = VStruct [VInt 7, VSlice (Some [VString ''a<b'']), VMap (Some [(''k'', VInt (- 3))]), VBool True]"



text \<open>
  C26: strict decoding returns to a caller exactly the value that was encoded, for any value of any
  Go type of the program, whether it was written by \<open>Marshal\<close> or by \<open>MarshalIndent\<close> and a final
  newline.
\<close>

theorem strictJSON_roundtrip:
  assumes "okSchema s" and "depthS s \<le> 10000" and "wtV s v"
  shows "strictJSON s (Marshal s v) = Inr v \<and> strictJSON s (MarshalIndent s v @ str_bytes [CHR 10]) = Inr v"
  using strictJSON_Marshal [OF assms(1,3,2)] strictJSON_MarshalIndent [OF assms(1,3,2), of "[CHR 10]"]
  by (simp add: isSpace_def)

theorem strictJSON_roundtrip_witness:
  "okSchema sample_schema \<and> depthS sample_schema \<le> 10000 \<and> wtV sample_schema sample_value \<and>
   strictJSON sample_schema (Marshal sample_schema sample_value) = Inr sample_value \<and>
   strictJSON sample_schema (MarshalIndent sample_schema sample_value @ str_bytes [CHR 10]) = Inr sample_value"
proof -
  have "okSchema sample_schema" "depthS sample_schema \<le> 10000" by code_simp+
  moreover have "wtV sample_schema sample_value"
    by (simp add: sample_schema_def sample_value_def ascii_valid)
  ultimately show ?thesis using strictJSON_roundtrip by blast
qed

text \<open>
  C27: a text is refused when its value repeats a key in any object at any depth (or has a number no
  \<open>float64\<close> can hold, \<open>noDup\<close>), and also when anything but white space follows its value.
\<close>

theorem strictJSON_rejects:
  assumes "decodeNext raw = Inr (j, rest)" and "\<not> noDup j \<or> rest \<noteq> []"
  shows "\<exists>e. strictJSON s raw = Inl e"
proof (cases "rejectDuplicateJSON raw")
  case (Inr u)
  then show ?thesis using rejectDuplicateJSON_sound [OF _ assms(1)] assms(2) by simp
qed (simp add: strictJSON_def)

theorem strictJSON_rejects_witness:
  "decodeNext (str_bytes (''{'' @ quote ''a'' @ '':1,'' @ quote ''a'' @ '':2}'')) = Inr (JObj [(''a'', JNum ''1''), (''a'', JNum ''2'')], []) \<and>
   (\<exists>e. strictJSON (SMap SInt64) (str_bytes (''{'' @ quote ''a'' @ '':1,'' @ quote ''a'' @ '':2}'')) = Inl e)"
proof -
  have "decodeNext (str_bytes (''{'' @ quote ''a'' @ '':1,'' @ quote ''a'' @ '':2}'')) = Inr (JObj [(''a'', JNum ''1''), (''a'', JNum ''2'')], [])"
    by code_simp
  then show ?thesis using strictJSON_rejects by simp
qed

end
