(* ===== verification/Spec2Isabelle.thy ===== *)
theory Spec2Isabelle
  imports ProtocolProps SetupProps StructCodec
begin

text \<open>
  A verification development for LkTRS, k-times linkable and traceable ring signatures, as
  implemented in Go under \<open>src/nativeproof\<close>.

  \<^bold>\<open>The program.\<close>  A trusted setup (\<open>profile.go\<close>, \<open>ceremony.go\<close>) publishes powers of a
  secret in two groups.  A user's account is a point; a ring of accounts is accumulated into one
  point, and a member holds a membership witness.  A signer makes, per issue and counter below the
  limit \<open>k\<close>, a statement (serial \<open>S\<close>, challenge \<open>R\<close>, tag \<open>T\<close>, pseudonym), and a Groth16 proof
  (\<open>circuit.go\<close>, \<open>witness.go\<close>, \<open>backend.go\<close>) that the statement is well formed.  Two signatures
  with one serial are a double use; from the tags the trace key and so the account is computed, and
  a registry resolves it to a user (\<open>protocol.go\<close>).  Signatures, parameters, keys and ceremony
  contributions have strict binary encodings (\<open>wire.go\<close>, \<open>setup_encoding.go\<close>, \<open>ceremony.go\<close>);
  everything else is read as strict JSON (\<open>setup.go\<close>, \<open>service.go\<close>).

  \<^bold>\<open>How the code is rendered.\<close>  A Go function that returns an error is a function into
  \<open>string + 'a\<close> (\<open>'a result\<close>) whose left values are the error texts of the source, in the order of its
  checks.  Byte slices are \<open>8 word list\<close>, \<open>uint32\<close> and \<open>uint64\<close> are words and wrap, \<open>big.Int\<close> is
  \<open>int\<close>, a pointer that may be nil is an option, a Go map an association list.  Methods that change
  their receiver return the new one.  Locks are left out: a call is one atomic step.

  Code outside the repository is a parameter.  \<open>env\<close> (theory \<open>Curve\<close>) holds the groups of BN254 and
  secp256k1, the pairing, SHA-256, hash-to-curve and the random source, with the laws \<open>curve_laws\<close>, \<open>group_laws\<close> and \<open>coord_laws\<close>;
  \<open>gnark\<close> (theory \<open>Backend\<close>) the proof system, with the laws \<open>groth16_complete\<close> and \<open>groth16_sound\<close>;
  \<open>pointcodec\<close>, \<open>fft\<close> (theory \<open>SetupEncoding\<close>) and \<open>mpc\<close> (theory \<open>Ceremony\<close>) the point encodings,
  the FFT domain and the phase-1 objects.  Theory \<open>Sample\<close> gives concrete instances that satisfy
  all the laws; every theorem with a hypothesis is applied to such an instance.

  \<^bold>\<open>Theories.\<close>

  \<^item> \<open>Prelude\<close>: results, byte strings, big-endian numbers, hex and decimal text, association
    lists, the locale \<open>codec\<close> of an encoder with a strict decoder.
  \<^item> \<open>Curve\<close>, \<open>Sample\<close>: the parameters and their laws, and the concrete instance.
  \<^item> \<open>Profile\<close> (\<open>profile.go\<close>): parameters, validation, accounts, ring digests and challenges, member
    polynomial, accumulator, membership, statements, snapshots.  \<open>RingProps\<close>: parameter validation accepts
    exactly the powers of one secret, the accumulator is the evaluated product, a
    membership witness verifies, order does not matter, leaving undoes joining.
  \<^item> \<open>Encoding\<close> (\<open>setup.go\<close>, \<open>service.go\<close>): digests, issues, base64 accept one spelling per value.
  \<^item> \<open>Circuit\<close> (\<open>circuit.go\<close>, \<open>witness.go\<close>): the constraint system as a predicate and both assignments.
  \<^item> \<open>Backend\<close> (\<open>backend.go\<close>): proving, verifying, loading a verifier, the checks made on keys and
    proofs before they are decoded.
  \<^item> \<open>Wire\<close> (\<open>wire.go\<close>): the signature encoding is canonical.
  \<^item> \<open>Protocol\<close>, \<open>Tracing\<close> (\<open>protocol.go\<close>): signer with its per-issue counter (locale \<open>quota_ledger\<close>),
    registry, linking, tracing and the algebra behind it.  \<open>ProtocolProps\<close>: a signature made is
    accepted, an accepted one satisfies the circuit, at most \<open>k\<close> signatures per issue, double use is
    traced to its owner and different counters are not.
  \<^item> \<open>SetupEncoding\<close> (\<open>setup_encoding.go\<close>), \<open>Ceremony\<close> (\<open>ceremony.go\<close>), \<open>SetupProps\<close>: the parameter
    encoding is canonical, a proving key that passes the preflight has the length its counts
    determine, the contribution preflight accepts exactly one layout, the chain of contributions can
    always be extended and finalized.
  \<^item> \<open>Json\<close>, \<open>GoStruct\<close>, \<open>StructCodec\<close> (\<open>setup.go\<close>, \<open>service.go\<close>): lexer, token machine and
    printer of \<open>encoding/json\<close> as far as the program uses it, duplicate-key rejection, and decoding into
    and encoding of Go values driven by a description of the type.  Strict decoding is type correct,
    inverts the encoding of every value of every type, and refuses repeated keys and trailing data.

  \<^bold>\<open>Loops and fuel.\<close>  Every loop over a slice is structural recursion.  \<open>randomNonzero\<close> draws from
  a list of samples and reports when it is used up.  The doubling loop of \<open>ceremonyDomain\<close> is
  \<open>while_option\<close> on 64-bit words and is proved to end.  The JSON lexer recurses on the rest of the text.

  \<^bold>\<open>Not modelled.\<close>  The remaining parts of \<open>setup.go\<close> and \<open>service.go\<close> (reading and writing artifact
  files, the request service), \<open>trust.go\<close>, \<open>vault.go\<close>, \<open>context.go\<close>; the commands under \<open>cmd\<close> (flags,
  HTTP, HTML); the C++ programs under \<open>src/crypto\<close>, \<open>src/protocol\<close> and \<open>src/legacy\<close>, an earlier
  implementation on other libraries; tests, scripts and web assets.  Timing, memory limits and
  the secrecy of keys are outside a functional model.
\<close>

end
